(* ===== verification/Prelude.thy ===== *)
theory Prelude
  imports Main "HOL-Library.Word" "HOL-Library.Monad_Syntax" "HOL-Library.Signed_Division"
begin

unbundle bit_operations_syntax

text \<open>
  The vocabulary every component shares: the C types of the program as machine words, the
  conversions C performs between them, undefined behaviour as a value, and the generic
  lemmas on lists, options and words that the component proofs rest on.

  The program is C built for an LP64 target: \<^verbatim>\<open>int\<close> has 32 bits, \<^verbatim>\<open>char\<close> (the type
  \<^verbatim>\<open>BYTE\<close> of include/os-mm.h) is signed, and with \<^verbatim>\<open>MM64\<close> defined (include/os-cfg.h)
  \<^verbatim>\<open>addr_t\<close> and \<^verbatim>\<open>arg_t\<close> are \<^verbatim>\<open>uint64_t\<close>.

  A C expression whose behaviour is undefined (an index outside an array, a dangling
  pointer, a signed overflow) has the value \<open>None\<close>; every other outcome, error returns
  included, is \<open>Some\<close> of the value and the new state.
\<close>

section \<open>The C types\<close>

type_synonym addr_t = "64 word"
type_synonym arg_t = "64 word"
type_synonym u32 = "32 word"
type_synonym byte = "8 word"

text \<open>A pointer to a PCB: the key of the process store.\<close>

type_synonym pref = nat

named_theorems c_conv \<open>conversions between the C integer types\<close>
named_theorems wf_intros \<open>preservation of the components' invariants\<close>
named_theorems frame_simps \<open>what an operation leaves unchanged\<close>

section \<open>Integer conversions\<close>

text \<open>
  A C \<^verbatim>\<open>int\<close> is an \<open>int\<close> of HOL in the range of 32 bits. Converting a wider unsigned
  value keeps the low 32 bits and reads them as two's complement; converting an \<^verbatim>\<open>int\<close>
  to an unsigned type reduces it modulo the width.
\<close>

definition int_of_u64 :: "addr_t \<Rightarrow> int" where
  "int_of_u64 a = sint (ucast a :: 32 word)"

definition int_of_u32 :: "u32 \<Rightarrow> int" where
  "int_of_u32 a = sint a"

definition u64_of_int :: "int \<Rightarrow> addr_t" where
  "u64_of_int i = word_of_int i"

definition u32_of_int :: "int \<Rightarrow> u32" where
  "u32_of_int i = word_of_int i"

definition in_int :: "int \<Rightarrow> bool" where
  "in_int i \<longleftrightarrow> - (2 ^ 31) \<le> i \<and> i < 2 ^ 31"

text \<open>\<^verbatim>\<open>BYTE\<close> is signed: widening it copies the sign bit.\<close>

definition u64_of_byte :: "byte \<Rightarrow> addr_t" where
  "u64_of_byte b = scast b"

definition u32_of_byte :: "byte \<Rightarrow> u32" where
  "u32_of_byte b = scast b"

definition byte_of_u64 :: "addr_t \<Rightarrow> byte" where
  "byte_of_u64 a = ucast a"

lemma sint_small32: "uint (w :: 32 word) < 2 ^ 31 \<Longrightarrow> sint w = uint w"
  using signed_take_bit_int_eq_self [of 31 "uint w"] uint_ge_0 [of w]
  by (simp add: sint_uint del: uint_ge_0)

lemma int_of_u64_small [c_conv]:
  assumes "uint a < 2 ^ 31"
  shows "int_of_u64 a = uint a"
proof -
  have "uint (ucast a :: 32 word) = uint a"
    using assms by (simp add: unsigned_ucast_eq take_bit_int_eq_self)
  then show ?thesis
    using assms by (simp add: int_of_u64_def sint_small32)
qed

lemma int_of_u32_small [c_conv]: "uint a < 2 ^ 31 \<Longrightarrow> int_of_u32 a = uint a"
  by (simp add: int_of_u32_def sint_small32)

lemma in_int_of_u64 [simp]: "in_int (int_of_u64 a)"
  using sint_ge [of "ucast a :: 32 word"] sint_lt [of "ucast a :: 32 word"]
  by (simp add: in_int_def int_of_u64_def)

lemma byte_u64_roundtrip [simp]: "byte_of_u64 (u64_of_byte b) = b"
  by (rule bit_eqI) (simp add: byte_of_u64_def u64_of_byte_def bit_simps)

section \<open>Lists\<close>

text \<open>The C loop that moves the entries \<open>i .. n - 1\<close> of an array down by one.\<close>

function shift_down :: "'a list \<Rightarrow> nat \<Rightarrow> nat \<Rightarrow> 'a list" where
  "shift_down a i n = (if i < n then shift_down (a[i - 1 := a ! i]) (Suc i) n else a)"
  by pat_completeness auto
termination
  by (relation "measure (\<lambda>(a, i, n). n - i)") auto

declare shift_down.simps [simp del]

lemma length_shift_down [simp]: "length (shift_down a i n) = length a"
  by (induction a i n rule: shift_down.induct) (subst shift_down.simps, simp)

lemma nth_shift_down:
  "0 < i \<Longrightarrow> n \<le> length a \<Longrightarrow> j < length a \<Longrightarrow>
   shift_down a i n ! j = (if i - 1 \<le> j \<and> Suc j < n then a ! Suc j else a ! j)"
proof (induction a i n rule: shift_down.induct)
  case (1 a i n)
  show ?case
  proof (cases "i < n")
    case True
    with 1 have "shift_down a i n ! j =
      (if i \<le> j \<and> Suc j < n then a[i - 1 := a ! i] ! Suc j else a[i - 1 := a ! i] ! j)"
      by (subst shift_down.simps) simp
    with True 1(2-4) show ?thesis
      by (auto simp: nth_list_update)
  next
    case False
    then show ?thesis
      by (subst shift_down.simps) auto
  qed
qed

lemma take_shift_down:
  assumes "k < n" and "n \<le> length a"
  shows "take (n - 1) (shift_down a (Suc k) n) = take k a @ take (n - 1 - k) (drop (Suc k) a)"
  using assms by (intro nth_equalityI) (auto simp: nth_shift_down nth_append)

lemma find_append: "find P (xs @ ys) = (case find P xs of None \<Rightarrow> find P ys | Some x \<Rightarrow> Some x)"
  by (induction xs) auto

section \<open>Words as numbers\<close>

lemma unat_drop_bit_div: "unat (drop_bit k w) = unat w div 2 ^ k" for w :: "'a::len word"
  by (rule trans [OF unat_drop_bit_eq]) (rule drop_bit_eq_div)

lemma unat_take_bit_mod: "unat (take_bit k w) = unat w mod 2 ^ k" for w :: "'a::len word"
  by (rule trans [OF unsigned_take_bit_eq]) (rule take_bit_eq_mod)

lemma take_bit_word_self: "unat w < 2 ^ k \<Longrightarrow> take_bit k w = w" for w :: "'a::len word"
  by (rule word_unat_eq_iff [THEN iffD2]) (simp only: unat_take_bit_mod mod_less)

lemma bit_word_bound: "unat w < 2 ^ k \<Longrightarrow> bit w i \<Longrightarrow> i < k" for w :: "'a::len word"
  by (metis bit_take_bit_iff take_bit_word_self)

section \<open>Options\<close>

lemma bind_Some_iff: "Option.bind m f = Some y \<longleftrightarrow> (\<exists>x. m = Some x \<and> f x = Some y)"
  by (cases m) auto

text \<open>
  \<open>outcome x P\<close>: if \<open>x\<close> is defined its value satisfies \<open>P\<close>. The rules take a function body
  apart along its monadic structure, as a verification condition generator would.
\<close>

definition outcome :: "'a option \<Rightarrow> ('a \<Rightarrow> bool) \<Rightarrow> bool" where
  "outcome x P \<longleftrightarrow> (\<forall>y. x = Some y \<longrightarrow> P y)"

lemma outcomeD: "outcome x P \<Longrightarrow> x = Some y \<Longrightarrow> P y"
  by (simp add: outcome_def)

lemma outcomeI: "(\<And>y. x = Some y \<Longrightarrow> P y) \<Longrightarrow> outcome x P"
  by (simp add: outcome_def)

lemma outcome_Some: "P y \<Longrightarrow> outcome (Some y) P"
  by (simp add: outcome_def)

lemma outcome_None: "outcome None P"
  by (simp add: outcome_def)

lemma outcome_bind: "(\<And>y. x = Some y \<Longrightarrow> outcome (f y) P) \<Longrightarrow> outcome (Option.bind x f) P"
  by (auto simp: outcome_def bind_Some_iff)

lemma outcome_map: "(\<And>y. x = Some y \<Longrightarrow> P (f y)) \<Longrightarrow> outcome (map_option f x) P"
  by (auto simp: outcome_def)

lemma outcome_if: "(b \<Longrightarrow> outcome x P) \<Longrightarrow> (\<not> b \<Longrightarrow> outcome y P) \<Longrightarrow> outcome (if b then x else y) P"
  by simp

lemma outcome_option:
  "(e = None \<Longrightarrow> outcome x P) \<Longrightarrow> (\<And>y. e = Some y \<Longrightarrow> outcome (f y) P) \<Longrightarrow>
   outcome (case e of None \<Rightarrow> x | Some y \<Rightarrow> f y) P"
  by (cases e) simp_all

lemma outcome_prod: "(\<And>a b. e = (a, b) \<Longrightarrow> outcome (f a b) P) \<Longrightarrow> outcome (case e of (a, b) \<Rightarrow> f a b) P"
  by (cases e) simp

lemma outcome_let: "(\<And>x. x = e \<Longrightarrow> outcome (f x) P) \<Longrightarrow> outcome (Let e f) P"
  by simp

lemmas outcome_intros =
  outcome_Some outcome_None outcome_bind outcome_map outcome_if outcome_option outcome_prod outcome_let

end
