(* ===== verification/Bitops.thy ===== *)
theory Bitops
  imports Prelude
begin

text \<open>
  The macros of include/bitops.h, and the macros of include/mm.h and include/mm64.h built
  on them: page size and limits, the bit fields of a page table entry, the nine-bit index
  fields of a 64-bit virtual address. A macro whose operands are \<^verbatim>\<open>unsigned int\<close> is a
  function on 32-bit words; the ones applied to \<^verbatim>\<open>addr_t\<close> work on 64-bit words. A 32-bit
  mask used on a 64-bit value is complemented first and zero-extended afterwards, as C
  does it.
\<close>

section \<open>include/bitops.h\<close>

definition BITS_PER_LONG :: nat where
  "BITS_PER_LONG = 32"

definition DIV_ROUND_UP :: "'a::len word \<Rightarrow> 'a word \<Rightarrow> 'a word" where
  "DIV_ROUND_UP n d = (n + d - 1) div d"

definition BIT :: "nat \<Rightarrow> u32" where
  "BIT nr = push_bit nr 1"

definition BIT_ULL :: "nat \<Rightarrow> addr_t" where
  "BIT_ULL nr = push_bit nr 1"

definition GENMASK :: "nat \<Rightarrow> nat \<Rightarrow> u32" where
  "GENMASK h l = push_bit l (NOT 0) AND drop_bit (BITS_PER_LONG - h - 1) (NOT 0)"

definition NBITS2 :: "u32 \<Rightarrow> nat" where
  "NBITS2 n = (if n AND 2 \<noteq> 0 then 1 else 0)"

definition NBITS4 :: "u32 \<Rightarrow> nat" where
  "NBITS4 n = (if n AND 0xC \<noteq> 0 then 2 + NBITS2 (drop_bit 2 n) else NBITS2 n)"

definition NBITS8 :: "u32 \<Rightarrow> nat" where
  "NBITS8 n = (if n AND 0xF0 \<noteq> 0 then 4 + NBITS4 (drop_bit 4 n) else NBITS4 n)"

definition NBITS16 :: "u32 \<Rightarrow> nat" where
  "NBITS16 n = (if n AND 0xFF00 \<noteq> 0 then 8 + NBITS8 (drop_bit 8 n) else NBITS8 n)"

definition NBITS32 :: "u32 \<Rightarrow> nat" where
  "NBITS32 n = (if n AND 0xFFFF0000 \<noteq> 0 then 16 + NBITS16 (drop_bit 16 n) else NBITS16 n)"

definition NBITS :: "u32 \<Rightarrow> nat" where
  "NBITS n = (if n = 0 then 0 else NBITS32 n)"

definition EXTRACT_NBITS :: "u32 \<Rightarrow> nat \<Rightarrow> nat \<Rightarrow> u32" where
  "EXTRACT_NBITS nr h l = drop_bit l (nr AND GENMASK h l)"

section \<open>include/mm.h\<close>

definition PAGING_CPU_BUS_WIDTH :: nat where
  "PAGING_CPU_BUS_WIDTH = 22"

definition PAGING_PAGESZ :: addr_t where
  "PAGING_PAGESZ = 256"

definition PAGING_PAGE_ALIGNSZ :: "addr_t \<Rightarrow> addr_t" where
  "PAGING_PAGE_ALIGNSZ sz = DIV_ROUND_UP sz PAGING_PAGESZ * PAGING_PAGESZ"

definition PAGING_MAX_PGN :: addr_t where
  "PAGING_MAX_PGN = ucast (DIV_ROUND_UP (BIT PAGING_CPU_BUS_WIDTH) 256)"

definition PAGING_PTE_PRESENT_MASK :: u32 where
  "PAGING_PTE_PRESENT_MASK = BIT 31"

definition PAGING_PTE_SWAPPED_MASK :: u32 where
  "PAGING_PTE_SWAPPED_MASK = BIT 30"

definition PAGING_PTE_RESERVE_MASK :: u32 where
  "PAGING_PTE_RESERVE_MASK = BIT 29"

definition PAGING_PTE_DIRTY_MASK :: u32 where
  "PAGING_PTE_DIRTY_MASK = BIT 28"

definition PAGING_PTE_FPN_MASK :: u32 where
  "PAGING_PTE_FPN_MASK = GENMASK 12 0"

definition PAGING_PTE_SWPTYP_MASK :: u32 where
  "PAGING_PTE_SWPTYP_MASK = GENMASK 4 0"

definition PAGING_PTE_SWPOFF_MASK :: u32 where
  "PAGING_PTE_SWPOFF_MASK = GENMASK 25 5"

text \<open>\<^verbatim>\<open>SETBIT\<close>, \<^verbatim>\<open>CLRBIT\<close> and \<^verbatim>\<open>SETVAL\<close> on a 64-bit PTE slot with a 32-bit mask, and
  \<^verbatim>\<open>GETVAL\<close> on the 32-bit PTE that \<^verbatim>\<open>pte_get_entry\<close> returns.\<close>

definition SETBIT :: "addr_t \<Rightarrow> u32 \<Rightarrow> addr_t" where
  "SETBIT v msk = v OR ucast msk"

definition CLRBIT :: "addr_t \<Rightarrow> u32 \<Rightarrow> addr_t" where
  "CLRBIT v msk = v AND ucast (NOT msk)"

definition SETVAL :: "addr_t \<Rightarrow> addr_t \<Rightarrow> u32 \<Rightarrow> nat \<Rightarrow> addr_t" where
  "SETVAL v value msk offst = (v AND ucast (NOT msk)) OR (push_bit offst value AND ucast msk)"

definition GETVAL :: "u32 \<Rightarrow> u32 \<Rightarrow> nat \<Rightarrow> u32" where
  "GETVAL v msk offst = drop_bit offst (v AND msk)"

definition PAGING_PAGE_PRESENT :: "u32 \<Rightarrow> bool" where
  "PAGING_PAGE_PRESENT pte \<longleftrightarrow> pte AND PAGING_PTE_PRESENT_MASK \<noteq> 0"

definition PAGING_PAGE_SWAPPED :: "u32 \<Rightarrow> bool" where
  "PAGING_PAGE_SWAPPED pte \<longleftrightarrow> pte AND PAGING_PTE_SWAPPED_MASK \<noteq> 0"

definition PAGING_FPN :: "u32 \<Rightarrow> u32" where
  "PAGING_FPN pte = GETVAL pte PAGING_PTE_FPN_MASK 0"

definition PAGING_SWP :: "u32 \<Rightarrow> u32" where
  "PAGING_SWP pte = drop_bit 5 (pte AND PAGING_PTE_SWPOFF_MASK)"

section \<open>include/mm64.h\<close>

definition GENMASK64 :: "nat \<Rightarrow> nat \<Rightarrow> addr_t" where
  "GENMASK64 h l = push_bit l (NOT 0) AND drop_bit (64 - h - 1) (NOT 0)"

definition PAGING64_DIR_ENTRIES :: addr_t where
  "PAGING64_DIR_ENTRIES = push_bit 9 1"

definition PAGING64_ADDR_PT_MASK :: addr_t where
  "PAGING64_ADDR_PT_MASK = GENMASK64 20 12"

definition PAGING64_ADDR_PMD_MASK :: addr_t where
  "PAGING64_ADDR_PMD_MASK = GENMASK64 29 21"

definition PAGING64_ADDR_PUD_MASK :: addr_t where
  "PAGING64_ADDR_PUD_MASK = GENMASK64 38 30"

definition PAGING64_ADDR_P4D_MASK :: addr_t where
  "PAGING64_ADDR_P4D_MASK = GENMASK64 47 39"

definition PAGING64_ADDR_PGD_MASK :: addr_t where
  "PAGING64_ADDR_PGD_MASK = GENMASK64 56 48"

section \<open>The masks are bit ranges\<close>

lemma bit_GENMASK: "h < 32 \<Longrightarrow> bit (GENMASK h l) i \<longleftrightarrow> l \<le> i \<and> i \<le> h"
  by (auto simp: GENMASK_def BITS_PER_LONG_def bit_simps)

lemma bit_GENMASK64: "h < 64 \<Longrightarrow> bit (GENMASK64 h l) i \<longleftrightarrow> l \<le> i \<and> i \<le> h"
  by (auto simp: GENMASK64_def bit_simps)

text \<open>
  Extracting a bit field. For \<open>l \<le> h < 32\<close> the macro \<^verbatim>\<open>EXTRACT_NBITS\<close> with
  the mask \<^verbatim>\<open>GENMASK(h, l)\<close> is the number formed by the bits \<open>l .. h\<close>, that is the word
  shifted down by \<open>l\<close> and reduced modulo \<open>2 ^ (h - l + 1)\<close>.
\<close>

lemma extract_nbits_field:
  assumes "l \<le> h" and "h < 32"
  shows "unat (EXTRACT_NBITS nr h l) = (unat nr div 2 ^ l) mod 2 ^ (h - l + 1)"
proof -
  have "EXTRACT_NBITS nr h l = take_bit (h - l + 1) (drop_bit l nr)"
    using assms by (intro bit_eqI) (auto simp: EXTRACT_NBITS_def bit_GENMASK bit_simps)
  then show ?thesis
    by (simp only: unat_take_bit_mod unat_drop_bit_div)
qed

section \<open>NBITS is the binary logarithm\<close>

text \<open>\<open>log_of n r\<close>: \<open>r\<close> is the position of the top bit of \<open>n\<close>.\<close>

definition log_of :: "u32 \<Rightarrow> nat \<Rightarrow> bool" where
  "log_of n r \<longleftrightarrow> 2 ^ r \<le> unat n \<and> unat n < 2 ^ Suc r"

lemma log_of_drop_bit: "log_of (drop_bit k n) r \<Longrightarrow> log_of n (k + r)"
proof -
  assume a: "log_of (drop_bit k n) r"
  then have le: "2 ^ r \<le> unat n div 2 ^ k" and lt: "unat n div 2 ^ k < 2 ^ Suc r"
    by (simp_all only: log_of_def unat_drop_bit_div)
  from le have "2 ^ r * 2 ^ k \<le> unat n"
    by (metis div_times_less_eq_dividend le_trans mult_le_mono1)
  moreover from lt have "unat n < 2 ^ Suc r * 2 ^ k"
    by (simp add: div_less_iff_less_mult)
  ultimately show ?thesis
    by (simp add: log_of_def power_add mult.commute mult.left_commute)
qed

lemma drop_bit_bound: "unat n < 2 ^ (k + j) \<Longrightarrow> unat (drop_bit k (n :: u32)) < 2 ^ j"
  by (simp only: unat_drop_bit_div) (simp add: power_add less_mult_imp_div_less mult.commute)

lemma drop_bit_nonzero: "2 ^ k \<le> unat (n :: u32) \<Longrightarrow> 0 < unat (drop_bit k n)"
  by (simp only: unat_drop_bit_div) (simp add: div_greater_zero_iff)

lemma high_bits_test:
  fixes n m :: u32
  assumes m: "\<And>i. bit m i \<longleftrightarrow> k \<le> i \<and> i < k + j" and n: "unat n < 2 ^ (k + j)"
  shows "n AND m \<noteq> 0 \<longleftrightarrow> 2 ^ k \<le> unat n"
proof -
  have "n AND m = push_bit k (drop_bit k n)"
    using bit_word_bound [OF n] by (intro bit_eqI) (auto simp: m bit_simps)
  moreover have "drop_bit k (push_bit k (drop_bit k n)) = drop_bit k n"
    by (rule bit_eqI) (auto simp: bit_simps dest: bit_imp_le_length)
  ultimately have "n AND m = 0 \<longleftrightarrow> drop_bit k n = 0"
    by (metis drop_bit_of_0 push_bit_of_0)
  also have "\<dots> \<longleftrightarrow> unat n < 2 ^ k"
    by (simp only: unat_drop_bit_div flip: unat_eq_zero) (simp add: div_eq_0_iff)
  finally show ?thesis by auto
qed

lemma bit_block: "k + j \<le> 32 \<Longrightarrow> bit (push_bit k (mask j) :: u32) i \<longleftrightarrow> k \<le> i \<and> i < k + j"
  by (auto simp: bit_simps)

lemma bits_0xC: "bit (0xC :: u32) i \<longleftrightarrow> 2 \<le> i \<and> i < 2 + 2"
proof -
  have "(0xC :: u32) = push_bit 2 (mask 2)" by (simp add: mask_eq_exp_minus_1)
  then show ?thesis by (simp only: bit_block)
qed

lemma bits_0xF0: "bit (0xF0 :: u32) i \<longleftrightarrow> 4 \<le> i \<and> i < 4 + 4"
proof -
  have "(0xF0 :: u32) = push_bit 4 (mask 4)" by (simp add: mask_eq_exp_minus_1)
  then show ?thesis by (simp only: bit_block)
qed

lemma bits_0xFF00: "bit (0xFF00 :: u32) i \<longleftrightarrow> 8 \<le> i \<and> i < 8 + 8"
proof -
  have "(0xFF00 :: u32) = push_bit 8 (mask 8)" by (simp add: mask_eq_exp_minus_1)
  then show ?thesis by (simp only: bit_block)
qed

lemma bits_0xFFFF0000: "bit (0xFFFF0000 :: u32) i \<longleftrightarrow> 16 \<le> i \<and> i < 16 + 16"
proof -
  have "(0xFFFF0000 :: u32) = push_bit 16 (mask 16)" by (simp add: mask_eq_exp_minus_1)
  then show ?thesis by (simp only: bit_block)
qed

text \<open>One halving step: if the upper half is not zero its logarithm counts from the middle.\<close>

lemma log_of_halve:
  assumes "\<And>i. bit m i \<longleftrightarrow> k \<le> i \<and> i < k + k" and "0 < unat n" and "unat n < 2 ^ (k + k)"
    and "\<And>n. 0 < unat n \<Longrightarrow> unat n < 2 ^ k \<Longrightarrow> log_of n (f n)"
  shows "log_of n (if n AND m \<noteq> 0 then k + f (drop_bit k n) else f n)"
proof (cases "2 ^ k \<le> unat n")
  case True
  then have "log_of (drop_bit k n) (f (drop_bit k n))"
    using assms by (intro assms(4) drop_bit_nonzero drop_bit_bound)
  then show ?thesis
    using True high_bits_test [OF assms(1,3)] by (simp add: log_of_drop_bit)
next
  case False
  then show ?thesis
    using assms(2,4) high_bits_test [OF assms(1,3)] by simp
qed

lemma log_NBITS2: "0 < unat n \<Longrightarrow> unat n < 2 ^ 2 \<Longrightarrow> log_of n (NBITS2 n)"
proof -
  assume "0 < unat n" and "unat n < 2 ^ 2"
  then have "unat n = 1 \<or> unat n = 2 \<or> unat n = 3" by auto
  then have "n = 1 \<or> n = 2 \<or> n = 3" by (simp add: word_unat_eq_iff)
  then show ?thesis by (auto simp: log_of_def NBITS2_def)
qed

lemma log_NBITS4: "0 < unat n \<Longrightarrow> unat n < 2 ^ 4 \<Longrightarrow> log_of n (NBITS4 n)"
  unfolding NBITS4_def by (rule log_of_halve [OF bits_0xC]) (simp_all add: log_NBITS2)

lemma log_NBITS8: "0 < unat n \<Longrightarrow> unat n < 2 ^ 8 \<Longrightarrow> log_of n (NBITS8 n)"
  unfolding NBITS8_def by (rule log_of_halve [OF bits_0xF0]) (simp_all add: log_NBITS4)

lemma log_NBITS16: "0 < unat n \<Longrightarrow> unat n < 2 ^ 16 \<Longrightarrow> log_of n (NBITS16 n)"
  unfolding NBITS16_def by (rule log_of_halve [OF bits_0xFF00]) (simp_all add: log_NBITS8)

lemma log_NBITS32: "0 < unat n \<Longrightarrow> log_of n (NBITS32 n)"
  unfolding NBITS32_def
  by (rule log_of_halve [OF bits_0xFFFF0000])
     (use unsigned_less [of n] in \<open>simp_all add: log_NBITS16\<close>)

text \<open>
  \<^verbatim>\<open>NBITS\<close> computes the integer binary logarithm of every non-zero 32-bit
  value (the position of its highest bit), and 0 for 0.
\<close>

lemma nbits_is_log2:
  "NBITS 0 = 0 \<and> (\<forall>n. n = 0 \<or> (2 ^ NBITS n \<le> unat n \<and> unat n < 2 ^ Suc (NBITS n)))"
proof (intro conjI allI)
  fix n :: u32
  show "n = 0 \<or> (2 ^ NBITS n \<le> unat n \<and> unat n < 2 ^ Suc (NBITS n))"
  proof (cases "n = 0")
    case False
    then have "0 < unat n" by (simp add: unat_gt_0)
    from log_NBITS32 [OF this] False show ?thesis
      unfolding log_of_def NBITS_def by simp
  qed simp
qed (simp add: NBITS_def)

section \<open>Constants\<close>

lemma PAGING_MAX_PGN_eq: "PAGING_MAX_PGN = 16384"
  by (simp add: PAGING_MAX_PGN_def DIV_ROUND_UP_def BIT_def PAGING_CPU_BUS_WIDTH_def)

lemma PAGING64_DIR_ENTRIES_eq: "PAGING64_DIR_ENTRIES = 512"
  by (simp add: PAGING64_DIR_ENTRIES_def)

text \<open>Rounding up to whole pages, on sizes that do not overflow 64 bits.\<close>

lemma page_alignsz:
  assumes "uint sz + 255 < 2 ^ 64"
  shows "uint (PAGING_PAGE_ALIGNSZ sz) = ((uint sz + 255) div 256) * 256"
proof -
  have s: "uint (sz + 255) = uint sz + 255"
    using assms by (simp add: uint_word_ariths)
  have d: "uint ((sz + 255) div 256) = (uint sz + 255) div 256"
    by (simp add: uint_div s)
  have "(uint sz + 255) div 256 * 256 \<le> uint sz + 255" by linarith
  then have "(uint sz + 255) div 256 * 256 mod 2 ^ 64 = (uint sz + 255) div 256 * 256"
    using assms by (intro mod_pos_pos_trivial) (simp_all add: pos_imp_zdiv_nonneg_iff)
  then have "uint ((sz + 255) div 256 * 256) = ((uint sz + 255) div 256) * 256"
    by (subst uint_word_ariths) (simp add: d)
  then show ?thesis
    by (simp add: PAGING_PAGE_ALIGNSZ_def DIV_ROUND_UP_def PAGING_PAGESZ_def algebra_simps)
qed

end
