(* ===== verification/OsQueue.thy ===== *)
theory OsQueue
  imports Prelude
begin

text \<open>
  The process queue of src/queue.c: an array of \<^verbatim>\<open>MAX_QUEUE_SIZE\<close> PCB pointers and the
  number of entries in use. A pointer is an element of \<open>'p\<close>, NULL is \<open>None\<close>. The abstract
  value of a queue is the list \<open>q_list q\<close> of the pointers in use; the lemmas show that the
  array operations implement a bounded first-in first-out list, and the locale
  \<open>bounded_fifo\<close> is the contract the scheduler relies on.
\<close>

section \<open>State and operations\<close>

definition MAX_QUEUE_SIZE :: nat where
  "MAX_QUEUE_SIZE = 50"

record 'p queue_t =
  q_proc :: "'p option list"
  q_size :: nat

text \<open>A queue with static storage duration: all pointers NULL, size 0.\<close>

definition static_queue :: "'p queue_t" where
  "static_queue = \<lparr>q_proc = replicate MAX_QUEUE_SIZE None, q_size = 0\<rparr>"

text \<open>The functions take the queue by pointer and test it against NULL (\<open>None\<close>).\<close>

definition q_empty :: "'p queue_t option \<Rightarrow> bool" where
  "q_empty qp = (case qp of None \<Rightarrow> True | Some q \<Rightarrow> q_size q = 0)"

definition enqueue :: "'p queue_t option \<Rightarrow> 'p option \<Rightarrow> 'p queue_t option" where
  "enqueue qp proc =
     (case qp of
        None \<Rightarrow> None
      | Some q \<Rightarrow>
          if proc = None then Some q
          else if MAX_QUEUE_SIZE \<le> q_size q then Some q
          else Some (q\<lparr>q_proc := (q_proc q)[q_size q := proc], q_size := q_size q + 1\<rparr>))"

definition dequeue :: "'p queue_t option \<Rightarrow> 'p option \<times> 'p queue_t option" where
  "dequeue qp =
     (case qp of
        None \<Rightarrow> (None, None)
      | Some q \<Rightarrow>
          if q_empty qp then (None, qp)
          else (q_proc q ! 0,
                Some (q\<lparr>q_proc := shift_down (q_proc q) 1 (q_size q), q_size := q_size q - 1\<rparr>)))"

text \<open>The search loop of \<^verbatim>\<open>purgequeue\<close>: the first index \<open>\<ge> i\<close> holding the pointer.\<close>

function find_proc :: "'p option list \<Rightarrow> 'p option \<Rightarrow> nat \<Rightarrow> nat \<Rightarrow> nat option" where
  "find_proc a p i n =
     (if i < n then (if a ! i = p then Some i else find_proc a p (Suc i) n) else None)"
  by pat_completeness auto
termination
  by (relation "measure (\<lambda>(a, p, i, n). n - i)") auto

declare find_proc.simps [simp del]

definition purgequeue :: "'p queue_t option \<Rightarrow> 'p option \<Rightarrow> 'p option \<times> 'p queue_t option" where
  "purgequeue qp proc =
     (case qp of
        None \<Rightarrow> (None, None)
      | Some q \<Rightarrow>
          if q_empty qp \<or> proc = None then (None, qp)
          else (case find_proc (q_proc q) proc 0 (q_size q) of
                  None \<Rightarrow> (None, qp)
                | Some idx \<Rightarrow>
                    (proc,
                     Some (q\<lparr>q_proc := shift_down (q_proc q) (idx + 1) (q_size q),
                              q_size := q_size q - 1\<rparr>))))"

section \<open>Invariant and abstraction\<close>

definition wf_queue :: "'p queue_t \<Rightarrow> bool" where
  "wf_queue q \<longleftrightarrow> length (q_proc q) = MAX_QUEUE_SIZE \<and> q_size q \<le> MAX_QUEUE_SIZE \<and>
     None \<notin> set (take (q_size q) (q_proc q))"

definition q_list :: "'p queue_t \<Rightarrow> 'p list" where
  "q_list q = map the (take (q_size q) (q_proc q))"

text \<open>The queue itself, for a pointer that is not NULL.\<close>

definition enq :: "'p \<Rightarrow> 'p queue_t \<Rightarrow> 'p queue_t" where
  "enq p q = the (enqueue (Some q) (Some p))"

definition deq :: "'p queue_t \<Rightarrow> 'p option \<times> 'p queue_t" where
  "deq q = (fst (dequeue (Some q)), the (snd (dequeue (Some q))))"

definition purge :: "'p \<Rightarrow> 'p queue_t \<Rightarrow> 'p queue_t" where
  "purge p q = the (snd (purgequeue (Some q) (Some p)))"

lemma enqueue_Some: "enqueue (Some q) (Some p) = Some (enq p q)"
  by (simp add: enq_def enqueue_def)

lemma dequeue_Some: "dequeue (Some q) = (fst (deq q), Some (snd (deq q)))"
  by (simp add: deq_def dequeue_def)

lemma wf_static_queue [simp, wf_intros]: "wf_queue static_queue"
  by (simp add: wf_queue_def static_queue_def)

lemma q_list_static [simp]: "q_list static_queue = []"
  by (simp add: q_list_def static_queue_def)

lemma length_q_list: "wf_queue q \<Longrightarrow> length (q_list q) = q_size q"
  by (simp add: q_list_def wf_queue_def)

lemma q_list_bound: "wf_queue q \<Longrightarrow> length (q_list q) \<le> MAX_QUEUE_SIZE"
  by (simp add: length_q_list) (simp add: wf_queue_def)

lemma q_empty_iff: "wf_queue q \<Longrightarrow> q_empty (Some q) \<longleftrightarrow> q_list q = []"
  by (auto simp: q_empty_def simp flip: length_q_list)

lemma take_size_map_Some:
  assumes "wf_queue q"
  shows "take (q_size q) (q_proc q) = map Some (q_list q)"
proof -
  have "map Some (map the xs) = xs" if "None \<notin> set xs" for xs :: "'a option list"
    using that by (induction xs) auto
  then show ?thesis using assms by (simp add: q_list_def wf_queue_def)
qed

lemma q_proc_nth: "wf_queue q \<Longrightarrow> i < q_size q \<Longrightarrow> q_proc q ! i = Some (q_list q ! i)"
  by (metis length_q_list nth_map nth_take take_size_map_Some)

lemma take_map_q_listI:
  assumes "take (q_size q) (q_proc q) = map Some xs"
  shows "q_list q = xs" and "None \<notin> set (take (q_size q) (q_proc q))"
  using assms by (auto simp: q_list_def)

section \<open>Refinement to a bounded list\<close>

lemma enq_wf [wf_intros]: "wf_queue q \<Longrightarrow> wf_queue (enq p q)"
  by (auto simp: wf_queue_def enq_def enqueue_def take_Suc_conv_app_nth)

lemma enq_list:
  "wf_queue q \<Longrightarrow>
   q_list (enq p q) = (if length (q_list q) < MAX_QUEUE_SIZE then q_list q @ [p] else q_list q)"
  by (auto simp: length_q_list) 
     (auto simp: wf_queue_def q_list_def enq_def enqueue_def take_Suc_conv_app_nth)

lemma shift_q_list:
  assumes "wf_queue q" and "k < q_size q"
  shows "take (q_size q - 1) (shift_down (q_proc q) (Suc k) (q_size q)) =
         map Some (take k (q_list q) @ drop (Suc k) (q_list q))"
proof -
  have n: "q_size q \<le> length (q_proc q)" using assms(1) by (simp add: wf_queue_def)
  have "take (q_size q - 1) (shift_down (q_proc q) (Suc k) (q_size q)) =
      take k (q_proc q) @ take (q_size q - 1 - k) (drop (Suc k) (q_proc q))"
    by (rule take_shift_down [OF assms(2) n])
  also have "take k (q_proc q) = take k (take (q_size q) (q_proc q))"
    using assms(2) by (simp add: min_def)
  also have "take (q_size q - 1 - k) (drop (Suc k) (q_proc q)) =
      drop (Suc k) (take (q_size q) (q_proc q))"
    by (simp add: drop_take)
  finally show ?thesis
    using assms by (simp add: take_size_map_Some take_map drop_map)
qed

lemma shift_queue:
  assumes "wf_queue q" and "k < q_size q"
  defines "q' \<equiv> q\<lparr>q_proc := shift_down (q_proc q) (Suc k) (q_size q), q_size := q_size q - 1\<rparr>"
  shows "wf_queue q'" and "q_list q' = take k (q_list q) @ drop (Suc k) (q_list q)"
proof -
  have t: "take (q_size q') (q_proc q') = map Some (take k (q_list q) @ drop (Suc k) (q_list q))"
    using shift_q_list [OF assms(1,2)] by (simp add: q'_def)
  show "q_list q' = take k (q_list q) @ drop (Suc k) (q_list q)"
    using take_map_q_listI(1) [OF t] .
  show "wf_queue q'"
    using assms(1) take_map_q_listI(2) [OF t] by (auto simp: wf_queue_def q'_def)
qed

lemma deq_nonempty:
  assumes "wf_queue q" and "q_list q \<noteq> []"
  shows "fst (deq q) = Some (hd (q_list q))"
    and "q_list (snd (deq q)) = tl (q_list q)" and "wf_queue (snd (deq q))"
proof -
  from assms have s: "0 < q_size q" by (simp flip: length_q_list)
  show "fst (deq q) = Some (hd (q_list q))"
    using assms s by (simp add: deq_def dequeue_def q_empty_def q_proc_nth hd_conv_nth)
  show "q_list (snd (deq q)) = tl (q_list q)" and "wf_queue (snd (deq q))"
    using shift_queue [OF assms(1) s] s by (simp_all add: deq_def dequeue_def q_empty_def drop_Suc)
qed

lemma deq_empty: "wf_queue q \<Longrightarrow> q_list q = [] \<Longrightarrow> deq q = (None, q)"
  by (simp add: deq_def dequeue_def q_empty_iff)

lemma deq_wf [wf_intros]: "wf_queue q \<Longrightarrow> wf_queue (snd (deq q))"
  by (cases "q_list q = []") (simp_all add: deq_empty deq_nonempty)

lemma find_proc_spec:
  "find_proc a p i n = (if \<exists>j. i \<le> j \<and> j < n \<and> a ! j = p
     then Some (LEAST j. i \<le> j \<and> j < n \<and> a ! j = p) else None)"
proof (induction a p i n rule: find_proc.induct)
  case (1 a p i n)
  show ?case
  proof (cases "i < n \<and> a ! i \<noteq> p")
    case True
    have eq: "(Suc i \<le> j \<and> j < n \<and> a ! j = p) = (i \<le> j \<and> j < n \<and> a ! j = p)" for j
      using True by (cases "j = i") auto
    show ?thesis
      using True 1 unfolding eq by (subst find_proc.simps) simp
  next
    case False
    show ?thesis
    proof (cases "i < n")
      case True
      with False have "(LEAST j. i \<le> j \<and> j < n \<and> a ! j = p) = i"
        by (intro Least_equality) auto
      with True False show ?thesis by (subst find_proc.simps) auto
    qed (subst find_proc.simps, auto)
  qed
qed

text \<open>\<^verbatim>\<open>purgequeue\<close> removes the first occurrence of the pointer and keeps the order.\<close>

lemma purge_list:
  assumes wf: "wf_queue q"
  shows "q_list (purge p q) = remove1 p (q_list q)" and "wf_queue (purge p q)"
proof -
  let ?P = "\<lambda>j. 0 \<le> j \<and> j < q_size q \<and> q_proc q ! j = Some p"
  have "q_list (purge p q) = remove1 p (q_list q) \<and> wf_queue (purge p q)"
  proof (cases "p \<in> set (q_list q)")
    case True
    then obtain j where j: "j < length (q_list q)" "q_list q ! j = p"
      by (auto simp: in_set_conv_nth)
    then have ex: "\<exists>j. ?P j" using wf by (auto simp: length_q_list q_proc_nth)
    define k where "k = (LEAST j. ?P j)"
    have k: "?P k" and before: "\<And>i. i < k \<Longrightarrow> \<not> ?P i"
      using ex unfolding k_def by (metis (mono_tags, lifting) LeastI_ex, metis (mono_tags, lifting) not_less_Least)
    have "p \<notin> set (take k (q_list q))"
      using before k wf by (fastforce simp: in_set_conv_nth length_q_list q_proc_nth)
    moreover have "q_list q = take k (q_list q) @ p # drop (Suc k) (q_list q)"
      using k wf by (metis id_take_nth_drop length_q_list option.sel q_proc_nth)
    ultimately have "remove1 p (q_list q) = take k (q_list q) @ drop (Suc k) (q_list q)"
      by (metis remove1.simps(2) remove1_append)
    moreover have "purge p q = q\<lparr>q_proc := shift_down (q_proc q) (Suc k) (q_size q), q_size := q_size q - 1\<rparr>"
      using ex k wf unfolding k_def by (auto simp: purge_def purgequeue_def find_proc_spec q_empty_def)
    ultimately show ?thesis using shift_queue [OF wf, of k] k by simp
  next
    case False
    then have "\<not> (\<exists>j. ?P j)"
      using wf by (metis length_q_list nth_mem option.inject q_proc_nth)
    then have "purge p q = q"
      by (auto simp: purge_def purgequeue_def find_proc_spec)
    with False wf show ?thesis by (simp add: remove1_idem)
  qed
  then show "q_list (purge p q) = remove1 p (q_list q)" and "wf_queue (purge p q)" by auto
qed

lemma purge_wf [wf_intros]: "wf_queue q \<Longrightarrow> wf_queue (purge p q)"
  by (rule purge_list)

lemma purgequeue_result:
  "wf_queue q \<Longrightarrow> fst (purgequeue (Some q) (Some p)) = (if p \<in> set (q_list q) then Some p else None)"
proof -
  assume wf: "wf_queue q"
  have "(\<exists>j. j < q_size q \<and> q_proc q ! j = Some p) \<longleftrightarrow> p \<in> set (q_list q)"
    using wf by (auto simp: in_set_conv_nth length_q_list q_proc_nth)
  then show ?thesis
    by (auto simp: purgequeue_def find_proc_spec q_empty_def)
qed

section \<open>The contract of a bounded queue\<close>

text \<open>
  What a client of the queue uses: an abstraction to a list, an invariant, and the laws of
  the two operations; \<open>cap\<close> is the capacity. \<open>enq_all\<close> and \<open>deq_n\<close> iterate them.
\<close>

fun enq_all :: "('p \<Rightarrow> 'q \<Rightarrow> 'q) \<Rightarrow> 'p list \<Rightarrow> 'q \<Rightarrow> 'q" where
  "enq_all en [] q = q"
| "enq_all en (p # ps) q = enq_all en ps (en p q)"

fun deq_n :: "('q \<Rightarrow> 'p option \<times> 'q) \<Rightarrow> nat \<Rightarrow> 'q \<Rightarrow> 'p option list \<times> 'q" where
  "deq_n de 0 q = ([], q)"
| "deq_n de (Suc n) q =
     (let (r, q1) = de q; (rs, q2) = deq_n de n q1 in (r # rs, q2))"

locale bounded_fifo =
  fixes abs :: "'q \<Rightarrow> 'p list"
    and inv :: "'q \<Rightarrow> bool"
    and en :: "'p \<Rightarrow> 'q \<Rightarrow> 'q"
    and de :: "'q \<Rightarrow> 'p option \<times> 'q"
    and cap :: nat
  assumes en_inv: "inv q \<Longrightarrow> inv (en p q)"
    and en_abs: "inv q \<Longrightarrow> length (abs q) < cap \<Longrightarrow> abs (en p q) = abs q @ [p]"
    and en_full: "inv q \<Longrightarrow> cap \<le> length (abs q) \<Longrightarrow> abs (en p q) = abs q"
    and de_inv: "inv q \<Longrightarrow> inv (snd (de q))"
    and de_some: "inv q \<Longrightarrow> abs q \<noteq> [] \<Longrightarrow> fst (de q) = Some (hd (abs q)) \<and> abs (snd (de q)) = tl (abs q)"
    and de_none: "inv q \<Longrightarrow> abs q = [] \<Longrightarrow> fst (de q) = None \<and> abs (snd (de q)) = []"
begin

lemma en_prefix: "inv q \<Longrightarrow> \<exists>ys. abs (en p q) = abs q @ ys"
  by (metis append_Nil2 en_abs en_full leI)

lemma enq_all_abs:
  "inv q \<Longrightarrow> length (abs q) \<le> cap \<Longrightarrow>
   abs (enq_all en ps q) = take cap (abs q @ ps) \<and> inv (enq_all en ps q)"
proof (induction ps arbitrary: q)
  case (Cons p ps)
  show ?case
  proof (cases "length (abs q) < cap")
    case True
    then show ?thesis using Cons by (simp add: en_abs en_inv take_Cons')
  next
    case False
    with Cons.prems have "length (abs q) = cap" by simp
    then show ?thesis using Cons by (simp add: en_full en_inv)
  qed
qed simp

lemma deq_n_abs:
  "inv q \<Longrightarrow> n \<le> length (abs q) \<Longrightarrow>
   fst (deq_n de n q) = map Some (take n (abs q)) \<and> abs (snd (deq_n de n q)) = drop n (abs q)"
proof (induction n arbitrary: q)
  case (Suc n)
  then have ne: "abs q \<noteq> []" by auto
  note d = de_some [OF Suc.prems(1) ne]
  have "n \<le> length (abs (snd (de q)))" using Suc.prems d by simp
  from Suc.IH [OF de_inv [OF Suc.prems(1)] this] d ne show ?case
    by (cases "abs q") (auto simp: case_prod_unfold Let_def)
qed simp

lemma fifo_order:
  assumes "inv q" and "abs q = []" and "length ps \<le> cap"
  shows "fst (deq_n de (length ps) (enq_all en ps q)) = map Some ps"
  using enq_all_abs [OF assms(1), of ps] deq_n_abs [of "enq_all en ps q" "length ps"] assms
  by simp

end

interpretation os_queue: bounded_fifo q_list wf_queue enq deq MAX_QUEUE_SIZE
  by unfold_locales (simp_all add: enq_wf enq_list deq_wf deq_nonempty deq_empty)

text \<open>
  The array queue is first-in first-out. Processes enqueued into an empty
  queue, as many as the array holds, come out in the order they went in.
\<close>

lemma queue_is_fifo:
  assumes "wf_queue q" and "q_list q = []" and "length ps \<le> MAX_QUEUE_SIZE"
  shows "fst (deq_n deq (length ps) (enq_all enq ps q)) = map Some ps"
  by (rule os_queue.fifo_order [OF assms])

text \<open>
  Property C25: \<^verbatim>\<open>enqueue\<close>, \<^verbatim>\<open>dequeue\<close> and \<^verbatim>\<open>purgequeue\<close> implement a list of at most 50
  processes: appending at the end (a full queue drops the new process silently), removing
  the head, removing the first occurrence of a process; all of them keep the array
  invariant.
\<close>

theorem queue_refines_list:
  assumes "wf_queue q"
  shows "enqueue (Some q) (Some p) = Some (enq p q) \<and> wf_queue (enq p q)
       \<and> q_list (enq p q) = take MAX_QUEUE_SIZE (q_list q @ [p])
       \<and> dequeue (Some q) = (fst (deq q), Some (snd (deq q))) \<and> wf_queue (snd (deq q))
       \<and> fst (deq q) = (case q_list q of [] \<Rightarrow> None | x # xs \<Rightarrow> Some x) \<and> q_list (snd (deq q)) = tl (q_list q)
       \<and> fst (purgequeue (Some q) (Some p)) = (if p \<in> set (q_list q) then Some p else None)
       \<and> wf_queue (purge p q) \<and> q_list (purge p q) = remove1 p (q_list q)"
proof (intro conjI)
  show "q_list (enq p q) = take MAX_QUEUE_SIZE (q_list q @ [p])"
    using assms q_list_bound [OF assms] by (simp add: enq_list)
  show "fst (deq q) = (case q_list q of [] \<Rightarrow> None | x # xs \<Rightarrow> Some x)"
    and "q_list (snd (deq q)) = tl (q_list q)"
    using assms deq_nonempty [OF assms] by (cases "q_list q"; simp add: deq_empty)+
qed (simp_all add: assms enqueue_Some dequeue_Some enq_wf deq_wf purgequeue_result purge_list)

theorem queue_refines_list_witness:
  "q_list (enq (4::nat) static_queue) = take MAX_QUEUE_SIZE ([] @ [4])"
  using queue_refines_list [OF wf_static_queue, of "4::nat"] by simp

end
