(* ===== verification/Common.thy ===== *)
theory Common
  imports Bitops OsQueue
begin

text \<open>
  The data structures shared by the components, with the fields of include/common.h and
  include/os-mm.h. Linked lists become HOL lists in the order of their links, so the link
  fields (\<^verbatim>\<open>rg_next\<close>, \<^verbatim>\<open>vm_next\<close>, \<^verbatim>\<open>pg_next\<close>, \<^verbatim>\<open>fp_next\<close>) do not appear, and a NULL list is the
  empty list. Fields the program never reads are left out: \<^verbatim>\<open>vm_mm\<close>, \<^verbatim>\<open>kcpooltbl\<close>,
  \<^verbatim>\<open>owner\<close> and the directory pointers \<^verbatim>\<open>p4d\<close> .. \<^verbatim>\<open>pt\<close> of \<^verbatim>\<open>mm_struct\<close>, which stay NULL.
\<close>

section \<open>include/os-mm.h\<close>

definition PAGING_MAX_MMSWP :: nat where
  "PAGING_MAX_MMSWP = 4"

definition PAGING_MAX_SYMTBL_SZ :: nat where
  "PAGING_MAX_SYMTBL_SZ = 30"

definition VMRG_KERNEL_MODE :: "64 word" where
  "VMRG_KERNEL_MODE = 0"

definition VMRG_USER_MODE :: "64 word" where
  "VMRG_USER_MODE = 1"

record vm_rg_struct =
  rg_start :: addr_t
  rg_end :: addr_t
  mode_bit :: "64 word"

record vm_area_struct =
  vm_id :: "64 word"
  vm_start :: addr_t
  vm_end :: addr_t
  sbrk :: addr_t
  vm_freerg_list :: "vm_rg_struct list"

text \<open>
  A directory page of the five-level page table: 512 words, indexed by a word. In the four
  upper levels a word is zero or a pointer to a page of the next level (\<open>Dir\<close>); in the
  lowest level it is a page table entry (\<open>Tbl\<close>). No page has two parents, so the pages
  reached from the root form a tree.
\<close>

datatype dir = Tbl "addr_t \<Rightarrow> addr_t" | Dir "addr_t \<Rightarrow> dir option"

text \<open>
  The last two fields of \<open>mm_struct\<close> are not in the C struct. They stand for the C library:
  \<open>calloc_ok n\<close> says whether the \<open>n\<close>-th directory page this process asks \<^verbatim>\<open>calloc\<close> for is
  granted, and \<open>calloc_n\<close> counts the requests made.
\<close>

record mm_struct =
  pgd :: "dir option"
  mm64_walk_count :: "64 word"
  mm64_mem_access_count :: "64 word"
  mm64_dir_alloc_count :: "64 word"
  mm64_bytes_alloc :: "64 word"
  mmap :: "vm_area_struct list"
  symrgtbl :: "vm_rg_struct list"
  fifo_pgn :: "addr_t list"
  calloc_ok :: "nat \<Rightarrow> bool"
  calloc_n :: nat

text \<open>
  A physical memory device. The storage pointer is NULL (\<open>None\<close>) or points to a buffer that
  maps the addresses inside the allocation to their bytes and is undefined outside it;
  \<^verbatim>\<open>rdmflg\<close> is the random-access flag.
\<close>

record memphy_struct =
  storage :: "(addr_t \<Rightarrow> byte option) option"
  maxsz :: int
  rdmflg :: int
  cursor :: int
  free_fp_list :: "addr_t list"
  used_fp_list :: "addr_t list"

section \<open>include/common.h\<close>

datatype ins_opcode_t =
    CALC | ALLOC | FREE | READ | WRITE
  | KMALLOC | KMEM_CACHE_CREATE | KMEM_CACHE_ALLOC | COPY_FROM_USER | COPY_TO_USER
  | SYSCALL

record inst_t =
  opcode :: ins_opcode_t
  arg_0 :: arg_t
  arg_1 :: arg_t
  arg_2 :: arg_t
  arg_3 :: arg_t

record code_seg_t =
  seg_text :: "inst_t list"
  seg_size :: u32

text \<open>
  The PCB. The back pointer \<^verbatim>\<open>krnl\<close> always holds the address of the one kernel structure
  \<^verbatim>\<open>os\<close> (src/os.c), so it is not a field; \<^verbatim>\<open>page_table\<close> belongs to the obsolete memory of
  src/mem.c.
\<close>

record pcb_t =
  pid :: u32
  priority :: u32
  path :: string
  code :: code_seg_t
  regs :: "addr_t list"
  pc :: u32
  prio :: u32
  pcb_mm :: "mm_struct option"
  bp :: u32

text \<open>The live PCBs: a pointer to freed memory is not in the store.\<close>

type_synonym pcb_store = "pref \<Rightarrow> pcb_t option"

end
