(* ===== verification/Sched.thy ===== *)
theory Sched
  imports Common
begin

text \<open>
  The multi-level queue scheduler of src/sched.c, as compiled with \<^verbatim>\<open>MLQ_SCHED\<close>. Every
  function runs under \<^verbatim>\<open>queue_lock\<close> from its first access to the shared state to its last,
  so it is one atomic step on the scheduler's state.
\<close>

section \<open>State\<close>

definition MAX_PRIO :: nat where
  "MAX_PRIO = 140"

text \<open>
  The file-scope variables of src/sched.c. \<open>krnl_linked\<close> says that the queue pointers of the
  kernel structure have been set (they are NULL until the first \<^verbatim>\<open>add_proc\<close>).
\<close>

record sched_state =
  ready_queue :: "pref queue_t"
  run_queue :: "pref queue_t"
  running_list :: "pref queue_t"
  mlq_ready_queue :: "pref queue_t list"
  slot :: "int list"
  current_mlq_prio :: nat
  krnl_linked :: bool

definition static_sched :: sched_state where
  "static_sched =
     \<lparr>ready_queue = static_queue, run_queue = static_queue, running_list = static_queue,
      mlq_ready_queue = replicate MAX_PRIO static_queue, slot = replicate MAX_PRIO 0,
      current_mlq_prio = 0, krnl_linked = False\<rparr>"

section \<open>Operations\<close>

definition reset_mlq_slot :: "sched_state \<Rightarrow> sched_state" where
  "reset_mlq_slot s = s\<lparr>slot := map (\<lambda>p. int MAX_PRIO - int p) [0..<MAX_PRIO]\<rparr>"

definition normalize_prio :: "u32 \<Rightarrow> nat" where
  "normalize_prio p = (if MAX_PRIO \<le> unat p then MAX_PRIO - 1 else unat p)"

definition mlq_empty :: "sched_state \<Rightarrow> nat \<Rightarrow> bool" where
  "mlq_empty s p = q_empty (Some (mlq_ready_queue s ! p))"

definition queue_empty :: "sched_state \<Rightarrow> bool" where
  "queue_empty s =
     (if list_ex (\<lambda>p. \<not> mlq_empty s p) [0..<MAX_PRIO] then False
      else q_empty (Some (ready_queue s)) \<and> q_empty (Some (run_queue s)))"

definition init_scheduler :: "sched_state \<Rightarrow> sched_state" where
  "init_scheduler s =
     s\<lparr>mlq_ready_queue := map (\<lambda>q. q\<lparr>q_size := 0\<rparr>) (mlq_ready_queue s),
       slot := map (\<lambda>p. int MAX_PRIO - int p) [0..<MAX_PRIO],
       current_mlq_prio := 0,
       ready_queue := (ready_queue s)\<lparr>q_size := 0\<rparr>,
       run_queue := (run_queue s)\<lparr>q_size := 0\<rparr>,
       running_list := (running_list s)\<lparr>q_size := 0\<rparr>\<rparr>"

text \<open>The body both loops of \<^verbatim>\<open>get_mlq_proc\<close> run on the queue they settle on.\<close>

definition mlq_take :: "sched_state \<Rightarrow> nat \<Rightarrow> pref option \<times> sched_state" where
  "mlq_take s p =
     (let (proc, q) = deq (mlq_ready_queue s ! p);
          s1 = s\<lparr>mlq_ready_queue := (mlq_ready_queue s)[p := q],
                 slot := (slot s)[p := slot s ! p - 1],
                 current_mlq_prio := p\<rparr>;
          s2 = (if slot s1 ! p = 0 \<or> mlq_empty s1 p
                then s1\<lparr>current_mlq_prio := (p + 1) mod MAX_PRIO\<rparr> else s1)
      in (proc, s2))"

text \<open>The loop over \<^verbatim>\<open>scanned\<close>; \<open>skip\<close> is the condition of its \<^verbatim>\<open>continue\<close>.\<close>

fun scan_mlq :: "(sched_state \<Rightarrow> nat \<Rightarrow> bool) \<Rightarrow> sched_state \<Rightarrow> nat list \<Rightarrow> pref option \<times> sched_state" where
  "scan_mlq skip s [] = (None, s)"
| "scan_mlq skip s (scanned # ks) =
     (let p = (current_mlq_prio s + scanned) mod MAX_PRIO
      in if skip s p then scan_mlq skip s ks else mlq_take s p)"

definition no_slot_or_empty :: "sched_state \<Rightarrow> nat \<Rightarrow> bool" where
  "no_slot_or_empty s p \<longleftrightarrow> slot s ! p \<le> 0 \<or> mlq_empty s p"

definition get_mlq_proc :: "sched_state \<Rightarrow> pref option \<times> sched_state" where
  "get_mlq_proc s =
     (if queue_empty s then (None, s)
      else (case scan_mlq no_slot_or_empty s [0..<MAX_PRIO] of
              (Some p, s1) \<Rightarrow> (Some p, s1)
            | (None, s1) \<Rightarrow> scan_mlq mlq_empty (reset_mlq_slot s1) [0..<MAX_PRIO]))"

text \<open>
  \<^verbatim>\<open>put_mlq_proc\<close> and \<^verbatim>\<open>add_mlq_proc\<close> write the normalised priority back into the PCB; a
  PCB that is no longer live is undefined behaviour.
\<close>

definition put_mlq_proc :: "sched_state \<times> pcb_store \<Rightarrow> pref option \<Rightarrow> (sched_state \<times> pcb_store) option" where
  "put_mlq_proc sp proc =
     (case proc of None \<Rightarrow> Some sp
      | Some r \<Rightarrow>
        (case sp of (s, pcbs) \<Rightarrow>
          do {
            pcb \<leftarrow> pcbs r;
            let p = normalize_prio (prio pcb);
            Some (s\<lparr>krnl_linked := True,
                    mlq_ready_queue := (mlq_ready_queue s)[p := enq r (mlq_ready_queue s ! p)]\<rparr>,
                  pcbs(r \<mapsto> pcb\<lparr>prio := of_nat p\<rparr>))
          }))"

definition add_mlq_proc :: "sched_state \<times> pcb_store \<Rightarrow> pref option \<Rightarrow> (sched_state \<times> pcb_store) option" where
  "add_mlq_proc sp proc =
     (case proc of None \<Rightarrow> Some sp
      | Some r \<Rightarrow>
        (case sp of (s, pcbs) \<Rightarrow>
          do {
            pcb \<leftarrow> pcbs r;
            let p = normalize_prio (prio pcb);
            Some (s\<lparr>krnl_linked := True,
                    mlq_ready_queue := (mlq_ready_queue s)[p := enq r (mlq_ready_queue s ! p)],
                    running_list := enq r (running_list s)\<rparr>,
                  pcbs(r \<mapsto> pcb\<lparr>prio := of_nat p\<rparr>))
          }))"

definition get_proc :: "sched_state \<Rightarrow> pref option \<times> sched_state" where
  "get_proc s = get_mlq_proc s"

definition put_proc :: "sched_state \<times> pcb_store \<Rightarrow> pref option \<Rightarrow> (sched_state \<times> pcb_store) option" where
  "put_proc sp proc = (if proc = None then Some sp else put_mlq_proc sp proc)"

definition add_proc :: "sched_state \<times> pcb_store \<Rightarrow> pref option \<Rightarrow> (sched_state \<times> pcb_store) option" where
  "add_proc sp proc = (if proc = None then Some sp else add_mlq_proc sp proc)"

definition remove_from_running_list :: "sched_state \<Rightarrow> pref option \<Rightarrow> sched_state" where
  "remove_from_running_list s proc =
     (case proc of None \<Rightarrow> s | Some r \<Rightarrow> s\<lparr>running_list := purge r (running_list s)\<rparr>)"

definition remove_proc :: "sched_state \<Rightarrow> pref option \<Rightarrow> sched_state" where
  "remove_proc s proc = remove_from_running_list s proc"

text \<open>The search loop of \<^verbatim>\<open>sched_find_proc_by_pid\<close> over the entries in use.\<close>

fun find_pid :: "pcb_store \<Rightarrow> u32 \<Rightarrow> pref option list \<Rightarrow> pref option option" where
  "find_pid pcbs n [] = Some None"
| "find_pid pcbs n (None # rs) = find_pid pcbs n rs"
| "find_pid pcbs n (Some r # rs) =
     do { pcb \<leftarrow> pcbs r; if pid pcb = n then Some (Some r) else find_pid pcbs n rs }"

definition sched_find_proc_by_pid :: "sched_state \<times> pcb_store \<Rightarrow> u32 \<Rightarrow> pref option option" where
  "sched_find_proc_by_pid sp n =
     (case sp of (s, pcbs) \<Rightarrow>
        if \<not> krnl_linked s then Some None
        else find_pid pcbs n (take (q_size (running_list s)) (q_proc (running_list s))))"

section \<open>Invariant\<close>

text \<open>The processes waiting at a priority level.\<close>

definition mlq_procs :: "sched_state \<Rightarrow> nat \<Rightarrow> pref list" where
  "mlq_procs s p = q_list (mlq_ready_queue s ! p)"

definition slots_ok :: "int list \<Rightarrow> bool" where
  "slots_ok xs \<longleftrightarrow> length xs = MAX_PRIO \<and>
     (\<forall>p < MAX_PRIO. 0 \<le> xs ! p \<and> xs ! p \<le> int MAX_PRIO - int p)"

definition wf_sched :: "sched_state \<Rightarrow> bool" where
  "wf_sched s \<longleftrightarrow>
     length (mlq_ready_queue s) = MAX_PRIO \<and> (\<forall>p < MAX_PRIO. wf_queue (mlq_ready_queue s ! p)) \<and>
     wf_queue (running_list s) \<and>
     wf_queue (ready_queue s) \<and> q_list (ready_queue s) = [] \<and>
     wf_queue (run_queue s) \<and> q_list (run_queue s) = [] \<and>
     slots_ok (slot s) \<and> current_mlq_prio s < MAX_PRIO"

lemma MAX_PRIO_pos [simp]: "0 < MAX_PRIO"
  by (simp add: MAX_PRIO_def)

lemma slots_ok_full: "slots_ok (map (\<lambda>p. int MAX_PRIO - int p) [0..<MAX_PRIO])"
  by (simp add: slots_ok_def)

lemma wf_reset [wf_intros]: "wf_sched s \<Longrightarrow> wf_sched (reset_mlq_slot s)"
  by (simp add: wf_sched_def reset_mlq_slot_def slots_ok_full)

lemma reset_simps [simp]:
  "mlq_ready_queue (reset_mlq_slot s) = mlq_ready_queue s"
  "current_mlq_prio (reset_mlq_slot s) = current_mlq_prio s"
  "running_list (reset_mlq_slot s) = running_list s"
  "mlq_procs (reset_mlq_slot s) p = mlq_procs s p"
  "mlq_empty (reset_mlq_slot s) p = mlq_empty s p"
  by (simp_all add: reset_mlq_slot_def mlq_procs_def mlq_empty_def)

lemma mlq_empty_iff: "wf_sched s \<Longrightarrow> p < MAX_PRIO \<Longrightarrow> mlq_empty s p \<longleftrightarrow> mlq_procs s p = []"
  by (simp add: mlq_empty_def mlq_procs_def q_empty_iff wf_sched_def)

lemma queue_empty_iff: "wf_sched s \<Longrightarrow> queue_empty s \<longleftrightarrow> (\<forall>p < MAX_PRIO. mlq_procs s p = [])"
  by (auto simp: queue_empty_def list_ex_iff mlq_empty_iff q_empty_iff) (auto simp: wf_sched_def q_empty_iff)

lemma wf_init_scheduler: "wf_sched (init_scheduler static_sched)"
  by (auto simp: wf_sched_def init_scheduler_def static_sched_def slots_ok_full
      wf_queue_def q_list_def static_queue_def)

lemma normalize_prio_less: "normalize_prio p < MAX_PRIO"
  by (simp add: normalize_prio_def)

text \<open>Enqueueing at a level keeps the invariant and touches neither the slots nor the cursor.\<close>

lemma wf_enqueue_level:
  "wf_sched s \<Longrightarrow> p < MAX_PRIO \<Longrightarrow>
   wf_sched (s\<lparr>mlq_ready_queue := (mlq_ready_queue s)[p := enq r (mlq_ready_queue s ! p)]\<rparr>)"
  by (auto simp: wf_sched_def nth_list_update enq_wf)

lemma procs_enqueue_level:
  assumes "wf_sched s" and "p < MAX_PRIO" and "q < MAX_PRIO"
  shows "mlq_procs (s\<lparr>mlq_ready_queue := (mlq_ready_queue s)[p := enq r (mlq_ready_queue s ! p)]\<rparr>) q =
    (if q = p then take MAX_QUEUE_SIZE (mlq_procs s p @ [r]) else mlq_procs s q)"
proof -
  have "q_list (enq r (mlq_ready_queue s ! p)) = take MAX_QUEUE_SIZE (mlq_procs s p @ [r])"
    using assms q_list_bound [of "mlq_ready_queue s ! p"]
    by (simp add: enq_list wf_sched_def mlq_procs_def)
  then show ?thesis
    using assms by (simp add: mlq_procs_def nth_list_update wf_sched_def)
qed

section \<open>Which process \<^verbatim>\<open>get_mlq_proc\<close> dispatches\<close>

definition cyc :: "sched_state \<Rightarrow> nat \<Rightarrow> nat" where
  "cyc s k = (current_mlq_prio s + k) mod MAX_PRIO"

lemma cyc_less [simp]: "cyc s k < MAX_PRIO"
  by (simp add: cyc_def)

lemma cyc_onto:
  assumes "current_mlq_prio s < MAX_PRIO" and "p < MAX_PRIO"
  obtains k where "k < MAX_PRIO" and "cyc s k = p"
proof
  let ?c = "current_mlq_prio s" and ?k = "(p + MAX_PRIO - current_mlq_prio s) mod MAX_PRIO"
  show "?k < MAX_PRIO" by simp
  have "(?c + ?k) mod MAX_PRIO = (?c + (p + MAX_PRIO - ?c)) mod MAX_PRIO"
    by (simp add: mod_simps)
  then show "cyc s ?k = p" using assms by (simp add: cyc_def)
qed

lemma scan_mlq_find:
  "scan_mlq skip s ks = (case find (\<lambda>k. \<not> skip s (cyc s k)) ks of
     None \<Rightarrow> (None, s) | Some k \<Rightarrow> mlq_take s (cyc s k))"
  by (induction ks) (auto simp: cyc_def Let_def)

text \<open>The first level, in the cyclic order from \<^verbatim>\<open>current_mlq_prio\<close>, that satisfies \<open>P\<close>.\<close>

definition first_level :: "sched_state \<Rightarrow> (nat \<Rightarrow> bool) \<Rightarrow> nat option" where
  "first_level s P = map_option (cyc s) (find (\<lambda>k. P (cyc s k)) [0..<MAX_PRIO])"

lemma scan_mlq_first:
  "scan_mlq skip s [0..<MAX_PRIO] = (case first_level s (\<lambda>p. \<not> skip s p) of
     None \<Rightarrow> (None, s) | Some p \<Rightarrow> mlq_take s p)"
  by (simp add: scan_mlq_find first_level_def split: option.splits)

lemma first_level_Some: "first_level s P = Some p \<Longrightarrow> p < MAX_PRIO \<and> P p"
  by (auto simp: first_level_def find_Some_iff)

lemma first_level_None:
  "wf_sched s \<Longrightarrow> first_level s P = None \<longleftrightarrow> (\<forall>p < MAX_PRIO. \<not> P p)"
proof -
  assume "wf_sched s"
  then have c: "current_mlq_prio s < MAX_PRIO" by (simp add: wf_sched_def)
  have "(\<forall>k < MAX_PRIO. \<not> P (cyc s k)) \<longleftrightarrow> (\<forall>p < MAX_PRIO. \<not> P p)"
    by (metis c cyc_less cyc_onto)
  then show ?thesis by (auto simp: first_level_def find_None_iff)
qed

definition eligible :: "sched_state \<Rightarrow> nat \<Rightarrow> bool" where
  "eligible s p \<longleftrightarrow> 0 < slot s ! p \<and> mlq_procs s p \<noteq> []"

text \<open>\<^verbatim>\<open>mlq_take\<close> on a level with budget and processes.\<close>

lemma mlq_take_spec:
  assumes wf: "wf_sched s" and p: "p < MAX_PRIO" and el: "eligible s p"
  shows "fst (mlq_take s p) = Some (hd (mlq_procs s p))"
    and "wf_sched (snd (mlq_take s p))"
    and "q < MAX_PRIO \<Longrightarrow> mlq_procs (snd (mlq_take s p)) q = (if q = p then tl (mlq_procs s p) else mlq_procs s q)"
    and "slot (snd (mlq_take s p)) = (slot s)[p := slot s ! p - 1]"
    and "running_list (snd (mlq_take s p)) = running_list s"
proof -
  have wq: "wf_queue (mlq_ready_queue s ! p)" and l: "length (mlq_ready_queue s) = MAX_PRIO"
    and ls: "length (slot s) = MAX_PRIO"
    using wf p by (auto simp: wf_sched_def slots_ok_def)
  note d = deq_nonempty [OF wq]
  have ne: "q_list (mlq_ready_queue s ! p) \<noteq> []" using el by (simp add: eligible_def mlq_procs_def)
  show "fst (mlq_take s p) = Some (hd (mlq_procs s p))"
    using d(1) [OF ne] by (simp add: mlq_take_def Let_def case_prod_unfold mlq_procs_def)
  show "slot (snd (mlq_take s p)) = (slot s)[p := slot s ! p - 1]"
    and "running_list (snd (mlq_take s p)) = running_list s"
    by (simp_all add: mlq_take_def Let_def case_prod_unfold)
  show "q < MAX_PRIO \<Longrightarrow> mlq_procs (snd (mlq_take s p)) q = (if q = p then tl (mlq_procs s p) else mlq_procs s q)"
    using d(2) [OF ne] l by (simp add: mlq_take_def Let_def case_prod_unfold mlq_procs_def nth_list_update)
  have "slots_ok ((slot s)[p := slot s ! p - 1])"
    using wf el p by (auto simp: wf_sched_def slots_ok_def nth_list_update eligible_def)
  then show "wf_sched (snd (mlq_take s p))"
    using wf p d(3) [OF ne] l
    by (auto simp: wf_sched_def mlq_take_def Let_def case_prod_unfold nth_list_update)
qed

text \<open>
  The three outcomes of \<^verbatim>\<open>get_mlq_proc\<close>: nothing to run; a level with budget left; a new
  round, when every waiting level has used its budget.
\<close>

lemma get_mlq_proc_cases:
  assumes wf: "wf_sched s"
  obtains (none) "\<forall>p < MAX_PRIO. mlq_procs s p = []" and "get_mlq_proc s = (None, s)"
  | (budget) p where "p < MAX_PRIO" and "eligible s p" and "first_level s (eligible s) = Some p"
      and "get_mlq_proc s = mlq_take s p"
  | (round) p where "p < MAX_PRIO" and "eligible (reset_mlq_slot s) p"
      and "\<forall>q < MAX_PRIO. mlq_procs s q \<noteq> [] \<longrightarrow> slot s ! q = 0"
      and "first_level s (\<lambda>p. mlq_procs s p \<noteq> []) = Some p"
      and "get_mlq_proc s = mlq_take (reset_mlq_slot s) p"
proof -
  have skip1: "first_level s (\<lambda>p. \<not> no_slot_or_empty s p) = first_level s (eligible s)"
    unfolding first_level_def
    by (rule arg_cong [where f = "map_option (cyc s)"], rule find_cong)
       (auto simp: no_slot_or_empty_def eligible_def mlq_empty_iff [OF wf])
  have skip2: "first_level (reset_mlq_slot s) (\<lambda>p. \<not> mlq_empty s p) =
      first_level s (\<lambda>p. mlq_procs s p \<noteq> [])"
    unfolding first_level_def cyc_def reset_simps
    by (rule arg_cong2 [where f = map_option, OF refl], rule find_cong)
       (auto simp: mlq_empty_iff [OF wf])
  show thesis
  proof (cases "\<forall>p < MAX_PRIO. mlq_procs s p = []")
    case True
    then show ?thesis using none by (simp add: get_mlq_proc_def queue_empty_iff [OF wf])
  next
    case ne: False
    then have q: "\<not> queue_empty s" by (simp add: queue_empty_iff [OF wf])
    show ?thesis
    proof (cases "first_level s (eligible s)")
      case (Some p)
      then have p: "p < MAX_PRIO" "eligible s p" using first_level_Some by blast+
      have "get_mlq_proc s = mlq_take s p"
        using q Some mlq_take_spec(1) [OF wf p]
        by (cases "mlq_take s p") (simp add: get_mlq_proc_def scan_mlq_first skip1)
      then show ?thesis using budget p Some by blast
    next
      case None
      then have no: "\<forall>p < MAX_PRIO. \<not> eligible s p" by (simp add: first_level_None [OF wf])
      from ne obtain p where f: "first_level s (\<lambda>p. mlq_procs s p \<noteq> []) = Some p"
        using first_level_None [OF wf] by fastforce
      then have p: "p < MAX_PRIO" "mlq_procs s p \<noteq> []" using first_level_Some by auto
      then have el: "eligible (reset_mlq_slot s) p"
        by (simp add: eligible_def) (simp add: reset_mlq_slot_def)
      have "get_mlq_proc s = mlq_take (reset_mlq_slot s) p"
        using q None f by (simp add: get_mlq_proc_def scan_mlq_first skip1 skip2)
      moreover have "\<forall>q < MAX_PRIO. mlq_procs s q \<noteq> [] \<longrightarrow> slot s ! q = 0"
        using no wf by (force simp: eligible_def wf_sched_def slots_ok_def)
      ultimately show ?thesis using round p(1) el f by blast
    qed
  qed
qed

section \<open>Correctness of dispatching\<close>

lemma wf_get_mlq_proc [wf_intros]:
  assumes wf: "wf_sched s"
  shows "wf_sched (snd (get_mlq_proc s))"
  using wf by (cases rule: get_mlq_proc_cases) (simp_all add: mlq_take_spec(2) wf_reset wf)

lemma get_mlq_proc_running: "wf_sched s \<Longrightarrow> running_list (snd (get_mlq_proc s)) = running_list s"
  by (cases rule: get_mlq_proc_cases) (auto simp: mlq_take_spec(5) wf_reset)

text \<open>What a call of \<^verbatim>\<open>get_mlq_proc\<close> does to the queues.\<close>

lemma get_mlq_proc_shape:
  assumes wf: "wf_sched s"
  shows "(\<forall>p < MAX_PRIO. mlq_procs s p = []) \<and> get_mlq_proc s = (None, s) \<or>
    (\<exists>p < MAX_PRIO. mlq_procs s p \<noteq> [] \<and> fst (get_mlq_proc s) = Some (hd (mlq_procs s p)) \<and>
       (\<forall>q < MAX_PRIO. mlq_procs (snd (get_mlq_proc s)) q =
          (if q = p then tl (mlq_procs s q) else mlq_procs s q)))"
  using wf
proof (cases rule: get_mlq_proc_cases)
  case (budget p)
  then show ?thesis
    using mlq_take_spec [OF wf budget(1,2)] by (auto simp: eligible_def intro!: exI [of _ p])
next
  case (round p)
  then show ?thesis
    using mlq_take_spec [OF wf_reset [OF wf] round(1,2)] by (auto simp: eligible_def intro!: exI [of _ p])
qed simp

text \<open>
  Property C6: \<^verbatim>\<open>get_proc\<close> is work-conserving. It returns no process exactly when no
  process waits at any level; otherwise it removes from one level the process at its head
  and returns that process, and every other level keeps its queue.
\<close>

theorem get_proc_work_conserving:
  assumes "wf_sched s"
  shows "wf_sched (snd (get_proc s)) \<and>
    (fst (get_proc s) = None \<longleftrightarrow> (\<forall>p < MAX_PRIO. mlq_procs s p = [])) \<and>
    (\<forall>r. fst (get_proc s) = Some r \<longrightarrow>
       (\<exists>p < MAX_PRIO. mlq_procs s p \<noteq> [] \<and> r = hd (mlq_procs s p) \<and>
          (\<forall>q < MAX_PRIO. mlq_procs (snd (get_proc s)) q =
             (if q = p then tl (mlq_procs s q) else mlq_procs s q))))"
  using get_mlq_proc_shape [OF assms] wf_get_mlq_proc [OF assms] unfolding get_proc_def by auto

text \<open>A concrete ready queue: process 5 waits at level 7.\<close>

definition demo_sched :: sched_state where
  "demo_sched = (let s = init_scheduler static_sched in
     s\<lparr>mlq_ready_queue := (mlq_ready_queue s)[7 := enq 5 (mlq_ready_queue s ! 7)]\<rparr>)"

lemma wf_demo: "wf_sched demo_sched"
  by (simp add: demo_sched_def Let_def wf_enqueue_level wf_init_scheduler MAX_PRIO_def)

lemma procs_init: "p < MAX_PRIO \<Longrightarrow> mlq_procs (init_scheduler static_sched) p = []"
  by (simp add: mlq_procs_def init_scheduler_def static_sched_def q_list_def)

lemma procs_demo: "p < MAX_PRIO \<Longrightarrow> mlq_procs demo_sched p = (if p = 7 then [5] else [])"
  by (simp add: demo_sched_def Let_def procs_enqueue_level wf_init_scheduler MAX_PRIO_def
      procs_init [unfolded MAX_PRIO_def] MAX_QUEUE_SIZE_def)

theorem get_proc_work_conserving_witness:
  "fst (get_proc demo_sched) \<noteq> None"
proof -
  have "\<not> (\<forall>p < MAX_PRIO. mlq_procs demo_sched p = [])"
    using procs_demo [of 7] by (auto simp: MAX_PRIO_def intro!: exI [of _ 7])
  then show ?thesis
    using get_proc_work_conserving [OF wf_demo] by blast
qed

section \<open>No starvation\<close>

text \<open>
  The budget left over all levels. A dispatch from a level with budget uses one unit; a new
  round restores the full budget of \<open>140 + 139 + ... + 1 = 9870\<close> units.
\<close>

definition total_slots :: "sched_state \<Rightarrow> nat" where
  "total_slots s = nat (\<Sum>p < MAX_PRIO. slot s ! p)"

definition FULL_BUDGET :: nat where
  "FULL_BUDGET = 9870"

lemma sum_full: "(\<Sum>p < MAX_PRIO. int MAX_PRIO - int p) = int FULL_BUDGET"
  unfolding MAX_PRIO_def FULL_BUDGET_def by code_simp

lemma slots_sum_bounds:
  assumes "slots_ok xs"
  shows "0 \<le> (\<Sum>p < MAX_PRIO. xs ! p)" and "(\<Sum>p < MAX_PRIO. xs ! p) \<le> int FULL_BUDGET"
proof -
  show "0 \<le> (\<Sum>p < MAX_PRIO. xs ! p)"
    using assms by (intro sum_nonneg) (auto simp: slots_ok_def)
  have "(\<Sum>p < MAX_PRIO. xs ! p) \<le> (\<Sum>p < MAX_PRIO. int MAX_PRIO - int p)"
    using assms by (intro sum_mono) (auto simp: slots_ok_def)
  then show "(\<Sum>p < MAX_PRIO. xs ! p) \<le> int FULL_BUDGET" by (simp add: sum_full)
qed

lemma slots_sum_update:
  assumes "length xs = MAX_PRIO" and "p < MAX_PRIO"
  shows "(\<Sum>i < MAX_PRIO. xs[p := xs ! p - 1] ! i) = (\<Sum>i < MAX_PRIO. xs ! i) - (1::int)"
proof -
  have "(\<Sum>i < MAX_PRIO. xs[p := xs ! p - 1] ! i) = (\<Sum>i < MAX_PRIO. xs ! i - (if i = p then 1 else 0))"
    using assms by (intro sum.cong) (auto simp: nth_list_update)
  then show ?thesis using assms by (simp add: sum_subtractf)
qed

lemma total_slots_bound: "wf_sched s \<Longrightarrow> total_slots s \<le> FULL_BUDGET"
  using slots_sum_bounds [of "slot s"] by (simp add: total_slots_def wf_sched_def nat_le_iff)

lemma total_slots_take:
  assumes wf: "wf_sched s" and p: "p < MAX_PRIO" and el: "eligible s p"
  shows "Suc (total_slots (snd (mlq_take s p))) = total_slots s"
proof -
  have wf': "wf_sched (snd (mlq_take s p))" by (rule mlq_take_spec(2) [OF assms])
  have "(\<Sum>i < MAX_PRIO. slot (snd (mlq_take s p)) ! i) = (\<Sum>i < MAX_PRIO. slot s ! i) - 1"
    using wf p by (simp add: mlq_take_spec(4) [OF assms] slots_sum_update wf_sched_def slots_ok_def)
  moreover have "0 \<le> (\<Sum>i < MAX_PRIO. slot (snd (mlq_take s p)) ! i)"
    using wf' slots_sum_bounds by (auto simp: wf_sched_def)
  ultimately show ?thesis by (simp add: total_slots_def)
qed

lemma total_slots_reset: "total_slots (reset_mlq_slot s) = FULL_BUDGET"
proof -
  have "(\<Sum>p < MAX_PRIO. slot (reset_mlq_slot s) ! p) = (\<Sum>p < MAX_PRIO. int MAX_PRIO - int p)"
    by (rule sum.cong) (auto simp: reset_mlq_slot_def)
  then show ?thesis by (simp add: total_slots_def sum_full)
qed

text \<open>
  \<open>wait_level s p\<close> bounds the dispatches from other levels before level \<open>p\<close> is served: the
  budget left, and a full round more if \<open>p\<close> itself has none left.
\<close>

definition wait_level :: "sched_state \<Rightarrow> nat \<Rightarrow> nat" where
  "wait_level s p = total_slots s + (if 0 < slot s ! p then 0 else FULL_BUDGET)"

lemma wait_level_bound: "wf_sched s \<Longrightarrow> wait_level s p \<le> 2 * FULL_BUDGET"
  using total_slots_bound [of s] by (simp add: wait_level_def)

lemma wait_level_decreases:
  assumes wf: "wf_sched s" and p: "p < MAX_PRIO" and ne: "mlq_procs s p \<noteq> []"
    and s': "s' = snd (get_mlq_proc s)" and keep: "mlq_procs s' p = mlq_procs s p"
  shows "wait_level s' p < wait_level s p"
  using wf
proof (cases rule: get_mlq_proc_cases)
  case none
  then show ?thesis using ne p by simp
next
  case (budget q)
  note t = mlq_take_spec [OF wf budget(1,2)]
  have "s' = snd (mlq_take s q)" using budget(4) s' by simp
  moreover from this have "q \<noteq> p"
    using keep t(3) [OF p] ne by (cases "mlq_procs s p") auto
  ultimately show ?thesis
    using total_slots_take [OF wf budget(1,2)] t(4) by (simp add: wait_level_def)
next
  case (round q)
  note wr = wf_reset [OF wf]
  note t = mlq_take_spec [OF wr round(1,2)]
  have s'': "s' = snd (mlq_take (reset_mlq_slot s) q)" using round(5) s' by simp
  then have "q \<noteq> p"
    using keep t(3) [OF p] ne by (cases "mlq_procs s p") auto
  then have "0 < slot s' ! p"
    using s'' t(4) p by (simp add: nth_list_update reset_mlq_slot_def)
  moreover have "Suc (total_slots s') = FULL_BUDGET"
    using total_slots_take [OF wr round(1,2)] s'' by (simp add: total_slots_reset)
  moreover have "slot s ! p = 0" using round(3) p ne by blast
  ultimately show ?thesis by (simp add: wait_level_def)
qed

text \<open>A sequence of scheduler calls by any CPUs and the loader, and the processes it dispatches.\<close>

datatype sched_op = OpGet | OpPut pref | OpAdd pref | OpRemove pref

fun sched_exec :: "sched_op list \<Rightarrow> sched_state \<times> pcb_store \<Rightarrow> (pref list \<times> sched_state \<times> pcb_store) option" where
  "sched_exec [] sp = Some ([], sp)"
| "sched_exec (OpGet # ops) (s, pcbs) =
     (let (r, s1) = get_proc s in
      do {
        (ds, sp) \<leftarrow> sched_exec ops (s1, pcbs);
        Some ((case r of None \<Rightarrow> ds | Some x \<Rightarrow> x # ds), sp)
      })"
| "sched_exec (OpPut r # ops) sp = do { sp1 \<leftarrow> put_proc sp (Some r); sched_exec ops sp1 }"
| "sched_exec (OpAdd r # ops) sp = do { sp1 \<leftarrow> add_proc sp (Some r); sched_exec ops sp1 }"
| "sched_exec (OpRemove r # ops) (s, pcbs) = sched_exec ops (remove_proc s (Some r), pcbs)"

lemma put_proc_shape:
  assumes wf: "wf_sched s" and e: "put_proc (s, pcbs) (Some r) = Some (s', pcbs') \<or> add_proc (s, pcbs) (Some r) = Some (s', pcbs')"
  shows "wf_sched s' \<and> slot s' = slot s \<and>
    (\<exists>pcb. pcbs r = Some pcb \<and>
      (\<forall>q < MAX_PRIO. mlq_procs s' q = (if q = normalize_prio (prio pcb)
         then take MAX_QUEUE_SIZE (mlq_procs s q @ [r]) else mlq_procs s q)))"
proof -
  from e obtain pcb where pcb: "pcbs r = Some pcb"
    by (auto simp: put_proc_def add_proc_def put_mlq_proc_def add_mlq_proc_def bind_Some_iff)
  let ?p = "normalize_prio (prio pcb)"
  let ?m = "(mlq_ready_queue s)[?p := enq r (mlq_ready_queue s ! ?p)]"
  have s': "mlq_ready_queue s' = ?m" "slot s' = slot s" "current_mlq_prio s' = current_mlq_prio s"
    "ready_queue s' = ready_queue s" "run_queue s' = run_queue s"
    "running_list s' = running_list s \<or> running_list s' = enq r (running_list s)"
    using e pcb by (auto simp: put_proc_def add_proc_def put_mlq_proc_def add_mlq_proc_def Let_def)
  have wf': "wf_sched (s\<lparr>mlq_ready_queue := ?m\<rparr>)"
    by (rule wf_enqueue_level [OF wf normalize_prio_less])
  then have "wf_sched s'"
    using wf s' by (auto simp: wf_sched_def enq_wf)
  moreover have "mlq_procs s' q = mlq_procs (s\<lparr>mlq_ready_queue := ?m\<rparr>) q" for q
    by (simp add: mlq_procs_def s')
  ultimately show ?thesis
    using pcb s'(2) procs_enqueue_level [OF wf normalize_prio_less] by auto
qed

text \<open>The processes ahead of \<open>x\<close> at its level, and the bound on the dispatches before \<open>x\<close>.\<close>

definition ahead :: "pref \<Rightarrow> pref list \<Rightarrow> nat" where
  "ahead x xs = length (takeWhile (\<lambda>y. y \<noteq> x) xs)"

definition wait_proc :: "sched_state \<Rightarrow> nat \<Rightarrow> pref \<Rightarrow> nat" where
  "wait_proc s p x = ahead x (mlq_procs s p) * (2 * FULL_BUDGET + 1) + wait_level s p"

lemma ahead_take: "x \<in> set xs \<Longrightarrow> length xs \<le> n \<Longrightarrow> x \<in> set (take n (xs @ ys)) \<and> ahead x (take n (xs @ ys)) = ahead x xs"
  by (auto simp: ahead_def takeWhile_append1)

lemma get_wait_decreases:
  assumes wf: "wf_sched s" and p: "p < MAX_PRIO" and x: "x \<in> set (mlq_procs s p)"
    and s': "s' = snd (get_mlq_proc s)" and no: "fst (get_mlq_proc s) \<noteq> Some x"
  shows "x \<in> set (mlq_procs s' p) \<and> wait_proc s' p x < wait_proc s p x"
proof (cases "mlq_procs s' p = mlq_procs s p")
  case True
  moreover have "mlq_procs s p \<noteq> []" using x by auto
  ultimately show ?thesis
    using wait_level_decreases [OF wf p _ s'] x by (simp add: wait_proc_def)
next
  case False
  with get_mlq_proc_shape [OF wf] p s'
  have h: "fst (get_mlq_proc s) = Some (hd (mlq_procs s p))" "mlq_procs s' p = tl (mlq_procs s p)"
    by (auto split: if_splits)
  obtain y ys where y: "mlq_procs s p = y # ys" using x by (cases "mlq_procs s p") auto
  with h no x have "y \<noteq> x" "x \<in> set ys" by auto
  then have "ahead x (mlq_procs s p) = Suc (ahead x (mlq_procs s' p))"
    using y h by (simp add: ahead_def)
  moreover have "wait_level s' p \<le> 2 * FULL_BUDGET"
    using wait_level_bound wf_get_mlq_proc [OF wf] s' by blast
  ultimately show ?thesis
    using y h \<open>x \<in> set ys\<close> by (simp add: wait_proc_def algebra_simps)
qed

lemma put_wait_same:
  assumes wf: "wf_sched s" and p: "p < MAX_PRIO" and x: "x \<in> set (mlq_procs s p)"
    and e: "put_proc (s, pcbs) (Some r) = Some (s', pcbs') \<or> add_proc (s, pcbs) (Some r) = Some (s', pcbs')"
  shows "wf_sched s' \<and> x \<in> set (mlq_procs s' p) \<and> wait_proc s' p x = wait_proc s p x"
proof -
  obtain q where sh: "wf_sched s'" "slot s' = slot s"
    "mlq_procs s' p = (if p = q then take MAX_QUEUE_SIZE (mlq_procs s p @ [r]) else mlq_procs s p)"
    using put_proc_shape [OF wf e] p by blast
  have "length (mlq_procs s p) \<le> MAX_QUEUE_SIZE"
    using wf p q_list_bound by (auto simp: mlq_procs_def wf_sched_def)
  with sh(2,3) x ahead_take [OF x this] show ?thesis
    by (auto simp: sh(1) wait_proc_def wait_level_def total_slots_def)
qed

lemma remove_wait_same:
  "wf_sched s \<Longrightarrow> wf_sched (remove_proc s r) \<and> mlq_procs (remove_proc s r) p = mlq_procs s p
     \<and> wait_proc (remove_proc s r) p x = wait_proc s p x"
  by (auto simp: remove_proc_def remove_from_running_list_def wf_sched_def mlq_procs_def
      wait_proc_def wait_level_def total_slots_def purge_wf split: option.splits)

lemma dispatched_within:
  assumes "wf_sched s" and "p < MAX_PRIO" and "x \<in> set (mlq_procs s p)"
    and "sched_exec ops (s, pcbs) = Some (ds, sp)" and "wait_proc s p x < count_list ops OpGet"
  shows "x \<in> set ds"
  using assms
proof (induction ops "(s, pcbs)" arbitrary: s pcbs ds rule: sched_exec.induct)
  case (2 ops s pcbs)
  let ?s1 = "snd (get_mlq_proc s)"
  from 2(5) obtain ds1 where e: "sched_exec ops (?s1, pcbs) = Some (ds1, sp)"
    and ds: "ds = (case fst (get_mlq_proc s) of None \<Rightarrow> ds1 | Some y \<Rightarrow> y # ds1)"
    by (cases "fst (get_mlq_proc s)") (auto simp: get_proc_def case_prod_unfold Let_def bind_Some_iff)
  show ?case
  proof (cases "fst (get_mlq_proc s) = Some x")
    case True
    then show ?thesis using ds by simp
  next
    case False
    note d = get_wait_decreases [OF 2(2,3,4) refl False]
    have "wait_proc ?s1 p x < count_list ops OpGet" using d 2(6) by simp
    then have "x \<in> set ds1"
      using 2(1) [OF refl prod.collapse] wf_get_mlq_proc [OF 2(2)] 2(3) d e by (simp add: get_proc_def)
    then show ?thesis using ds by (auto split: option.splits)
  qed
next
  case (3 r ops)
  then obtain s1 pcbs1 where e: "put_proc (s, pcbs) (Some r) = Some (s1, pcbs1)"
    and r: "sched_exec ops (s1, pcbs1) = Some (ds, sp)" by (auto simp: bind_Some_iff)
  show ?case
    using 3(1) [OF e] put_wait_same [OF 3(2,3,4), of pcbs r s1 pcbs1] e r 3(3,6) by simp
next
  case (4 r ops)
  then obtain s1 pcbs1 where e: "add_proc (s, pcbs) (Some r) = Some (s1, pcbs1)"
    and r: "sched_exec ops (s1, pcbs1) = Some (ds, sp)" by (auto simp: bind_Some_iff)
  show ?case
    using 4(1) [OF e] put_wait_same [OF 4(2,3,4), of pcbs r s1 pcbs1] e r 4(3,6) by simp
next
  case (5 r ops s pcbs)
  then show ?case using remove_wait_same [OF 5(2), of "Some r" p x] by simp
qed simp

text \<open>
  Property C7: no process starves. Whatever the CPUs and the loader do in between, a
  process that waits at some level with \<open>k\<close> processes ahead of it at that level is
  dispatched within \<open>(k + 1) * 19741\<close> calls of \<^verbatim>\<open>get_proc\<close>: twice the full budget of a
  round, and one, for each process ahead and for itself.
\<close>

theorem no_starvation:
  assumes "wf_sched s" and "p < MAX_PRIO" and "x \<in> set (mlq_procs s p)"
    and "sched_exec ops (s, pcbs) = Some (ds, sp)"
    and "(ahead x (mlq_procs s p) + 1) * 19741 \<le> count_list ops OpGet"
  shows "x \<in> set ds"
proof -
  have "wait_proc s p x < (ahead x (mlq_procs s p) + 1) * 19741"
    using wait_level_bound [OF assms(1), of p] by (simp add: wait_proc_def FULL_BUDGET_def)
  then show ?thesis
    using dispatched_within [OF assms(1-4)] assms(5) by simp
qed

lemma sched_exec_gets: "\<exists>ds s'. sched_exec (replicate n OpGet) (s, pcbs) = Some (ds, s', pcbs)"
  by (induction n arbitrary: s) (fastforce simp: case_prod_unfold Let_def bind_Some_iff)+

theorem no_starvation_witness:
  "\<exists>ds s'. sched_exec (replicate 19741 OpGet) (demo_sched, Map.empty) = Some (ds, s', Map.empty) \<and> 5 \<in> set ds"
proof -
  obtain ds s' where e: "sched_exec (replicate 19741 OpGet) (demo_sched, Map.empty) = Some (ds, s', Map.empty)"
    using sched_exec_gets by blast
  have p: "mlq_procs demo_sched 7 = [5]" by (simp add: procs_demo MAX_PRIO_def)
  have "count_list (replicate 19741 OpGet) OpGet = 19741"
    by (simp add: count_list_eq_length_filter)
  then have "5 \<in> set ds"
    using no_starvation [OF wf_demo _ _ e, of 7 5] p by (simp add: MAX_PRIO_def ahead_def)
  then show ?thesis using e by blast
qed

section \<open>The dispatching policy\<close>

lemma first_level_current:
  assumes "wf_sched s" and "P (current_mlq_prio s)"
  shows "first_level s P = Some (current_mlq_prio s)"
proof -
  have "[0..<MAX_PRIO] = 0 # [Suc 0..<MAX_PRIO]" by (simp add: upt_conv_Cons)
  moreover have "cyc s 0 = current_mlq_prio s" using assms(1) by (simp add: cyc_def wf_sched_def)
  ultimately show ?thesis using assms(2) by (simp add: first_level_def)
qed

text \<open>
  Property C28: the dispatching policy. If some level has waiting processes and budget,
  \<^verbatim>\<open>get_proc\<close> serves the first such level in the cyclic order that starts at
  \<^verbatim>\<open>current_mlq_prio\<close> and charges it one unit; if processes wait but none of their levels
  has budget left, all budgets are reset to \<^verbatim>\<open>MAX_PRIO - prio\<close> first and the first waiting
  level is served. The budget of a level never leaves \<open>0 .. MAX_PRIO - prio\<close>.
\<close>

theorem get_proc_policy:
  assumes "wf_sched s" and "\<exists>p < MAX_PRIO. mlq_procs s p \<noteq> []"
  shows "\<exists>p. (if \<exists>q < MAX_PRIO. eligible s q
      then first_level s (eligible s) = Some p \<and> slot (snd (get_proc s)) = (slot s)[p := slot s ! p - 1]
      else first_level s (\<lambda>q. mlq_procs s q \<noteq> []) = Some p \<and>
        slot (snd (get_proc s)) =
          (map (\<lambda>q. int MAX_PRIO - int q) [0..<MAX_PRIO])[p := int MAX_PRIO - int p - 1])
    \<and> fst (get_proc s) = Some (hd (mlq_procs s p)) \<and> slots_ok (slot (snd (get_proc s)))"
  using assms(1)
proof (cases rule: get_mlq_proc_cases)
  case none
  with assms(2) show ?thesis by auto
next
  case (budget p)
  note t = mlq_take_spec [OF assms(1) budget(1,2)]
  show ?thesis using budget t by (intro exI [of _ p]) (auto simp: get_proc_def wf_sched_def)
next
  case (round p)
  note t = mlq_take_spec [OF wf_reset [OF assms(1)] round(1,2)]
  have "slot (snd (get_proc s)) = (map (\<lambda>q. int MAX_PRIO - int q) [0..<MAX_PRIO])[p := int MAX_PRIO - int p - 1]"
    using t(4) round(1,5) by (simp add: get_proc_def) (simp add: reset_mlq_slot_def)
  moreover have "\<not> (\<exists>q < MAX_PRIO. eligible s q)"
    using round(3) by (auto simp: eligible_def)
  ultimately show ?thesis
    using round t by (intro exI [of _ p]) (auto simp: get_proc_def wf_sched_def)
qed

lemma demo_waits: "\<exists>p < MAX_PRIO. mlq_procs demo_sched p \<noteq> []"
  by (rule exI [of _ 7]) (simp add: procs_demo MAX_PRIO_def)

theorem get_proc_policy_witness:
  "slots_ok (slot (snd (get_proc demo_sched)))"
  using get_proc_policy [OF wf_demo demo_waits] by blast

text \<open>Two levels wait with budget left, and the cursor stands on the less urgent one.\<close>

definition demo_sched2 :: sched_state where
  "demo_sched2 = demo_sched
     \<lparr>mlq_ready_queue := (mlq_ready_queue demo_sched)[0 := enq 6 (mlq_ready_queue demo_sched ! 0)],
      current_mlq_prio := 7\<rparr>"

lemma demo2: "wf_sched demo_sched2"
  "p < MAX_PRIO \<Longrightarrow> mlq_procs demo_sched2 p = (if p = 0 then [6] else if p = 7 then [5] else [])"
  "slot demo_sched2 = map (\<lambda>p. int MAX_PRIO - int p) [0..<MAX_PRIO]"
  "current_mlq_prio demo_sched2 = 7"
proof -
  let ?s = "demo_sched\<lparr>mlq_ready_queue := (mlq_ready_queue demo_sched)[0 := enq 6 (mlq_ready_queue demo_sched ! 0)]\<rparr>"
  have "wf_sched ?s" by (rule wf_enqueue_level [OF wf_demo]) simp
  then show "wf_sched demo_sched2" by (simp add: demo_sched2_def wf_sched_def MAX_PRIO_def)
  have "mlq_procs demo_sched2 p = mlq_procs ?s p" for p by (simp add: demo_sched2_def mlq_procs_def)
  then show "p < MAX_PRIO \<Longrightarrow> mlq_procs demo_sched2 p = (if p = 0 then [6] else if p = 7 then [5] else [])"
    using procs_enqueue_level [OF wf_demo, of 0 p 6] by (simp add: procs_demo MAX_QUEUE_SIZE_def)
  show "slot demo_sched2 = map (\<lambda>p. int MAX_PRIO - int p) [0..<MAX_PRIO]" "current_mlq_prio demo_sched2 = 7"
    by (simp_all add: demo_sched2_def demo_sched_def Let_def init_scheduler_def)
qed

text \<open>
  The scheduler stays on the level it serves. As long as the level at
  \<^verbatim>\<open>current_mlq_prio\<close> has processes and budget, \<^verbatim>\<open>get_proc\<close> dispatches from it, whatever
  waits at more urgent levels. The README describes another policy, the lowest priority
  number with budget left; the witness has a process waiting at level 0 with budget and
  still dispatches the one of level 7.
\<close>

lemma get_proc_stays_on_level:
  assumes "wf_sched s" and "eligible s (current_mlq_prio s)"
  shows "fst (get_proc s) = Some (hd (mlq_procs s (current_mlq_prio s)))"
  using assms(1)
proof (cases rule: get_mlq_proc_cases)
  case none
  with assms show ?thesis by (simp add: eligible_def wf_sched_def)
next
  case (budget p)
  then have "p = current_mlq_prio s" using first_level_current [OF assms(1), of "eligible s"] assms(2) by simp
  then show ?thesis using budget mlq_take_spec(1) [OF assms(1) budget(1,2)] by (simp add: get_proc_def)
next
  case (round p)
  with assms show ?thesis by (auto simp: eligible_def wf_sched_def)
qed

section \<open>Putting back, adding, removing, finding\<close>

text \<open>
  \<^verbatim>\<open>put_proc\<close> and \<^verbatim>\<open>add_proc\<close> on a live process. The PCB's priority is clamped
  to \<^verbatim>\<open>MAX_PRIO - 1\<close> and written back; the process is appended at that level; the running
  list grows only in \<^verbatim>\<open>add_proc\<close>. Where a queue already holds 50 processes the new one is
  dropped from it without an error.
\<close>

lemma put_add_proc_effect:
  assumes "wf_sched s" and "pcbs r = Some pcb"
  shows "\<exists>s1 s2. let p = normalize_prio (prio pcb); pcbs' = pcbs(r \<mapsto> pcb\<lparr>prio := of_nat p\<rparr>) in
    p = min (unat (prio pcb)) 139 \<and>
    put_proc (s, pcbs) (Some r) = Some (s1, pcbs') \<and> wf_sched s1 \<and> running_list s1 = running_list s \<and>
    add_proc (s, pcbs) (Some r) = Some (s2, pcbs') \<and> wf_sched s2 \<and>
    q_list (running_list s2) = take MAX_QUEUE_SIZE (q_list (running_list s) @ [r]) \<and>
    (\<forall>q < MAX_PRIO. mlq_procs s1 q = mlq_procs s2 q \<and>
       mlq_procs s1 q = (if q = p then take MAX_QUEUE_SIZE (mlq_procs s q @ [r]) else mlq_procs s q))"
proof -
  let ?p = "normalize_prio (prio pcb)" and ?pcbs = "pcbs(r \<mapsto> pcb\<lparr>prio := of_nat (normalize_prio (prio pcb))\<rparr>)"
  let ?m = "(mlq_ready_queue s)[?p := enq r (mlq_ready_queue s ! ?p)]"
  let ?s1 = "s\<lparr>krnl_linked := True, mlq_ready_queue := ?m\<rparr>"
  let ?s2 = "s\<lparr>krnl_linked := True, mlq_ready_queue := ?m, running_list := enq r (running_list s)\<rparr>"
  have p: "put_proc (s, pcbs) (Some r) = Some (?s1, ?pcbs)" and a: "add_proc (s, pcbs) (Some r) = Some (?s2, ?pcbs)"
    using assms by (simp_all add: put_proc_def add_proc_def put_mlq_proc_def add_mlq_proc_def Let_def)
  have sh1: "wf_sched ?s1" "\<forall>q < MAX_PRIO. mlq_procs ?s1 q = (if q = ?p then take MAX_QUEUE_SIZE (mlq_procs s q @ [r]) else mlq_procs s q)"
    using put_proc_shape [OF assms(1) disjI1 [OF p]] assms(2) by auto
  have sh2: "wf_sched ?s2" "\<forall>q < MAX_PRIO. mlq_procs ?s2 q = (if q = ?p then take MAX_QUEUE_SIZE (mlq_procs s q @ [r]) else mlq_procs s q)"
    using put_proc_shape [OF assms(1) disjI2 [OF a]] assms(2) by auto
  have rl: "q_list (enq r (running_list s)) = take MAX_QUEUE_SIZE (q_list (running_list s) @ [r])"
    using assms(1) q_list_bound [of "running_list s"] by (simp add: enq_list wf_sched_def)
  show ?thesis
    using p a sh1 sh2 rl
    by (intro exI [of _ ?s1] exI [of _ ?s2]) (simp add: Let_def normalize_prio_def MAX_PRIO_def min_def)
qed

definition demo_pcb :: pcb_t where
  "demo_pcb = \<lparr>pid = 9, priority = 1, path = ''input/proc/p0s'', code = \<lparr>seg_text = [], seg_size = 0\<rparr>,
     regs = replicate 10 0, pc = 0, prio = 500, pcb_mm = None, bp = 1024\<rparr>"

lemma find_pid_find:
  "(\<forall>r \<in> set rs. pcbs r \<noteq> None) \<Longrightarrow>
   find_pid pcbs n (map Some rs) = Some (find (\<lambda>r. pid (the (pcbs r)) = n) rs)"
  by (induction rs) auto

lemma find_proc_by_pid_find:
  assumes "wf_sched s" and "krnl_linked s" and "\<forall>r \<in> set (q_list (running_list s)). pcbs r \<noteq> None"
  shows "sched_find_proc_by_pid (s, pcbs) n =
    Some (find (\<lambda>r. pid (the (pcbs r)) = n) (q_list (running_list s)))"
  using assms
  by (simp add: sched_find_proc_by_pid_def take_size_map_Some wf_sched_def find_pid_find)

text \<open>
  Looking a process up by PID. Between its \<^verbatim>\<open>add_proc\<close> and its
  \<^verbatim>\<open>remove_proc\<close> a process with a PID of its own is found, if the running list had room
  for it and lists only live processes; after \<^verbatim>\<open>remove_proc\<close> it is not.
\<close>

lemma find_proc_lifecycle:
  assumes "wf_sched s" and "pcbs r = Some pcb" and "\<forall>q \<in> set (q_list (running_list s)). pcbs q \<noteq> None"
    and "length (q_list (running_list s)) < MAX_QUEUE_SIZE"
    and "\<forall>q \<in> set (q_list (running_list s)). pid (the (pcbs q)) \<noteq> pid pcb"
  shows "\<exists>s' pcbs'. add_proc (s, pcbs) (Some r) = Some (s', pcbs')
     \<and> sched_find_proc_by_pid (s', pcbs') (pid pcb) = Some (Some r)
     \<and> sched_find_proc_by_pid (remove_proc s' (Some r), pcbs') (pid pcb) = Some None"
proof -
  let ?p = "normalize_prio (prio pcb)" and ?pcbs = "pcbs(r \<mapsto> pcb\<lparr>prio := of_nat (normalize_prio (prio pcb))\<rparr>)"
  let ?s = "s\<lparr>krnl_linked := True, mlq_ready_queue := (mlq_ready_queue s)[?p := enq r (mlq_ready_queue s ! ?p)],
              running_list := enq r (running_list s)\<rparr>"
  let ?rl = "q_list (running_list s)"
  have a: "add_proc (s, pcbs) (Some r) = Some (?s, ?pcbs)"
    using assms(2) by (simp add: add_proc_def add_mlq_proc_def Let_def)
  have wf: "wf_sched ?s" using put_proc_shape [OF assms(1) disjI2 [OF a]] by simp
  have wfr: "wf_sched (remove_proc ?s (Some r))" using remove_wait_same [OF wf] by blast
  have rl: "q_list (running_list ?s) = ?rl @ [r]"
    using assms(1,4) by (simp add: enq_list wf_sched_def)
  have r: "r \<notin> set ?rl" using assms(2,5) by auto
  have rm: "q_list (running_list (remove_proc ?s (Some r))) = ?rl" "krnl_linked (remove_proc ?s (Some r))"
    using wf rl r by (simp_all add: remove_proc_def remove_from_running_list_def purge_list(1) wf_sched_def remove1_append)
  have none: "find (\<lambda>q. pid (the (?pcbs q)) = pid pcb) ?rl = None"
    using assms(5) r by (auto simp: find_None_iff)
  then have "find (\<lambda>q. pid (the (?pcbs q)) = pid pcb) (?rl @ [r]) = Some r"
    by (auto simp: find_append)
  moreover have "\<forall>q \<in> set (?rl @ [r]). ?pcbs q \<noteq> None" using assms(3) by simp
  ultimately show ?thesis
    using a none rl rm find_proc_by_pid_find [OF wf, of ?pcbs "pid pcb"]
      find_proc_by_pid_find [OF wfr, of ?pcbs "pid pcb"]
    by (intro exI [of _ ?s] exI [of _ ?pcbs]) simp
qed

end
