(* ===== verification/PageTable.thy ===== *)
theory PageTable
  imports Common
begin

text \<open>
  The five-level page table of src/mm64.c: the split of a page number into directory
  indices, the walk that creates missing directories on demand, the page table entries, the
  teardown of the tree. The lemmas show that the tree implements a map from page numbers to
  entries, \<open>pte_at\<close>, with \<^verbatim>\<open>0\<close> for a page without an entry; the locale \<open>page_table\<close> is the
  contract the rest of the memory manager relies on.
\<close>

section \<open>Directory indices\<close>

definition get_pd_from_address :: "addr_t \<Rightarrow> addr_t \<times> addr_t \<times> addr_t \<times> addr_t \<times> addr_t" where
  "get_pd_from_address addr =
     (drop_bit 48 (addr AND PAGING64_ADDR_PGD_MASK),
      drop_bit 39 (addr AND PAGING64_ADDR_P4D_MASK),
      drop_bit 30 (addr AND PAGING64_ADDR_PUD_MASK),
      drop_bit 21 (addr AND PAGING64_ADDR_PMD_MASK),
      drop_bit 12 (addr AND PAGING64_ADDR_PT_MASK))"

definition get_pd_from_pagenum :: "addr_t \<Rightarrow> addr_t \<times> addr_t \<times> addr_t \<times> addr_t \<times> addr_t" where
  "get_pd_from_pagenum pgn = get_pd_from_address (push_bit 12 pgn)"

text \<open>The five indices as the list the walk consumes.\<close>

definition pd_path :: "addr_t \<Rightarrow> addr_t list" where
  "pd_path pgn = (case get_pd_from_pagenum pgn of (pgd_i, p4d_i, pud_i, pmd_i, pt_i) \<Rightarrow>
     [pgd_i, p4d_i, pud_i, pmd_i, pt_i])"

section \<open>Directories\<close>

text \<open>
  A fresh directory page, zeroed by \<^verbatim>\<open>calloc\<close>, and the words of a page. The level of a page
  is the number of indirections it stands for, as in \<^verbatim>\<open>mm64_free_dir\<close>: 5 for the root, 1
  for a page of entries.
\<close>

definition zero_dir :: "nat \<Rightarrow> dir" where
  "zero_dir lvl = (if lvl = 1 then Tbl (\<lambda>_. 0) else Dir (\<lambda>_. None))"

fun dir_load :: "dir \<Rightarrow> addr_t \<Rightarrow> dir option" where
  "dir_load (Dir d) idx = d idx"
| "dir_load (Tbl t) idx = None"

fun dir_set :: "dir \<Rightarrow> addr_t \<Rightarrow> dir \<Rightarrow> dir" where
  "dir_set (Dir d) idx c = Dir (d(idx \<mapsto> c))"
| "dir_set (Tbl t) idx c = Tbl t"

text \<open>
  \<^verbatim>\<open>dir_load_or_alloc\<close>: the child, the parent page and the \<^verbatim>\<open>mm_struct\<close> with its counters.
  \<open>lvl\<close> is the level of the child.
\<close>

definition dir_load_or_alloc :: "nat \<Rightarrow> dir \<Rightarrow> addr_t \<Rightarrow> mm_struct \<Rightarrow> dir option \<times> dir \<times> mm_struct" where
  "dir_load_or_alloc lvl parent idx mm =
     (case dir_load parent idx of
        Some child \<Rightarrow> (Some child, parent, mm)
      | None \<Rightarrow>
          let mm1 = mm\<lparr>calloc_n := calloc_n mm + 1\<rparr>
          in if \<not> calloc_ok mm (calloc_n mm) then (None, parent, mm1)
             else (Some (zero_dir lvl), dir_set parent idx (zero_dir lvl),
                   mm1\<lparr>mm64_dir_alloc_count := mm64_dir_alloc_count mm + 1,
                       mm64_bytes_alloc := mm64_bytes_alloc mm + PAGING64_DIR_ENTRIES * 8\<rparr>))"

definition count_access :: "mm_struct \<Rightarrow> mm_struct" where
  "count_access mm = mm\<lparr>mm64_mem_access_count := mm64_mem_access_count mm + 1\<rparr>"

text \<open>
  The body of \<^verbatim>\<open>pte_walk\<close> repeats the same three steps for each level: count the access,
  load or create the child, give up if there is none. Here they are one recursion over the
  remaining indices. The result is the entry found, if the walk reached one, the directory
  with the pages created below it, and the counters.
\<close>

fun dir_walk :: "bool \<Rightarrow> addr_t list \<Rightarrow> dir \<Rightarrow> mm_struct \<Rightarrow> addr_t option \<times> dir \<times> mm_struct" where
  "dir_walk alloc [i] (Tbl t) mm = (Some (t i), Tbl t, count_access mm)"
| "dir_walk alloc (i # j # is) d mm =
     (let mm1 = count_access mm;
          (child, d1, mm2) = (if alloc then dir_load_or_alloc (length (j # is)) d i mm1
                              else (dir_load d i, d, mm1))
      in case child of
           None \<Rightarrow> (None, d1, mm2)
         | Some c \<Rightarrow>
             let (v, c1, mm3) = dir_walk alloc (j # is) c mm2 in (v, dir_set d1 i c1, mm3))"
| "dir_walk alloc _ d mm = (None, d, mm)"

definition pte_walk :: "mm_struct \<Rightarrow> addr_t \<Rightarrow> bool \<Rightarrow> addr_t option \<times> mm_struct" where
  "pte_walk mm pgn alloc =
     (case pgd mm of
        None \<Rightarrow> (None, mm)
      | Some root \<Rightarrow>
          if PAGING_MAX_PGN \<le> pgn then (None, mm)
          else let (v, root1, mm1) =
                     dir_walk alloc (pd_path pgn) root (mm\<lparr>mm64_walk_count := mm64_walk_count mm + 1\<rparr>)
               in (v, mm1\<lparr>pgd := Some root1\<rparr>))"

text \<open>Writing through the pointer \<^verbatim>\<open>pte_walk\<close> returned.\<close>

fun dir_store :: "addr_t list \<Rightarrow> addr_t \<Rightarrow> dir \<Rightarrow> dir" where
  "dir_store [i] v (Tbl t) = Tbl (t(i := v))"
| "dir_store (i # j # is) v (Dir d) =
     (case d i of None \<Rightarrow> Dir d | Some c \<Rightarrow> Dir (d(i \<mapsto> dir_store (j # is) v c)))"
| "dir_store _ v d = d"

definition pte_store :: "mm_struct \<Rightarrow> addr_t \<Rightarrow> addr_t \<Rightarrow> mm_struct" where
  "pte_store mm pgn v = mm\<lparr>pgd := map_option (dir_store (pd_path pgn) v) (pgd mm)\<rparr>"

section \<open>Page table entries\<close>

definition swap_pte :: "addr_t \<Rightarrow> int \<Rightarrow> addr_t \<Rightarrow> addr_t" where
  "swap_pte pte swptyp swpoff =
     (let p1 = CLRBIT pte PAGING_PTE_PRESENT_MASK;
          p2 = CLRBIT p1 PAGING_PTE_FPN_MASK;
          p3 = SETBIT p2 PAGING_PTE_SWAPPED_MASK;
          p4 = SETVAL p3 (u64_of_int swptyp) PAGING_PTE_SWPTYP_MASK 0
      in SETVAL p4 swpoff PAGING_PTE_SWPOFF_MASK 5)"

definition pte_set_swap :: "mm_struct \<Rightarrow> addr_t \<Rightarrow> int \<Rightarrow> addr_t \<Rightarrow> int \<times> mm_struct" where
  "pte_set_swap mm pgn swptyp swpoff =
     (case pte_walk mm pgn True of
        (None, mm1) \<Rightarrow> (-1, mm1)
      | (Some pte, mm1) \<Rightarrow> (0, pte_store mm1 pgn (swap_pte pte swptyp swpoff)))"

definition fpn_pte :: "addr_t \<Rightarrow> addr_t \<Rightarrow> addr_t" where
  "fpn_pte pte fpn =
     (let p1 = SETBIT pte PAGING_PTE_PRESENT_MASK;
          p2 = CLRBIT p1 PAGING_PTE_SWAPPED_MASK
      in SETVAL p2 fpn PAGING_PTE_FPN_MASK 0)"

definition pte_set_fpn :: "mm_struct \<Rightarrow> addr_t \<Rightarrow> addr_t \<Rightarrow> int \<times> mm_struct" where
  "pte_set_fpn mm pgn fpn =
     (case pte_walk mm pgn True of
        (None, mm1) \<Rightarrow> (-1, mm1)
      | (Some pte, mm1) \<Rightarrow> (0, pte_store mm1 pgn (fpn_pte pte fpn)))"

definition pte_get_entry :: "mm_struct \<Rightarrow> addr_t \<Rightarrow> u32 \<times> mm_struct" where
  "pte_get_entry mm pgn =
     (case pte_walk mm pgn False of
        (None, mm1) \<Rightarrow> (0, mm1)
      | (Some pte, mm1) \<Rightarrow> (ucast pte, mm1))"

definition pte_set_entry :: "mm_struct \<Rightarrow> addr_t \<Rightarrow> u32 \<Rightarrow> int \<times> mm_struct" where
  "pte_set_entry mm pgn pte_val =
     (case pte_walk mm pgn True of
        (None, mm1) \<Rightarrow> (-1, mm1)
      | (Some pte, mm1) \<Rightarrow> (0, pte_store mm1 pgn (ucast pte_val)))"

section \<open>Teardown\<close>

text \<open>The number of pages \<^verbatim>\<open>mm64_free_dir\<close> frees below and including a page.\<close>

fun mm64_free_dir :: "nat \<Rightarrow> dir \<Rightarrow> nat" where
  "mm64_free_dir 0 d = 1"
| "mm64_free_dir (Suc lvl) d =
     (if lvl \<ge> 1
      then sum_list (map (\<lambda>i. case dir_load d (of_nat i) of None \<Rightarrow> 0 | Some c \<Rightarrow> mm64_free_dir lvl c)
             [0..<unat PAGING64_DIR_ENTRIES])
      else 0) + 1"

definition mm64_destroy_pgd_tree :: "mm_struct \<Rightarrow> nat \<times> mm_struct" where
  "mm64_destroy_pgd_tree mm =
     (case pgd mm of None \<Rightarrow> (0, mm) | Some root \<Rightarrow> (mm64_free_dir 5 root, mm\<lparr>pgd := None\<rparr>))"

section \<open>The index split is injective\<close>

lemma drop_mask64: "h < 64 \<Longrightarrow> l \<le> h \<Longrightarrow> drop_bit l (a AND GENMASK64 h l) = take_bit (h - l + 1) (drop_bit l a)"
  by (rule bit_eqI) (auto simp: bit_GENMASK64 bit_simps)

lemma get_pd_fields:
  "get_pd_from_address a =
     (take_bit 9 (drop_bit 48 a), take_bit 9 (drop_bit 39 a), take_bit 9 (drop_bit 30 a),
      take_bit 9 (drop_bit 21 a), take_bit 9 (drop_bit 12 a))"
  by (simp add: get_pd_from_address_def PAGING64_ADDR_PGD_MASK_def PAGING64_ADDR_P4D_MASK_def
      PAGING64_ADDR_PUD_MASK_def PAGING64_ADDR_PMD_MASK_def PAGING64_ADDR_PT_MASK_def drop_mask64
      del: drop_bit_and)

definition pd_join :: "addr_t \<times> addr_t \<times> addr_t \<times> addr_t \<times> addr_t \<Rightarrow> addr_t" where
  "pd_join = (\<lambda>(g, p4, u, m, t).
     push_bit 48 g OR push_bit 39 p4 OR push_bit 30 u OR push_bit 21 m OR push_bit 12 t)"

lemma bit_field:
  "bit (push_bit k (take_bit 9 (drop_bit k a))) n \<longleftrightarrow> k \<le> n \<and> n < k + 9 \<and> bit a n" for a :: addr_t
  by (cases "k \<le> n")
     (auto simp: bit_push_bit_iff bit_take_bit_iff bit_drop_bit_eq less_diff_conv2 dest: bit_imp_le_length
       simp del: push_bit_take_bit take_bit_drop_bit)

lemma pd_join_split: "pd_join (get_pd_from_address a) = a AND GENMASK64 56 12"
  unfolding pd_join_def get_pd_fields prod.case
  by (rule bit_eqI) (simp add: bit_GENMASK64 bit_field bit_and_iff bit_or_iff
      del: push_bit_take_bit take_bit_drop_bit, linarith)

lemma index_less: "take_bit 9 w < PAGING64_DIR_ENTRIES" for w :: addr_t
proof -
  have "unat (take_bit 9 w) < 2 ^ 9" by (simp only: unat_take_bit_mod) simp
  then show ?thesis by (simp add: PAGING64_DIR_ENTRIES_eq word_less_nat_alt)
qed

text \<open>
  The split of an address into the five directory indices loses nothing. Every
  index is below the 512 entries of a directory page, and shifted back to their places the
  five indices give the address bits 12 .. 56 (the page number) again.
\<close>

lemma pd_indices_roundtrip:
  "case get_pd_from_address a of (g, p4, u, m, t) \<Rightarrow>
     g < PAGING64_DIR_ENTRIES \<and> p4 < PAGING64_DIR_ENTRIES \<and> u < PAGING64_DIR_ENTRIES \<and>
     m < PAGING64_DIR_ENTRIES \<and> t < PAGING64_DIR_ENTRIES \<and>
     push_bit 48 g OR push_bit 39 p4 OR push_bit 30 u OR push_bit 21 m OR push_bit 12 t
       = a AND GENMASK64 56 12"
  using pd_join_split [of a] by (simp add: get_pd_fields index_less pd_join_def)

lemma pd_path_eq:
  "pd_path pgn = map (\<lambda>k. take_bit 9 (drop_bit k (push_bit 12 pgn))) [48, 39, 30, 21, 12]"
  by (simp add: pd_path_def get_pd_from_pagenum_def get_pd_fields)

lemma length_pd_path [simp]: "length (pd_path pgn) = 5"
  by (simp add: pd_path_eq)

lemma pd_path_inject:
  assumes "pgn < 2 ^ 45" and "pgn' < 2 ^ 45"
  shows "pd_path pgn = pd_path pgn' \<longleftrightarrow> pgn = pgn'"
proof
  assume "pd_path pgn = pd_path pgn'"
  then have "get_pd_from_address (push_bit 12 pgn) = get_pd_from_address (push_bit 12 pgn')"
    by (simp add: pd_path_eq get_pd_fields)
  then have e: "push_bit 12 pgn AND GENMASK64 56 12 = push_bit 12 pgn' AND GENMASK64 56 12"
    by (simp only: flip: pd_join_split)
  have "bit pgn i = bit pgn' i" for i
  proof (cases "i < 45")
    case True
    have "bit (push_bit 12 pgn AND GENMASK64 56 12) (i + 12) = bit (push_bit 12 pgn' AND GENMASK64 56 12) (i + 12)"
      by (simp only: e)
    then show ?thesis using True by (simp add: bit_simps bit_GENMASK64)
  next
    case False
    have "unat pgn < 2 ^ 45" "unat pgn' < 2 ^ 45" using assms by (simp_all add: word_less_nat_alt)
    then show ?thesis using False bit_word_bound by blast
  qed
  then show "pgn = pgn'" by (simp add: bit_eq_iff)
qed simp

section \<open>The directory tree as a map\<close>

text \<open>The entry at a path, 0 where the path leaves the tree; \<open>dir_reach\<close>: it does not.\<close>

fun dir_lookup :: "addr_t list \<Rightarrow> dir \<Rightarrow> addr_t" where
  "dir_lookup [i] (Tbl t) = t i"
| "dir_lookup (i # j # is) (Dir d) = (case d i of None \<Rightarrow> 0 | Some c \<Rightarrow> dir_lookup (j # is) c)"
| "dir_lookup _ _ = 0"

fun dir_reach :: "addr_t list \<Rightarrow> dir \<Rightarrow> bool" where
  "dir_reach [i] (Tbl t) = True"
| "dir_reach (i # j # is) (Dir d) = (case d i of None \<Rightarrow> False | Some c \<Rightarrow> dir_reach (j # is) c)"
| "dir_reach _ _ = False"

text \<open>Shape of the tree: a page of level \<open>n\<close>, with children only below index 512.\<close>

primrec wf_dir :: "nat \<Rightarrow> dir \<Rightarrow> bool" where
  "wf_dir 0 d = False"
| "wf_dir (Suc n) d = (case d of Tbl t \<Rightarrow> n = 0
     | Dir f \<Rightarrow> n \<noteq> 0 \<and> (\<forall>i c. f i = Some c \<longrightarrow> i < PAGING64_DIR_ENTRIES \<and> wf_dir n c))"

lemma wf_zero_dir [simp]: "0 < n \<Longrightarrow> wf_dir n (zero_dir n)"
  by (cases n) (auto simp: zero_dir_def)

lemma dir_lookup_zero [simp]: "dir_lookup js (zero_dir n) = 0"
  by (cases js rule: remdups_adj.cases) (auto simp: zero_dir_def)

lemma wf_dir_Tbl: "wf_dir (length [i]) d \<Longrightarrow> \<exists>t. d = Tbl t"
  by (auto split: dir.splits)

lemma wf_dir_Dir: "wf_dir (length (i # j # is)) d \<Longrightarrow> \<exists>f. d = Dir f"
  by (auto split: dir.splits)

lemma dir_lookup_store_other:
  "js \<noteq> is \<Longrightarrow> length js = length is \<Longrightarrow> dir_lookup js (dir_store is y d) = dir_lookup js d"
proof (induction "is" y d arbitrary: js rule: dir_store.induct)
  case (1 i v t)
  then obtain j where "js = [j]" by (cases js) auto
  with 1 show ?case by simp
next
  case (2 i j "is" v d)
  then obtain a b js' where js: "js = a # b # js'" by (cases js rule: remdups_adj.cases) auto
  with 2 show ?case by (auto split: option.splits)
qed auto

lemma dir_lookup_store_same: "dir_reach is d \<Longrightarrow> dir_lookup is (dir_store is y d) = y"
  by (induction "is" y d rule: dir_store.induct) (auto split: option.splits)

lemma wf_dir_store: "wf_dir n d \<Longrightarrow> wf_dir n (dir_store is y d)"
proof (induction "is" y d arbitrary: n rule: dir_store.induct)
  case (1 i v t)
  then show ?case by (cases n) auto
next
  case (2 i j "is" v d)
  show ?case
  proof (cases "d i")
    case (Some c)
    obtain m where n: "n = Suc m" "m \<noteq> 0" using 2(2) by (cases n) auto
    then have "wf_dir m (dir_store (j # is) v c)" using 2 Some by auto
    then show ?thesis using 2(2) Some n by auto
  qed (use 2 in simp)
qed auto

section \<open>Counting directory pages\<close>

lemma free_dir_Dir:
  "1 \<le> n \<Longrightarrow> mm64_free_dir (Suc n) (Dir f) =
     (\<Sum>k < 512. case f (of_nat k) of None \<Rightarrow> 0 | Some c \<Rightarrow> mm64_free_dir n c) + 1"
  by (simp add: PAGING64_DIR_ENTRIES_eq interv_sum_list_conv_sum_set_nat atLeast0LessThan)

lemma free_dir_leaf [simp]: "mm64_free_dir (Suc 0) d = 1"
  by simp

declare mm64_free_dir.simps(2) [simp del]

lemma free_zero_dir [simp]: "mm64_free_dir n (zero_dir n) = 1"
proof (cases n)
  case (Suc m)
  then show ?thesis by (cases "m = 0") (simp_all add: zero_dir_def free_dir_Dir)
qed simp

lemma free_dir_update:
  assumes "1 \<le> n" and "i < PAGING64_DIR_ENTRIES"
  shows "mm64_free_dir (Suc n) (Dir (f(i \<mapsto> c))) + (case f i of None \<Rightarrow> 0 | Some c0 \<Rightarrow> mm64_free_dir n c0) =
     mm64_free_dir (Suc n) (Dir f) + mm64_free_dir n c"
proof -
  let ?g = "\<lambda>h k. case h (of_nat k :: addr_t) of None \<Rightarrow> 0 | Some c \<Rightarrow> mm64_free_dir n c"
  have i: "unat i \<in> {..<512}" using assms(2) by (simp add: PAGING64_DIR_ENTRIES_eq word_less_nat_alt)
  have ne: "?g (f(i \<mapsto> c)) k = ?g f k" if "k \<in> {..<512} - {unat i}" for k
  proof -
    have "(of_nat k :: addr_t) \<noteq> i" using that by (auto simp: unat_of_nat)
    then show ?thesis by simp
  qed
  have "(\<Sum>k < 512. ?g (f(i \<mapsto> c)) k) = ?g (f(i \<mapsto> c)) (unat i) + (\<Sum>k \<in> {..<512} - {unat i}. ?g (f(i \<mapsto> c)) k)"
    using i by (simp add: sum.remove)
  also have "(\<Sum>k \<in> {..<512} - {unat i}. ?g (f(i \<mapsto> c)) k) = (\<Sum>k \<in> {..<512} - {unat i}. ?g f k)"
    by (rule sum.cong [OF refl]) (rule ne)
  finally have "(\<Sum>k < 512. ?g (f(i \<mapsto> c)) k) = mm64_free_dir n c + (\<Sum>k \<in> {..<512} - {unat i}. ?g f k)"
    by simp
  moreover have "(\<Sum>k < 512. ?g f k) = ?g f (unat i) + (\<Sum>k \<in> {..<512} - {unat i}. ?g f k)"
    using i by (simp add: sum.remove)
  ultimately show ?thesis by (simp only: free_dir_Dir [OF assms(1)]) simp
qed

lemma free_dir_store: "wf_dir n d \<Longrightarrow> mm64_free_dir n (dir_store is y d) = mm64_free_dir n d"
proof (induction "is" y d arbitrary: n rule: dir_store.induct)
  case (1 i v t)
  then show ?case by (cases n) auto
next
  case (2 i j "is" v d)
  show ?case
  proof (cases "d i")
    case (Some c)
    obtain m where n: "n = Suc m" "1 \<le> m" using 2(2) by (cases n) auto
    have "wf_dir m c" "i < PAGING64_DIR_ENTRIES" using 2(2) Some n by auto
    then show ?thesis
      using free_dir_update [OF n(2), of i d "dir_store (j # is) v c"] 2(1) [OF Some] Some n by simp
  qed simp
qed auto

section \<open>The walk\<close>

text \<open>What a walk leaves alone: everything but the statistics and the allocator.\<close>

definition core :: "mm_struct \<Rightarrow> mm_struct" where
  "core mm = mm\<lparr>mm64_walk_count := 0, mm64_mem_access_count := 0, mm64_dir_alloc_count := 0,
                mm64_bytes_alloc := 0, calloc_n := 0\<rparr>"

lemma core_eq: "core m = core m' \<longleftrightarrow> pgd m = pgd m' \<and> mmap m = mmap m' \<and> symrgtbl m = symrgtbl m' \<and>
    fifo_pgn m = fifo_pgn m' \<and> calloc_ok m = calloc_ok m'"
  by (cases m; cases m') (auto simp: core_def)

lemma core_count_access [simp]: "core (count_access mm) = core mm"
  by (simp add: core_eq count_access_def)

lemma count_access_simps [simp]:
  "mm64_dir_alloc_count (count_access mm) = mm64_dir_alloc_count mm"
  "mm64_bytes_alloc (count_access mm) = mm64_bytes_alloc mm"
  "calloc_ok (count_access mm) = calloc_ok mm"
  by (simp_all add: count_access_def)

text \<open>The pages of a tree as the counters count them.\<close>

definition grown :: "nat \<Rightarrow> dir \<Rightarrow> mm_struct \<Rightarrow> dir \<Rightarrow> mm_struct \<Rightarrow> bool" where
  "grown n d mm d' mm' \<longleftrightarrow>
     mm64_dir_alloc_count mm' + of_nat (mm64_free_dir n d) = mm64_dir_alloc_count mm + of_nat (mm64_free_dir n d') \<and>
     mm64_bytes_alloc mm' + 4096 * of_nat (mm64_free_dir n d) =
       mm64_bytes_alloc mm + 4096 * of_nat (mm64_free_dir n d')"

lemma grown_refl [simp]: "grown n d mm d mm"
  by (simp add: grown_def)

lemma grown_access [simp]:
  "grown n d (count_access mm) d' mm' \<longleftrightarrow> grown n d mm d' mm'"
  "grown n d mm d' (count_access mm') \<longleftrightarrow> grown n d mm d' mm'"
  by (simp_all add: grown_def)

text \<open>Replacing a child by a grown child grows the parent by the same pages.\<close>

lemma grown_child:
  assumes "1 \<le> n" "i < PAGING64_DIR_ENTRIES" "f i = Some c" "grown n c mm c' mm'"
  shows "grown (Suc n) (Dir f) mm (Dir (f(i \<mapsto> c'))) mm'"
proof -
  have "mm64_free_dir (Suc n) (Dir (f(i \<mapsto> c'))) + mm64_free_dir n c =
        mm64_free_dir (Suc n) (Dir f) + mm64_free_dir n c'"
    using free_dir_update [OF assms(1,2), of f c'] assms(3) by simp
  then have "(of_nat (mm64_free_dir (Suc n) (Dir (f(i \<mapsto> c')))) + of_nat (mm64_free_dir n c) :: 64 word) =
        of_nat (mm64_free_dir (Suc n) (Dir f)) + of_nat (mm64_free_dir n c')"
    by (metis of_nat_add)
  then have e: "of_nat (mm64_free_dir (Suc n) (Dir (f(i \<mapsto> c')))) =
        (of_nat (mm64_free_dir (Suc n) (Dir f)) + of_nat (mm64_free_dir n c') - of_nat (mm64_free_dir n c) :: 64 word)"
    by (simp add: eq_diff_eq)
  from assms(4) show ?thesis unfolding grown_def e
    by (simp add: algebra_simps)
qed

lemma grown_new_child:
  assumes "1 \<le> n" "i < PAGING64_DIR_ENTRIES" "f i = None"
    and a: "mm64_dir_alloc_count mm1 = mm64_dir_alloc_count mm + 1"
           "mm64_bytes_alloc mm1 = mm64_bytes_alloc mm + 4096"
    and g: "grown n (zero_dir n) mm1 c' mm'"
  shows "grown (Suc n) (Dir f) mm (Dir (f(i \<mapsto> c'))) mm'"
proof -
  have "mm64_free_dir (Suc n) (Dir (f(i \<mapsto> c'))) = mm64_free_dir (Suc n) (Dir f) + mm64_free_dir n c'"
    using free_dir_update [OF assms(1,2), of f c'] assms(3) by simp
  then have "(of_nat (mm64_free_dir (Suc n) (Dir (f(i \<mapsto> c')))) :: 64 word) =
        of_nat (mm64_free_dir (Suc n) (Dir f)) + of_nat (mm64_free_dir n c')"
    by simp
  with g a show ?thesis unfolding grown_def by (simp add: algebra_simps)
qed

text \<open>A page created on the way down reads as zero, so it changes no entry of the map.\<close>

definition same_map :: "nat \<Rightarrow> dir \<Rightarrow> dir \<Rightarrow> bool" where
  "same_map n d d' \<longleftrightarrow> (\<forall>js. length js = n \<longrightarrow> dir_lookup js d' = dir_lookup js d)"

lemma same_map_refl [simp]: "same_map n d d"
  by (simp add: same_map_def)

lemma same_map_child:
  assumes "f i = Some c \<and> same_map n c c' \<or> f i = None \<and> same_map n (zero_dir n) c'"
  shows "same_map (Suc n) (Dir f) (Dir (f(i \<mapsto> c')))"
  unfolding same_map_def
proof (intro allI impI)
  fix js :: "addr_t list" assume "length js = Suc n"
  with assms show "dir_lookup js (Dir (f(i \<mapsto> c'))) = dir_lookup js (Dir f)"
    by (cases js rule: remdups_adj.cases) (auto simp: same_map_def)
qed

definition walk_ok :: "addr_t list \<Rightarrow> dir \<Rightarrow> mm_struct \<Rightarrow> addr_t option \<Rightarrow> dir \<Rightarrow> mm_struct \<Rightarrow> bool" where
  "walk_ok is d mm v d' mm' \<longleftrightarrow>
     wf_dir (length is) d' \<and> core mm' = core mm \<and> same_map (length is) d d' \<and>
     grown (length is) d mm d' mm' \<and>
     (case v of None \<Rightarrow> \<exists>k. \<not> calloc_ok mm k | Some x \<Rightarrow> dir_reach is d' \<and> x = dir_lookup is d)"

lemma dir_walk_alloc:
  "wf_dir (length is) d \<Longrightarrow> \<forall>i \<in> set is. i < PAGING64_DIR_ENTRIES \<Longrightarrow>
   dir_walk True is d mm = (v, d', mm') \<Longrightarrow> walk_ok is d mm v d' mm'"
proof (induction "True" "is" d mm arbitrary: v d' mm' rule: dir_walk.induct)
  case (1 i t mm)
  then show ?case by (auto simp: walk_ok_def)
next
  case (2 i j "is" d mm)
  let ?n = "length (j # is)"
  obtain f where d: "d = Dir f" using 2(2) by (auto split: dir.splits)
  have i: "i < PAGING64_DIR_ENTRIES" using 2(3) by simp
  obtain child d1 mm2 where la: "dir_load_or_alloc ?n d i (count_access mm) = (child, d1, mm2)"
    by (metis prod_cases3)
  show ?case
  proof (cases child)
    case None
    with la d have "d1 = d" "core mm2 = core mm" "\<exists>k. \<not> calloc_ok mm k"
        "grown (Suc ?n) d mm d mm2"
      by (auto simp: dir_load_or_alloc_def Let_def core_eq grown_def count_access_def
          split: option.splits if_splits)
    with 2 None la show ?thesis by (auto simp: walk_ok_def)
  next
    case (Some c)
    obtain x c1 mm3 where w: "dir_walk True (j # is) c mm2 = (x, c1, mm3)" by (metis prod_cases3)
    with 2(4) la Some d have r: "v = x" "d' = dir_set d1 i c1" "mm' = mm3" by (auto simp: Let_def)
    have cases: "f i = Some c \<and> d1 = Dir f \<and> mm2 = count_access mm \<or>
       f i = None \<and> c = zero_dir ?n \<and> d1 = Dir (f(i \<mapsto> c)) \<and> core mm2 = core mm \<and>
       mm64_dir_alloc_count mm2 = mm64_dir_alloc_count mm + 1 \<and>
       mm64_bytes_alloc mm2 = mm64_bytes_alloc mm + 4096"
      using la Some d
      by (auto simp: dir_load_or_alloc_def Let_def core_eq count_access_def PAGING64_DIR_ENTRIES_eq
          split: option.splits if_splits)
    have wc: "wf_dir ?n c" using cases wf_zero_dir [of ?n] 2(2) d by auto
    have ih: "walk_ok (j # is) c mm2 x c1 mm3"
      by (rule 2(1) [OF refl refl _ refl Some wc _ w]) (use la 2(3) in simp_all)
    have d': "d' = Dir (f(i \<mapsto> c1))" using r(2) cases by auto
    have cm: "core mm2 = core mm" using cases by auto
    have g: "grown (Suc ?n) (Dir f) mm (Dir (f(i \<mapsto> c1))) mm3"
      using cases
    proof
      assume "f i = Some c \<and> d1 = Dir f \<and> mm2 = count_access mm"
      with ih i show ?thesis by (intro grown_child) (auto simp: walk_ok_def)
    next
      assume "f i = None \<and> c = zero_dir ?n \<and> d1 = Dir (f(i \<mapsto> c)) \<and> core mm2 = core mm \<and>
       mm64_dir_alloc_count mm2 = mm64_dir_alloc_count mm + 1 \<and>
       mm64_bytes_alloc mm2 = mm64_bytes_alloc mm + 4096"
      with ih i show ?thesis by (intro grown_new_child [where ?mm1.0 = mm2]) (auto simp: walk_ok_def)
    qed
    have s: "same_map (Suc ?n) (Dir f) (Dir (f(i \<mapsto> c1)))"
      using ih cases by (intro same_map_child) (auto simp: walk_ok_def)
    have wf': "wf_dir (Suc ?n) (Dir (f(i \<mapsto> c1)))"
      using 2(2) d ih i by (auto simp: walk_ok_def)
    have lk: "dir_lookup (i # j # is) (Dir f) = dir_lookup (j # is) c" using cases by auto
    have ck: "calloc_ok mm2 = calloc_ok mm" using cm by (simp add: core_eq)
    show ?thesis
      unfolding walk_ok_def r(1,3) d' d
      using ih g s wf' lk ck cm by (simp add: walk_ok_def split: option.splits)
  qed
qed (auto split: dir.splits)

lemma dir_walk_read:
  "wf_dir (length is) d \<Longrightarrow> dir_walk False is d mm = (v, d', mm') \<Longrightarrow>
   d' = d \<and> core mm' = core mm \<and> mm64_dir_alloc_count mm' = mm64_dir_alloc_count mm \<and>
   mm64_bytes_alloc mm' = mm64_bytes_alloc mm \<and>
   v = (if dir_reach is d then Some (dir_lookup is d) else None)"
proof (induction "False" "is" d mm arbitrary: v d' mm' rule: dir_walk.induct)
  case (2 i j "is" d mm)
  obtain f where d: "d = Dir f" using 2(2) by (auto split: dir.splits)
  show ?case
  proof (cases "f i")
    case (Some c)
    obtain x c1 mm3 where w: "dir_walk False (j # is) c (count_access mm) = (x, c1, mm3)"
      by (metis prod_cases3)
    have wc: "wf_dir (length (j # is)) c" using 2(2) d Some by auto
    have "c1 = c \<and> core mm3 = core (count_access mm) \<and>
        mm64_dir_alloc_count mm3 = mm64_dir_alloc_count (count_access mm) \<and>
        mm64_bytes_alloc mm3 = mm64_bytes_alloc (count_access mm) \<and>
        x = (if dir_reach (j # is) c then Some (dir_lookup (j # is) c) else None)"
      by (rule 2(1) [OF refl refl _ refl _ wc w]) (use d Some in simp_all)
    then show ?thesis using 2(3) w d Some by (auto simp: fun_upd_idem)
  qed (use 2 d in auto)
qed (auto split: dir.splits)

text \<open>A walk that arrives costs one access per level, allocating or not.\<close>

lemma dir_walk_accesses:
  "dir_walk alloc is d mm = (Some x, d', mm') \<Longrightarrow>
   mm64_mem_access_count mm' = mm64_mem_access_count mm + of_nat (length is) \<and>
   mm64_walk_count mm' = mm64_walk_count mm"
proof (induction alloc "is" d mm arbitrary: x d' mm' rule: dir_walk.induct)
  case (2 alloc i j "is" d mm)
  obtain child d1 mm2 where la: "(if alloc then dir_load_or_alloc (length (j # is)) d i (count_access mm)
      else (dir_load d i, d, count_access mm)) = (child, d1, mm2)"
    by (metis prod_cases3)
  have m2: "mm64_mem_access_count mm2 = mm64_mem_access_count mm + 1 \<and> mm64_walk_count mm2 = mm64_walk_count mm"
    using la by (auto simp: count_access_def dir_load_or_alloc_def Let_def split: option.splits if_splits)
  obtain c where c: "child = Some c" using 2(2) la by (cases child) (auto simp: Let_def)
  obtain y c1 mm3 where w: "dir_walk alloc (j # is) c mm2 = (y, c1, mm3)" by (metis prod_cases3)
  have r: "y = Some x" "mm' = mm3" using 2(2) la c w by (auto simp: Let_def)
  have "mm64_mem_access_count mm3 = mm64_mem_access_count mm2 + of_nat (length (j # is)) \<and>
      mm64_walk_count mm3 = mm64_walk_count mm2"
    by (rule 2(1) [OF refl refl _ refl c w [unfolded r]]) (use la in simp)
  then show ?case using m2 r by simp
qed (auto simp: count_access_def)

lemma lookup_unreached: "\<not> dir_reach is d \<Longrightarrow> dir_lookup is d = 0"
  by (induction "is" d rule: dir_lookup.induct) (auto split: option.splits)

section \<open>The page table as a map\<close>

definition pte_at :: "mm_struct \<Rightarrow> addr_t \<Rightarrow> addr_t" where
  "pte_at mm pgn = (case pgd mm of
     Some root \<Rightarrow> if pgn < PAGING_MAX_PGN then dir_lookup (pd_path pgn) root else 0
   | None \<Rightarrow> 0)"

definition dir_pages :: "mm_struct \<Rightarrow> nat" where
  "dir_pages mm = (case pgd mm of None \<Rightarrow> 0 | Some root \<Rightarrow> mm64_free_dir 5 root)"

text \<open>The tree is well formed and the statistics count its pages.\<close>

definition pt_ok :: "mm_struct \<Rightarrow> bool" where
  "pt_ok mm \<longleftrightarrow> (\<forall>root. pgd mm = Some root \<longrightarrow> wf_dir 5 root \<and>
     mm64_dir_alloc_count mm = of_nat (dir_pages mm) \<and>
     mm64_bytes_alloc mm = 4096 * of_nat (dir_pages mm))"

text \<open>The fields the page table does not own.\<close>

definition rest :: "mm_struct \<Rightarrow> vm_area_struct list \<times> vm_rg_struct list \<times> addr_t list \<times> (nat \<Rightarrow> bool) \<times> bool" where
  "rest mm = (mmap mm, symrgtbl mm, fifo_pgn mm, calloc_ok mm, pgd mm = None)"

lemma rest_eqD:
  assumes "rest mm' = rest mm"
  shows "mmap mm' = mmap mm" "symrgtbl mm' = symrgtbl mm" "fifo_pgn mm' = fifo_pgn mm"
    "calloc_ok mm' = calloc_ok mm" "pgd mm' = None \<longleftrightarrow> pgd mm = None"
  using assms by (simp_all add: rest_def)

lemma pgn_bound: "pgn < PAGING_MAX_PGN \<Longrightarrow> pgn < 2 ^ 45"
  by (simp add: PAGING_MAX_PGN_eq word_less_nat_alt)

lemma pd_path_bound: "\<forall>i \<in> set (pd_path pgn). i < PAGING64_DIR_ENTRIES"
  using index_less by (auto simp: pd_path_eq)

lemma pte_walk_alloc:
  assumes "pt_ok mm" and "pte_walk mm pgn True = (v, mm')"
  shows "pt_ok mm' \<and> rest mm' = rest mm \<and> pte_at mm' = pte_at mm \<and>
    (case v of
       None \<Rightarrow> pgd mm = None \<or> PAGING_MAX_PGN \<le> pgn \<or> (\<exists>k. \<not> calloc_ok mm k)
     | Some x \<Rightarrow> pgn < PAGING_MAX_PGN \<and> x = pte_at mm pgn \<and>
         (\<exists>root. pgd mm' = Some root \<and> dir_reach (pd_path pgn) root))"
proof (cases "pgd mm = None \<or> PAGING_MAX_PGN \<le> pgn")
  case True
  then show ?thesis using assms by (auto simp: pte_walk_def split: option.splits)
next
  case False
  then obtain root where root: "pgd mm = Some root" by auto
  let ?m0 = "mm\<lparr>mm64_walk_count := mm64_walk_count mm + 1\<rparr>"
  obtain r1 m1 where w: "dir_walk True (pd_path pgn) root ?m0 = (v, r1, m1)" and mm': "mm' = m1\<lparr>pgd := Some r1\<rparr>"
    using assms(2) False root by (auto simp: pte_walk_def split: prod.splits)
  have "wf_dir (length (pd_path pgn)) root" using assms(1) root by (simp add: pt_ok_def)
  from dir_walk_alloc [OF this pd_path_bound w]
  have ok: "wf_dir 5 r1" "core m1 = core ?m0" "same_map 5 root r1" "grown 5 root ?m0 r1 m1"
    "case v of None \<Rightarrow> \<exists>k. \<not> calloc_ok mm k
     | Some x \<Rightarrow> dir_reach (pd_path pgn) r1 \<and> x = dir_lookup (pd_path pgn) root"
    by (simp_all add: walk_ok_def split: option.splits)
  have "pt_ok mm'"
    using assms(1) root ok(1,4) unfolding mm' pt_ok_def dir_pages_def grown_def
    by (auto simp: algebra_simps)
  moreover have "rest mm' = rest mm" using ok(2) root by (simp add: mm' rest_def core_eq)
  moreover have "pte_at mm' = pte_at mm"
    using ok(3) root by (auto simp: pte_at_def mm' same_map_def)
  ultimately show ?thesis using ok(5) False root by (auto simp: mm' pte_at_def split: option.splits)
qed

lemma pte_walk_read:
  assumes "pt_ok mm" and "pte_walk mm pgn False = (v, mm')"
  shows "pt_ok mm' \<and> rest mm' = rest mm \<and> pgd mm' = pgd mm \<and>
    (case v of None \<Rightarrow> pte_at mm pgn = 0 | Some x \<Rightarrow> x = pte_at mm pgn)"
proof (cases "pgd mm = None \<or> PAGING_MAX_PGN \<le> pgn")
  case True
  then show ?thesis using assms by (auto simp: pte_walk_def pte_at_def split: option.splits)
next
  case False
  then obtain root where root: "pgd mm = Some root" by auto
  let ?m0 = "mm\<lparr>mm64_walk_count := mm64_walk_count mm + 1\<rparr>"
  obtain r1 m1 where w: "dir_walk False (pd_path pgn) root ?m0 = (v, r1, m1)" and mm': "mm' = m1\<lparr>pgd := Some r1\<rparr>"
    using assms(2) False root by (auto simp: pte_walk_def split: prod.splits)
  have "wf_dir (length (pd_path pgn)) root" using assms(1) root by (simp add: pt_ok_def)
  from dir_walk_read [OF this w] show ?thesis
    using assms(1) False root lookup_unreached [of "pd_path pgn" root]
    by (auto simp: mm' pt_ok_def dir_pages_def rest_def core_eq pte_at_def split: if_splits)
qed

lemma pte_store_at:
  assumes "pt_ok mm" "pgn < PAGING_MAX_PGN" "pgd mm = Some root" "dir_reach (pd_path pgn) root"
  shows "pt_ok (pte_store mm pgn v) \<and> rest (pte_store mm pgn v) = rest mm \<and>
    pte_at (pte_store mm pgn v) = (pte_at mm)(pgn := v)"
proof (intro conjI ext)
  have wf: "wf_dir 5 root" using assms by (simp add: pt_ok_def)
  show "pt_ok (pte_store mm pgn v)"
    using assms wf_dir_store [OF wf] free_dir_store [OF wf]
    by (simp add: pt_ok_def pte_store_def dir_pages_def)
  show "rest (pte_store mm pgn v) = rest mm" using assms by (simp add: rest_def pte_store_def)
  fix p
  show "pte_at (pte_store mm pgn v) p = ((pte_at mm)(pgn := v)) p"
  proof (cases "p = pgn")
    case False
    then have "p < PAGING_MAX_PGN \<Longrightarrow> pd_path p \<noteq> pd_path pgn"
      using pd_path_inject pgn_bound assms(2) by blast
    then show ?thesis using False assms(3) by (simp add: pte_at_def pte_store_def dir_lookup_store_other)
  qed (use assms in \<open>simp add: pte_at_def pte_store_def dir_lookup_store_same\<close>)
qed

section \<open>The bit fields of an entry\<close>

lemma bit_BIT: "bit (BIT n) i \<longleftrightarrow> i = n \<and> n < 32"
  by (auto simp: BIT_def bit_simps)

lemma and_BIT: "n < 32 \<Longrightarrow> p AND BIT n \<noteq> 0 \<longleftrightarrow> bit p n"
  by (simp add: bit_eq_iff [of "p AND BIT n" 0] bit_and_iff bit_BIT)

lemmas pte_masks = PAGING_PTE_PRESENT_MASK_def PAGING_PTE_SWAPPED_MASK_def PAGING_PTE_RESERVE_MASK_def
  PAGING_PTE_DIRTY_MASK_def PAGING_PTE_FPN_MASK_def PAGING_PTE_SWPTYP_MASK_def PAGING_PTE_SWPOFF_MASK_def

lemma present_bit: "PAGING_PAGE_PRESENT p \<longleftrightarrow> bit p 31"
  by (simp add: PAGING_PAGE_PRESENT_def pte_masks and_BIT)

lemma swapped_bit: "PAGING_PAGE_SWAPPED p \<longleftrightarrow> bit p 30"
  by (simp add: PAGING_PAGE_SWAPPED_def pte_masks and_BIT)

lemma bit_ucast_pte: "bit (ucast (w :: addr_t) :: u32) i \<longleftrightarrow> i < 32 \<and> bit w i"
  by (auto simp: bit_simps)

lemma bit_ucast_mask: "bit (ucast (m :: u32) :: addr_t) i \<longleftrightarrow> bit m i"
  by (auto simp: bit_simps dest: bit_imp_le_length)

lemma bit_not_mask: "bit (NOT (m :: u32)) i \<longleftrightarrow> i < 32 \<and> \<not> bit m i"
  by (auto simp: bit_simps dest: bit_imp_le_length)

lemma bit_fpn_pte:
  "bit (fpn_pte p f) i \<longleftrightarrow> i < 32 \<and> (i = 31 \<or> (if i \<le> 12 then bit f i else i \<noteq> 30 \<and> bit p i))"
  by (auto simp: fpn_pte_def SETBIT_def CLRBIT_def SETVAL_def pte_masks bit_or_iff bit_and_iff
      bit_ucast_mask bit_not_mask bit_BIT bit_GENMASK)

lemma bit_swap_pte:
  "bit (swap_pte p t off) i \<longleftrightarrow> i < 32 \<and> i \<noteq> 31 \<and>
     (i = 30 \<or> (if i < 5 then bit (u64_of_int t) i
                else if i \<le> 25 then bit off (i - 5) else bit p i))"
  by (auto simp: swap_pte_def SETBIT_def CLRBIT_def SETVAL_def pte_masks bit_or_iff bit_and_iff
      bit_ucast_mask bit_not_mask bit_BIT bit_GENMASK bit_push_bit_iff)

lemma fpn_pte_fields:
  "PAGING_PAGE_PRESENT (ucast (fpn_pte p f)) \<and> \<not> PAGING_PAGE_SWAPPED (ucast (fpn_pte p f)) \<and>
   PAGING_FPN (ucast (fpn_pte p f)) = ucast (take_bit 13 f)"
proof (intro conjI)
  show "PAGING_FPN (ucast (fpn_pte p f)) = ucast (take_bit 13 f)"
    by (rule bit_eqI)
       (auto simp: PAGING_FPN_def GETVAL_def pte_masks bit_and_iff bit_GENMASK bit_fpn_pte bit_ucast_pte
        bit_take_bit_iff)
qed (simp_all add: present_bit swapped_bit bit_ucast_pte bit_fpn_pte)

lemma swap_pte_fields:
  "\<not> PAGING_PAGE_PRESENT (ucast (swap_pte p t off)) \<and> PAGING_PAGE_SWAPPED (ucast (swap_pte p t off)) \<and>
   PAGING_SWP (ucast (swap_pte p t off)) = ucast (take_bit 21 off) \<and>
   GETVAL (ucast (swap_pte p t off)) PAGING_PTE_SWPTYP_MASK 0 = ucast (take_bit 5 (u64_of_int t))"
proof (intro conjI)
  show "PAGING_SWP (ucast (swap_pte p t off)) = ucast (take_bit 21 off)"
    by (rule bit_eqI)
       (auto simp: PAGING_SWP_def pte_masks bit_and_iff bit_GENMASK bit_swap_pte bit_ucast_pte
        bit_take_bit_iff bit_drop_bit_eq dest: bit_imp_le_length)
  show "GETVAL (ucast (swap_pte p t off)) PAGING_PTE_SWPTYP_MASK 0 = ucast (take_bit 5 (u64_of_int t))"
    by (rule bit_eqI)
       (auto simp: GETVAL_def pte_masks bit_and_iff bit_GENMASK bit_swap_pte bit_ucast_pte bit_take_bit_iff)
qed (simp_all add: present_bit swapped_bit bit_ucast_pte bit_swap_pte)

section \<open>The contract of the operations\<close>

text \<open>
  What the memory manager relies on when it writes an entry: either the walk succeeded and
  exactly the entry of \<open>pgn\<close> changed, or nothing did and there is a reason for the failure.
\<close>

locale page_table =
  fixes set_pte :: "mm_struct \<Rightarrow> addr_t \<Rightarrow> 'v \<Rightarrow> int \<times> mm_struct"
    and enc :: "addr_t \<Rightarrow> 'v \<Rightarrow> addr_t"
  assumes set_done: "pt_ok mm \<Longrightarrow> set_pte mm pgn v = (0, mm') \<Longrightarrow>
      pgn < PAGING_MAX_PGN \<and> pt_ok mm' \<and> rest mm' = rest mm \<and>
      pte_at mm' = (pte_at mm)(pgn := enc (pte_at mm pgn) v)"
    and set_fails: "pt_ok mm \<Longrightarrow> set_pte mm pgn v = (r, mm') \<Longrightarrow> r \<noteq> 0 \<Longrightarrow>
      r = -1 \<and> pt_ok mm' \<and> rest mm' = rest mm \<and> pte_at mm' = pte_at mm \<and>
      (pgd mm = None \<or> PAGING_MAX_PGN \<le> pgn \<or> (\<exists>k. \<not> calloc_ok mm k))"
begin

lemma set_keeps: "pt_ok mm \<Longrightarrow> pt_ok (snd (set_pte mm pgn v)) \<and> rest (snd (set_pte mm pgn v)) = rest mm"
  using set_done set_fails by (metis prod.collapse)

lemma set_frame: "pt_ok mm \<Longrightarrow> p \<noteq> pgn \<Longrightarrow> pte_at (snd (set_pte mm pgn v)) p = pte_at mm p"
  using set_done set_fails by (metis fun_upd_other prod.collapse)

lemma set_total:
  assumes "pt_ok mm" "pgd mm \<noteq> None" "pgn < PAGING_MAX_PGN" "\<forall>k. calloc_ok mm k"
  shows "fst (set_pte mm pgn v) = 0"
  using set_fails [OF assms(1), of pgn v "fst (set_pte mm pgn v)" "snd (set_pte mm pgn v)"] assms(2-)
  by (metis leD prod.collapse)

lemma set_read:
  assumes "pt_ok mm" "set_pte mm pgn v = (0, mm')"
  shows "fst (pte_get_entry mm' p) = (if p = pgn then ucast (enc (pte_at mm pgn) v) else fst (pte_get_entry mm p))"
proof -
  have g: "fst (pte_get_entry m p) = ucast (pte_at m p)" if "pt_ok m" for m p
    using pte_walk_read [OF that, of p "fst (pte_walk m p False)" "snd (pte_walk m p False)"]
    by (auto simp: pte_get_entry_def split: option.splits prod.splits)
  show ?thesis using set_done [OF assms] assms(1) by (simp add: g)
qed

end

lemma pte_get_entry_at:
  assumes "pt_ok mm" "pte_get_entry mm pgn = (u, mm')"
  shows "u = ucast (pte_at mm pgn) \<and> pt_ok mm' \<and> rest mm' = rest mm \<and> pgd mm' = pgd mm \<and> pte_at mm' = pte_at mm"
proof -
  obtain v m where w: "pte_walk mm pgn False = (v, m)" by (metis prod.exhaust)
  from pte_walk_read [OF assms(1) w] show ?thesis
    using assms(2) w by (auto simp: pte_get_entry_def pte_at_def fun_eq_iff split: option.splits)
qed

text \<open>The three setters share this shape: walk, give up on NULL, store through the pointer.\<close>

definition pte_update :: "(addr_t \<Rightarrow> addr_t) \<Rightarrow> mm_struct \<Rightarrow> addr_t \<Rightarrow> int \<times> mm_struct" where
  "pte_update f mm pgn = (case pte_walk mm pgn True of
     (None, mm1) \<Rightarrow> (-1, mm1) | (Some pte, mm1) \<Rightarrow> (0, pte_store mm1 pgn (f pte)))"

lemma pte_update_done:
  assumes ok: "pt_ok mm" and u: "pte_update f mm pgn = (0, mm')"
  shows "pgn < PAGING_MAX_PGN \<and> pt_ok mm' \<and> rest mm' = rest mm \<and>
     pte_at mm' = (pte_at mm)(pgn := f (pte_at mm pgn))"
proof -
  obtain v m where w: "pte_walk mm pgn True = (v, m)" by (metis prod.exhaust)
  with u obtain x where v: "v = Some x" by (cases v) (auto simp: pte_update_def)
  from pte_walk_alloc [OF ok w] v obtain root where
    k: "pt_ok m" "rest m = rest mm" "pte_at m = pte_at mm" "pgn < PAGING_MAX_PGN" "x = pte_at mm pgn"
    and r: "pgd m = Some root" "dir_reach (pd_path pgn) root" by auto
  from pte_store_at [OF k(1,4) r, of "f x"] show ?thesis
    using u w v k by (simp add: pte_update_def)
qed

lemma pte_update_fails:
  assumes "pt_ok mm" and "pte_update f mm pgn = (r, mm')" and "r \<noteq> 0"
  shows "r = -1 \<and> pt_ok mm' \<and> rest mm' = rest mm \<and> pte_at mm' = pte_at mm \<and>
      (pgd mm = None \<or> PAGING_MAX_PGN \<le> pgn \<or> (\<exists>k. \<not> calloc_ok mm k))"
proof -
  obtain v m where w: "pte_walk mm pgn True = (v, m)" by (metis prod.exhaust)
  with assms(2,3) have v: "v = None" by (cases v) (auto simp: pte_update_def)
  from pte_walk_alloc [OF assms(1) w] show ?thesis using assms(2) w v by (auto simp: pte_update_def)
qed

lemma setters_update:
  "pte_set_fpn mm pgn fpn = pte_update (\<lambda>p. fpn_pte p fpn) mm pgn"
  "pte_set_swap mm pgn t off = pte_update (\<lambda>p. swap_pte p t off) mm pgn"
  "pte_set_entry mm pgn u = pte_update (\<lambda>_. ucast u) mm pgn"
  by (simp_all add: pte_set_fpn_def pte_set_swap_def pte_set_entry_def pte_update_def)

interpretation set_fpn: page_table pte_set_fpn fpn_pte
  by unfold_locales (unfold setters_update, erule (1) pte_update_done, erule (2) pte_update_fails)

interpretation set_swap: page_table "\<lambda>mm pgn (t, off). pte_set_swap mm pgn t off" "\<lambda>p (t, off). swap_pte p t off"
  by unfold_locales
     (unfold setters_update case_prod_beta, erule (1) pte_update_done, erule (2) pte_update_fails)

interpretation set_entry: page_table pte_set_entry "\<lambda>_ u. ucast u"
  by unfold_locales (unfold setters_update, erule (1) pte_update_done, erule (2) pte_update_fails)

section \<open>A fresh page table\<close>

definition demo_mm :: mm_struct where
  "demo_mm = \<lparr>pgd = Some (zero_dir 5), mm64_walk_count = 0, mm64_mem_access_count = 0,
     mm64_dir_alloc_count = 1, mm64_bytes_alloc = 4096, mmap = [], symrgtbl = [], fifo_pgn = [],
     calloc_ok = (\<lambda>_. True), calloc_n = 0\<rparr>"

lemma demo_mm_ok: "pt_ok demo_mm" "pgd demo_mm \<noteq> None" "\<forall>k. calloc_ok demo_mm k"
  by (simp_all add: demo_mm_def pt_ok_def dir_pages_def)

lemma demo_pgn: "3 < PAGING_MAX_PGN"
  by (simp add: PAGING_MAX_PGN_eq)

lemma unat_PAGING_FPN_entry:
  "unat (ucast (take_bit 13 (f :: addr_t)) :: u32) = unat f mod 8192"
  by (simp only: unsigned_ucast_eq unat_take_bit_mod) (simp add: take_bit_eq_mod)

lemma unat_PAGING_SWP_entry:
  "unat (ucast (take_bit 21 (f :: addr_t)) :: u32) = unat f mod 2097152"
  by (simp only: unsigned_ucast_eq unat_take_bit_mod) (simp add: take_bit_eq_mod)

section \<open>Properties\<close>

text \<open>
  Property C23: mapping a page to a frame. After a successful \<^verbatim>\<open>pte_set_fpn\<close> the entry of
  that page reads back as present, not swapped, with the frame number reduced to the 13 bits
  of the FPN field, and the entry of every other page reads as before. Frame numbers from 8192
  on therefore alias.
\<close>

theorem pte_fpn_roundtrip:
  assumes "pt_ok mm" and "pte_set_fpn mm pgn fpn = (0, mm')"
  shows "let pte = fst (pte_get_entry mm' pgn) in
           PAGING_PAGE_PRESENT pte \<and> \<not> PAGING_PAGE_SWAPPED pte \<and>
           unat (PAGING_FPN pte) = unat fpn mod 8192 \<and> pt_ok mm' \<and>
           (\<forall>p. p = pgn \<or> fst (pte_get_entry mm' p) = fst (pte_get_entry mm p))"
  using set_fpn.set_read [OF assms] set_fpn.set_done [OF assms]
  by (simp_all add: Let_def fpn_pte_fields unat_PAGING_FPN_entry)

theorem pte_fpn_roundtrip_witness:
  "let pte = fst (pte_get_entry (snd (pte_set_fpn demo_mm 3 8195)) 3) in
     PAGING_PAGE_PRESENT pte \<and> \<not> PAGING_PAGE_SWAPPED pte \<and> unat (PAGING_FPN pte) = unat (8195 :: addr_t) mod 8192"
proof -
  have "pte_set_fpn demo_mm 3 8195 = (0, snd (pte_set_fpn demo_mm 3 8195))"
    by (simp add: prod_eq_iff set_fpn.set_total demo_mm_ok demo_pgn)
  from pte_fpn_roundtrip [OF demo_mm_ok(1) this] show ?thesis by (simp only: Let_def) blast
qed

text \<open>
  Recording a swapped page. After a successful \<^verbatim>\<open>pte_set_swap\<close> the entry reads
  back as swapped and not present, with the swap offset in its 21 bits and the swap type in its
  5 bits, and no other entry changed.
\<close>

lemma pte_swap_roundtrip:
  assumes "pt_ok mm" and "pte_set_swap mm pgn swptyp swpoff = (0, mm')"
  shows "let pte = fst (pte_get_entry mm' pgn) in
           \<not> PAGING_PAGE_PRESENT pte \<and> PAGING_PAGE_SWAPPED pte \<and>
           unat (PAGING_SWP pte) = unat swpoff mod 2097152 \<and>
           GETVAL pte PAGING_PTE_SWPTYP_MASK 0 = ucast (take_bit 5 (u64_of_int swptyp)) \<and>
           (\<forall>p. p = pgn \<or> fst (pte_get_entry mm' p) = fst (pte_get_entry mm p))"
  using set_swap.set_read [of mm pgn "(swptyp, swpoff)"] assms
  by (simp add: Let_def swap_pte_fields unat_PAGING_SWP_entry)

text \<open>
  When the setters succeed. For a page below the limit of 16384 pages, in a
  process that has a root directory, \<^verbatim>\<open>pte_set_fpn\<close>, \<^verbatim>\<open>pte_set_swap\<close> and \<^verbatim>\<open>pte_set_entry\<close> can
  only fail because \<^verbatim>\<open>calloc\<close> does; for a page beyond the limit they return -1 and leave the
  memory descriptor as it is.
\<close>

lemma pte_set_total:
  assumes "pt_ok mm" and "pgd mm \<noteq> None"
  shows "if PAGING_MAX_PGN \<le> pgn
         then pte_set_fpn mm pgn fpn = (-1, mm) \<and> pte_set_swap mm pgn t off = (-1, mm) \<and>
              pte_set_entry mm pgn u = (-1, mm)
         else (\<exists>k. \<not> calloc_ok mm k) \<or>
              (fst (pte_set_fpn mm pgn fpn) = 0 \<and> fst (pte_set_swap mm pgn t off) = 0 \<and>
               fst (pte_set_entry mm pgn u) = 0)"
proof (cases "PAGING_MAX_PGN \<le> pgn")
  case True
  then show ?thesis by (simp add: setters_update pte_update_def pte_walk_def split: option.splits)
next
  case False
  then have "pgn < PAGING_MAX_PGN" by simp
  then show ?thesis
    using False set_fpn.set_total [OF assms, of pgn fpn] set_swap.set_total [OF assms, of pgn "(t, off)"]
      set_entry.set_total [OF assms, of pgn u]
    by simp blast
qed

text \<open>
  The statistics of a walk are truthful. A walk that finds the entry costs one
  walk and exactly five memory accesses, one per level, whether or not directories were
  created on the way.
\<close>

lemma walk_accounting:
  assumes "pte_walk mm pgn alloc = (Some x, mm')"
  shows "mm64_walk_count mm' = mm64_walk_count mm + 1 \<and>
         mm64_mem_access_count mm' = mm64_mem_access_count mm + 5"
  using assms dir_walk_accesses [of alloc "pd_path pgn"]
  by (fastforce simp: pte_walk_def split: option.splits if_splits prod.splits)

section \<open>Sequences of operations\<close>

text \<open>The operations on a table, to speak of every table a process can build.\<close>

datatype pt_op =
    SetFpn addr_t addr_t
  | SetSwap addr_t int addr_t
  | SetEntry addr_t u32
  | GetEntry addr_t

fun pt_run :: "pt_op list \<Rightarrow> mm_struct \<Rightarrow> mm_struct" where
  "pt_run [] mm = mm"
| "pt_run (SetFpn pgn fpn # ops) mm = pt_run ops (snd (pte_set_fpn mm pgn fpn))"
| "pt_run (SetSwap pgn t off # ops) mm = pt_run ops (snd (pte_set_swap mm pgn t off))"
| "pt_run (SetEntry pgn u # ops) mm = pt_run ops (snd (pte_set_entry mm pgn u))"
| "pt_run (GetEntry pgn # ops) mm = pt_run ops (snd (pte_get_entry mm pgn))"

lemma pt_run_ok: "pt_ok mm \<Longrightarrow> pt_ok (pt_run ops mm) \<and> rest (pt_run ops mm) = rest mm"
proof (induction ops mm rule: pt_run.induct)
  case (3 pgn t off ops mm)
  then show ?case using set_swap.set_keeps [of mm pgn "(t, off)"] by simp
next
  case (5 pgn ops mm)
  then show ?case using pte_get_entry_at [of mm pgn "fst (pte_get_entry mm pgn)" "snd (pte_get_entry mm pgn)"] by simp
qed (simp_all add: set_fpn.set_keeps set_entry.set_keeps)

lemma destroy_pages:
  "pt_ok mm \<Longrightarrow> pgd mm \<noteq> None \<Longrightarrow> mm64_dir_alloc_count mm = of_nat (fst (mm64_destroy_pgd_tree mm)) \<and>
     mm64_bytes_alloc mm = 4096 * of_nat (fst (mm64_destroy_pgd_tree mm))"
  by (auto simp: pt_ok_def mm64_destroy_pgd_tree_def dir_pages_def)

end
