(* ===== verification/Memphy.thy ===== *)
theory Memphy
  imports Common
begin

text \<open>
  The physical memory devices of src/mm-memphy.c: byte access, the formatting of a device
  into frames, the list of free frames. A device is passed by pointer; \<open>None\<close> stands for
  the NULL the access functions test for. The lock \<^verbatim>\<open>mem_lock\<close> makes each function one
  atomic step. A successful access outside the storage buffer is undefined behaviour.
\<close>

section \<open>Byte access\<close>

text \<open>\<^verbatim>\<open>mp->storage[addr]\<close>, read and written.\<close>

definition load_byte :: "memphy_struct \<Rightarrow> addr_t \<Rightarrow> byte option" where
  "load_byte mp addr = do { st \<leftarrow> storage mp; st addr }"

definition store_byte :: "memphy_struct \<Rightarrow> addr_t \<Rightarrow> byte \<Rightarrow> memphy_struct option" where
  "store_byte mp addr b =
     do { st \<leftarrow> storage mp; _ \<leftarrow> st addr; Some (mp\<lparr>storage := Some (st(addr \<mapsto> b))\<rparr>) }"

text \<open>The loop of \<^verbatim>\<open>MEMPHY_mv_csr\<close>: \<^verbatim>\<open>numstep\<close> counts up to \<^verbatim>\<open>offset\<close> or \<^verbatim>\<open>maxsz\<close>.\<close>

function mv_csr_loop :: "int \<Rightarrow> addr_t \<Rightarrow> memphy_struct \<Rightarrow> memphy_struct" where
  "mv_csr_loop numstep offset mp =
     (if u64_of_int numstep < offset \<and> numstep < maxsz mp
      then mv_csr_loop (numstep + 1) offset (mp\<lparr>cursor := (cursor mp + 1) smod maxsz mp\<rparr>)
      else mp)"
  by pat_completeness auto
termination
  by (relation "measure (\<lambda>(n, a, mp). nat (maxsz mp - n))") auto

declare mv_csr_loop.simps [simp del]

definition MEMPHY_mv_csr :: "memphy_struct \<Rightarrow> addr_t \<Rightarrow> int \<times> memphy_struct" where
  "MEMPHY_mv_csr mp offset = (0, mv_csr_loop 0 offset (mp\<lparr>cursor := 0\<rparr>))"

text \<open>
  The read functions write through \<^verbatim>\<open>value\<close> only on success; the result carries the byte
  \<^verbatim>\<open>*value\<close> holds afterwards.
\<close>

definition MEMPHY_seq_read :: "memphy_struct option \<Rightarrow> addr_t \<Rightarrow> byte \<Rightarrow> (int \<times> memphy_struct option \<times> byte) option" where
  "MEMPHY_seq_read mpp addr val =
     (case mpp of None \<Rightarrow> Some (-1, None, val)
      | Some mp \<Rightarrow>
          if rdmflg mp \<noteq> 0 then Some (-1, Some mp, val)
          else do {
            let mp1 = snd (MEMPHY_mv_csr mp addr);
            b \<leftarrow> load_byte mp1 addr;
            Some (0, Some mp1, b)
          })"

definition MEMPHY_read :: "memphy_struct option \<Rightarrow> addr_t \<Rightarrow> byte \<Rightarrow> (int \<times> memphy_struct option \<times> byte) option" where
  "MEMPHY_read mpp addr val =
     (case mpp of None \<Rightarrow> Some (-1, None, val)
      | Some mp \<Rightarrow>
          if rdmflg mp \<noteq> 0 then do { b \<leftarrow> load_byte mp addr; Some (0, Some mp, b) }
          else MEMPHY_seq_read (Some mp) addr val)"

definition MEMPHY_seq_write :: "memphy_struct option \<Rightarrow> addr_t \<Rightarrow> byte \<Rightarrow> (int \<times> memphy_struct option) option" where
  "MEMPHY_seq_write mpp addr val =
     (case mpp of None \<Rightarrow> Some (-1, None)
      | Some mp \<Rightarrow>
          if rdmflg mp \<noteq> 0 then Some (-1, Some mp)
          else do {
            let mp1 = snd (MEMPHY_mv_csr mp addr);
            mp2 \<leftarrow> store_byte mp1 addr val;
            Some (0, Some mp2)
          })"

definition MEMPHY_write :: "memphy_struct option \<Rightarrow> addr_t \<Rightarrow> byte \<Rightarrow> (int \<times> memphy_struct option) option" where
  "MEMPHY_write mpp addr data =
     (case mpp of None \<Rightarrow> Some (-1, None)
      | Some mp \<Rightarrow>
          if rdmflg mp \<noteq> 0 then do { mp1 \<leftarrow> store_byte mp addr data; Some (0, Some mp1) }
          else MEMPHY_seq_write (Some mp) addr data)"

section \<open>Frames\<close>

text \<open>The loop that appends the frames \<open>iter .. numfp - 1\<close> at the end of the list.\<close>

function format_loop :: "int \<Rightarrow> int \<Rightarrow> addr_t list \<Rightarrow> addr_t list" where
  "format_loop iter numfp fps =
     (if iter < numfp then format_loop (iter + 1) numfp (fps @ [u64_of_int iter]) else fps)"
  by pat_completeness auto
termination
  by (relation "measure (\<lambda>(i, n, fps). nat (n - i))") auto

declare format_loop.simps [simp del]

definition MEMPHY_format :: "memphy_struct \<Rightarrow> int \<Rightarrow> int \<times> memphy_struct" where
  "MEMPHY_format mp pagesz =
     (let numfp = maxsz mp sdiv pagesz
      in if numfp \<le> 0 then (-1, mp)
         else (0, mp\<lparr>free_fp_list := format_loop 1 numfp [0]\<rparr>))"

text \<open>\<^verbatim>\<open>*retfpn\<close> is written only on success.\<close>

definition MEMPHY_get_freefp :: "memphy_struct \<Rightarrow> addr_t \<Rightarrow> int \<times> memphy_struct \<times> addr_t" where
  "MEMPHY_get_freefp mp retfpn =
     (case free_fp_list mp of
        [] \<Rightarrow> (-1, mp, retfpn)
      | fp # fps \<Rightarrow> (0, mp\<lparr>free_fp_list := fps\<rparr>, fp))"

definition MEMPHY_put_freefp :: "memphy_struct \<Rightarrow> addr_t \<Rightarrow> int \<times> memphy_struct" where
  "MEMPHY_put_freefp mp fpn = (0, mp\<lparr>free_fp_list := fpn # free_fp_list mp\<rparr>)"

text \<open>
  \<^verbatim>\<open>init_memphy\<close> allocates \<^verbatim>\<open>max_size\<close> zero bytes, but keeps the size in an \<^verbatim>\<open>int\<close>. The
  cursor is set only on a sequential device.
\<close>

definition init_memphy :: "memphy_struct \<Rightarrow> addr_t \<Rightarrow> int \<Rightarrow> int \<times> memphy_struct" where
  "init_memphy mp max_size randomflg =
     (let mp1 = mp\<lparr>storage := Some (\<lambda>a. if a < max_size then Some 0 else None),
                   maxsz := int_of_u64 max_size,
                   free_fp_list := [], used_fp_list := []\<rparr>;
          mp2 = snd (MEMPHY_format mp1 (uint PAGING_PAGESZ));
          mp3 = mp2\<lparr>rdmflg := (if randomflg \<noteq> 0 then 1 else 0)\<rparr>
      in (0, if rdmflg mp3 = 0 then mp3\<lparr>cursor := 0\<rparr> else mp3))"

text \<open>
  \<^verbatim>\<open>finish_memphy\<close> frees both frame lists and the storage buffer.
\<close>

definition finish_memphy :: "memphy_struct option \<Rightarrow> memphy_struct option" where
  "finish_memphy mpp =
     map_option (\<lambda>mp. mp\<lparr>free_fp_list := [], used_fp_list := [], storage := None\<rparr>) mpp"

text \<open>
  \<^verbatim>\<open>MEMPHY_dump\<close> prints the non-zero bytes below \<^verbatim>\<open>maxsz\<close>: the lines it prints, as pairs of
  address and byte, in order. The empty list is the line that says the memory is empty.
\<close>

fun dump_loop :: "memphy_struct \<Rightarrow> addr_t list \<Rightarrow> (addr_t \<times> byte) list option" where
  "dump_loop mp [] = Some []"
| "dump_loop mp (a # as) =
     do {
       b \<leftarrow> load_byte mp a;
       rest \<leftarrow> dump_loop mp as;
       Some (if b \<noteq> 0 then (a, b) # rest else rest)
     }"

definition MEMPHY_dump :: "memphy_struct option \<Rightarrow> (int \<times> (addr_t \<times> byte) list) option" where
  "MEMPHY_dump mpp =
     (case mpp of None \<Rightarrow> Some (-1, [])
      | Some mp \<Rightarrow>
          if storage mp = None then Some (-1, [])
          else map_option (\<lambda>out. (0, out)) (dump_loop mp (map u64_of_int [0..maxsz mp - 1])))"

section \<open>Sequential access\<close>

lemma mv_csr_loop_fields [simp]:
  "storage (mv_csr_loop n a mp) = storage mp" "maxsz (mv_csr_loop n a mp) = maxsz mp"
  "rdmflg (mv_csr_loop n a mp) = rdmflg mp" "free_fp_list (mv_csr_loop n a mp) = free_fp_list mp"
  "used_fp_list (mv_csr_loop n a mp) = used_fp_list mp"
  by (induction n a mp rule: mv_csr_loop.induct; subst mv_csr_loop.simps; simp)+

lemma mv_csr_loop_cursor:
  assumes "0 \<le> n" and "n \<le> min (uint a) (maxsz mp)" and "0 < maxsz mp" and "maxsz mp < 2 ^ 31"
    and "cursor mp = n mod maxsz mp"
  shows "cursor (mv_csr_loop n a mp) = min (uint a) (maxsz mp) mod maxsz mp"
  using assms
proof (induction n a mp rule: mv_csr_loop.induct)
  case (1 n a mp)
  have u: "u64_of_int n < a \<longleftrightarrow> n < uint a"
    using 1(2,3,5) by (simp add: word_less_def u64_of_int_def uint_word_of_int)
  show ?case
  proof (cases "n < uint a \<and> n < maxsz mp")
    case True
    have c: "(n mod maxsz mp + 1) smod maxsz mp = (n + 1) mod maxsz mp"
    proof -
      have "0 \<le> n mod maxsz mp + 1" using 1(4) by (simp add: pos_mod_sign add_nonneg_nonneg)
      then have "(n mod maxsz mp + 1) smod maxsz mp = (n mod maxsz mp + 1) mod maxsz mp"
        using 1(4) by (simp add: signed_modulo_int_def)
      then show ?thesis by (simp add: mod_simps)
    qed
    have "cursor (mv_csr_loop (n + 1) a (mp\<lparr>cursor := (cursor mp + 1) smod maxsz mp\<rparr>)) =
        min (uint a) (maxsz mp) mod maxsz mp"
      using 1(1) True u 1(2-6) c by simp
    then show ?thesis using True u by (subst mv_csr_loop.simps) simp
  next
    case False
    then have "mv_csr_loop n a mp = mp" using u by (subst mv_csr_loop.simps) auto
    moreover have "n = min (uint a) (maxsz mp)" using False 1(3) by auto
    ultimately show ?thesis using 1(6) by simp
  qed
qed

text \<open>
  A sequential device moves its cursor by single steps and stops at the
  requested address. For an address inside the device the loop of \<^verbatim>\<open>MEMPHY_mv_csr\<close> ends
  with the cursor on that address; past the end it stops after one full turn, at 0.
\<close>

lemma mv_csr_reaches:
  assumes "0 < maxsz mp" and "maxsz mp < 2 ^ 31"
  shows "fst (MEMPHY_mv_csr mp a) = 0 \<and>
    cursor (snd (MEMPHY_mv_csr mp a)) = (if uint a < maxsz mp then uint a else 0)"
proof -
  have "cursor (mv_csr_loop 0 a (mp\<lparr>cursor := 0\<rparr>)) = min (uint a) (maxsz mp) mod maxsz mp"
    using assms mv_csr_loop_cursor [of 0 a "mp\<lparr>cursor := 0\<rparr>"] by simp
  then show ?thesis by (simp add: MEMPHY_mv_csr_def min_def)
qed

definition blank_dev :: memphy_struct where
  "blank_dev = \<lparr>storage = None, maxsz = 0, rdmflg = 0, cursor = 0, free_fp_list = [], used_fp_list = []\<rparr>"

section \<open>Devices as byte arrays\<close>

text \<open>
  A device as \<^verbatim>\<open>init_memphy\<close> leaves it: its buffer holds exactly the addresses below
  \<^verbatim>\<open>maxsz\<close>. \<open>frames_ok\<close>: the free list names each frame at most once, and only frames that
  lie wholly inside the device.
\<close>

definition wf_dev :: "memphy_struct \<Rightarrow> bool" where
  "wf_dev mp \<longleftrightarrow> 0 < maxsz mp \<and> maxsz mp < 2 ^ 31 \<and>
     (\<exists>st. storage mp = Some st \<and> (\<forall>a. st a \<noteq> None \<longleftrightarrow> uint a < maxsz mp))"

definition num_frames :: "memphy_struct \<Rightarrow> int" where
  "num_frames mp = maxsz mp div 256"

definition frames_ok :: "memphy_struct \<Rightarrow> bool" where
  "frames_ok mp \<longleftrightarrow> distinct (free_fp_list mp) \<and> (\<forall>f \<in> set (free_fp_list mp). uint f < num_frames mp)"

lemma load_byte_defined: "wf_dev mp \<Longrightarrow> uint a < maxsz mp \<longleftrightarrow> load_byte mp a \<noteq> None"
  by (auto simp: wf_dev_def load_byte_def)

lemma store_byte_spec:
  assumes "wf_dev mp" and "uint a < maxsz mp"
  obtains mp' where "store_byte mp a b = Some mp'" and "wf_dev mp'"
    and "load_byte mp' = (load_byte mp)(a \<mapsto> b)" and "maxsz mp' = maxsz mp"
    and "free_fp_list mp' = free_fp_list mp" and "rdmflg mp' = rdmflg mp"
    and "used_fp_list mp' = used_fp_list mp"
proof -
  from assms obtain st where st: "storage mp = Some st" "\<forall>a. st a \<noteq> None \<longleftrightarrow> uint a < maxsz mp"
    by (auto simp: wf_dev_def)
  then obtain c where "st a = Some c" using assms(2) by (metis not_None_eq)
  then have e: "store_byte mp a b = Some (mp\<lparr>storage := Some (st(a \<mapsto> b))\<rparr>)"
    using st by (simp add: store_byte_def)
  have "wf_dev (mp\<lparr>storage := Some (st(a \<mapsto> b))\<rparr>)"
    using assms st by (auto simp: wf_dev_def)
  moreover have "load_byte (mp\<lparr>storage := Some (st(a \<mapsto> b))\<rparr>) = (load_byte mp)(a \<mapsto> b)"
    using st by (auto simp: load_byte_def fun_eq_iff)
  ultimately show thesis using e that by simp
qed

lemma store_byte_outside: "wf_dev mp \<Longrightarrow> \<not> uint a < maxsz mp \<Longrightarrow> store_byte mp a b = None"
  by (auto simp: wf_dev_def store_byte_def bind_eq_None_conv)

text \<open>
  The contract of a byte-addressed device: inside \<open>valid\<close>, a write succeeds, changes that
  byte and no other, and keeps the device readable at the same addresses.
\<close>

locale byte_device =
  fixes rd :: "'d \<Rightarrow> addr_t \<Rightarrow> byte option"
    and wr :: "'d \<Rightarrow> addr_t \<Rightarrow> byte \<Rightarrow> 'd option"
    and valid :: "'d \<Rightarrow> addr_t \<Rightarrow> bool"
  assumes rd_valid: "valid d a \<Longrightarrow> \<exists>b. rd d a = Some b"
    and wr_valid: "valid d a \<Longrightarrow>
      \<exists>d'. wr d a b = Some d' \<and> valid d' = valid d \<and> (\<forall>x. valid d x \<longrightarrow> rd d' x = (if x = a then Some b else rd d x))"
begin

lemma read_after_write: "valid d a \<Longrightarrow> wr d a b = Some d' \<Longrightarrow> rd d' a = Some b"
  using wr_valid [of d a b] by auto

lemma read_other: "valid d a \<Longrightarrow> valid d x \<Longrightarrow> x \<noteq> a \<Longrightarrow> wr d a b = Some d' \<Longrightarrow> rd d' x = rd d x"
  using wr_valid [of d a b] by auto

end

text \<open>The two access functions of the device, for either kind, as seen by a caller.\<close>

definition dev_read :: "memphy_struct \<Rightarrow> addr_t \<Rightarrow> byte option" where
  "dev_read mp a = map_option (\<lambda>(_, _, b). b) (MEMPHY_read (Some mp) a 0)"

definition dev_write :: "memphy_struct \<Rightarrow> addr_t \<Rightarrow> byte \<Rightarrow> memphy_struct option" where
  "dev_write mp a b = map_option (\<lambda>(_, mp'). the mp') (MEMPHY_write (Some mp) a b)"

lemma load_byte_mv_csr [simp]: "load_byte (snd (MEMPHY_mv_csr mp a)) = load_byte mp"
  by (simp add: fun_eq_iff load_byte_def MEMPHY_mv_csr_def)

lemma mv_csr_fields [simp]:
  "maxsz (snd (MEMPHY_mv_csr mp a)) = maxsz mp" "rdmflg (snd (MEMPHY_mv_csr mp a)) = rdmflg mp"
  "free_fp_list (snd (MEMPHY_mv_csr mp a)) = free_fp_list mp"
  "used_fp_list (snd (MEMPHY_mv_csr mp a)) = used_fp_list mp"
  "wf_dev (snd (MEMPHY_mv_csr mp a)) = wf_dev mp"
  by (simp_all add: MEMPHY_mv_csr_def wf_dev_def)

lemma MEMPHY_read_spec:
  assumes "wf_dev mp" and "uint a < maxsz mp"
  obtains mp' b where "MEMPHY_read (Some mp) a v = Some (0, Some mp', b)" and "load_byte mp a = Some b"
    and "load_byte mp' = load_byte mp" and "wf_dev mp'" and "maxsz mp' = maxsz mp"
    and "free_fp_list mp' = free_fp_list mp" and "rdmflg mp \<noteq> 0 \<Longrightarrow> mp' = mp"
    and "rdmflg mp' = rdmflg mp"
proof -
  from assms load_byte_defined obtain b where b: "load_byte mp a = Some b" by blast
  show thesis
  proof (cases "rdmflg mp = 0")
    case True
    then show ?thesis
      using b assms by (intro that [of "snd (MEMPHY_mv_csr mp a)" b]) (auto simp: MEMPHY_read_def MEMPHY_seq_read_def Let_def)
  next
    case False
    then show ?thesis using b assms by (intro that [of mp b]) (auto simp: MEMPHY_read_def)
  qed
qed

lemma MEMPHY_write_spec:
  assumes "wf_dev mp" and "uint a < maxsz mp"
  obtains mp' where "MEMPHY_write (Some mp) a v = Some (0, Some mp')"
    and "load_byte mp' = (load_byte mp)(a \<mapsto> v)" and "wf_dev mp'" and "maxsz mp' = maxsz mp"
    and "free_fp_list mp' = free_fp_list mp" and "rdmflg mp' = rdmflg mp"
proof (cases "rdmflg mp = 0")
  case True
  obtain mp' where "store_byte (snd (MEMPHY_mv_csr mp a)) a v = Some mp'" "wf_dev mp'"
    "load_byte mp' = (load_byte (snd (MEMPHY_mv_csr mp a)))(a \<mapsto> v)" "maxsz mp' = maxsz (snd (MEMPHY_mv_csr mp a))"
    "free_fp_list mp' = free_fp_list (snd (MEMPHY_mv_csr mp a))" "rdmflg mp' = rdmflg (snd (MEMPHY_mv_csr mp a))"
    using store_byte_spec [of "snd (MEMPHY_mv_csr mp a)" a v] assms by auto
  then show ?thesis
    using True that [of mp'] by (simp add: MEMPHY_write_def MEMPHY_seq_write_def Let_def)
next
  case False
  obtain mp' where "store_byte mp a v = Some mp'" "wf_dev mp'" "load_byte mp' = (load_byte mp)(a \<mapsto> v)"
    "maxsz mp' = maxsz mp" "free_fp_list mp' = free_fp_list mp" "rdmflg mp' = rdmflg mp"
    using store_byte_spec [OF assms, of v] by metis
  then show ?thesis using False that [of mp'] by (simp add: MEMPHY_write_def)
qed

interpretation phy_dev: byte_device dev_read dev_write "\<lambda>mp a. wf_dev mp \<and> uint a < maxsz mp"
proof (unfold_locales, goal_cases)
  case (1 d a)
  then obtain mp' b where "MEMPHY_read (Some d) a 0 = Some (0, Some mp', b)"
    using MEMPHY_read_spec [of d a 0] by metis
  then show ?case by (simp add: dev_read_def)
next
  case (2 d a b)
  then obtain d' where w: "MEMPHY_write (Some d) a b = Some (0, Some d')" "load_byte d' = (load_byte d)(a \<mapsto> b)"
    "wf_dev d'" "maxsz d' = maxsz d" using MEMPHY_write_spec [of d a b] by metis
  have rd: "dev_read m x = load_byte m x" if "wf_dev m" "uint x < maxsz m" for m x
    using MEMPHY_read_spec [OF that, of 0] by (metis (no_types, lifting) case_prod_conv dev_read_def option.simps(9))
  show ?case
    using w 2 rd [of d'] rd [of d] by (auto simp: dev_write_def fun_eq_iff intro!: exI [of _ d'])
qed

text \<open>
  Property C29: physical memory holds what was written. On a device set up by
  \<^verbatim>\<open>init_memphy\<close>, sequential or random access, and for any address below \<^verbatim>\<open>maxsz\<close>,
  \<^verbatim>\<open>MEMPHY_write\<close> succeeds; afterwards \<^verbatim>\<open>MEMPHY_read\<close> returns the byte written at that
  address and the old byte at every other.
\<close>

theorem memphy_read_after_write:
  assumes "wf_dev mp" and "uint a < maxsz mp"
  shows "\<exists>mp'. MEMPHY_write (Some mp) a v = Some (0, Some mp') \<and> wf_dev mp' \<and>
    dev_read mp' a = Some v \<and>
    (\<forall>x. x = a \<or> maxsz mp \<le> uint x \<or> dev_read mp' x = dev_read mp x)"
proof -
  obtain mp' where w: "MEMPHY_write (Some mp) a v = Some (0, Some mp')" "wf_dev mp'"
    using MEMPHY_write_spec [OF assms, of v] by metis
  then have d: "dev_write mp a v = Some mp'" by (simp add: dev_write_def)
  have "dev_read mp' x = dev_read mp x" if "uint x < maxsz mp" "x \<noteq> a" for x
    using phy_dev.read_other [OF _ _ that(2) d] assms that by blast
  moreover have "dev_read mp' a = Some v"
    using phy_dev.read_after_write [OF _ d] assms by blast
  ultimately show ?thesis using w by (auto simp: not_less [symmetric])
qed

section \<open>Formatting\<close>

lemma format_loop_eq: "format_loop i n fps = fps @ map u64_of_int [i..n - 1]"
proof (induction i n fps rule: format_loop.induct)
  case (1 i n fps)
  show ?case
  proof (cases "i < n")
    case True
    then have "[i..n - 1] = i # [i + 1..n - 1]" by (simp add: upto_rec1)
    with True 1 show ?thesis by (subst format_loop.simps) simp
  qed (subst format_loop.simps, simp)
qed

lemma uint_u64_of_int: "0 \<le> i \<Longrightarrow> i < 2 ^ 64 \<Longrightarrow> uint (u64_of_int i) = i"
  by (simp add: u64_of_int_def uint_word_of_int)

lemma frame_numbers:
  assumes "n \<le> 2 ^ 31"
  shows "distinct (map u64_of_int [0..n - 1])" and "f \<in> set (map u64_of_int [0..n - 1]) \<Longrightarrow> uint f < n"
proof -
  have u: "uint (u64_of_int i) = i" if "i \<in> {0..n - 1}" for i
    using that assms by (intro uint_u64_of_int) auto
  have "inj_on u64_of_int {0..n - 1}"
    by (rule inj_on_inverseI [where g = uint]) (rule u)
  then show "distinct (map u64_of_int [0..n - 1])" by (simp add: distinct_map)
  show "f \<in> set (map u64_of_int [0..n - 1]) \<Longrightarrow> uint f < n"
    using u by auto
qed

lemma init_memphy_eq:
  assumes "256 \<le> uint sz" and "uint sz < 2 ^ 31"
  shows "snd (init_memphy mp sz flg) = mp\<lparr>storage := Some (\<lambda>a. if a < sz then Some 0 else None),
     maxsz := uint sz, free_fp_list := map u64_of_int [0..uint sz div 256 - 1], used_fp_list := [],
     rdmflg := (if flg \<noteq> 0 then 1 else 0), cursor := (if flg \<noteq> 0 then cursor mp else 0)\<rparr>"
proof -
  have "0 < uint sz" using assms(1) by linarith
  then have d: "uint sz sdiv 256 = uint sz div 256"
    unfolding signed_divide_int_def by (simp only: sgn_pos abs_of_pos)
  have "1 \<le> uint sz div 256" using zdiv_mono1 [OF assms(1), of 256] by simp
  then have "0 < uint sz div 256" by simp
  then have "[0..uint sz div 256 - 1] = 0 # [1..uint sz div 256 - 1]" by (simp add: upto_rec1)
  moreover have "sz \<noteq> 0" using assms(1) by auto
  ultimately show ?thesis
    using assms d \<open>0 < uint sz div 256\<close>
    by (simp add: init_memphy_def MEMPHY_format_def Let_def c_conv PAGING_PAGESZ_def format_loop_eq
        u64_of_int_def)
qed

lemma wf_init_memphy:
  assumes "256 \<le> uint sz" and "uint sz < 2 ^ 31"
  shows "wf_dev (snd (init_memphy mp sz flg))" and "frames_ok (snd (init_memphy mp sz flg))"
    and "num_frames (snd (init_memphy mp sz flg)) = uint sz div 256"
    and "free_fp_list (snd (init_memphy mp sz flg)) = map u64_of_int [0..uint sz div 256 - 1]"
    and "load_byte (snd (init_memphy mp sz flg)) = (\<lambda>a. if a < sz then Some 0 else None)"
    and "maxsz (snd (init_memphy mp sz flg)) = uint sz"
proof -
  have n: "uint sz div 256 \<le> 2 ^ 31" using assms(2) by simp
  note e = init_memphy_eq [OF assms, of mp flg]
  show "wf_dev (snd (init_memphy mp sz flg))"
    using assms by (auto simp: e wf_dev_def word_less_def split: if_splits)
  show "frames_ok (snd (init_memphy mp sz flg))"
    using frame_numbers [OF n] by (auto simp: e frames_ok_def num_frames_def)
  show "num_frames (snd (init_memphy mp sz flg)) = uint sz div 256"
    and "free_fp_list (snd (init_memphy mp sz flg)) = map u64_of_int [0..uint sz div 256 - 1]"
    and "maxsz (snd (init_memphy mp sz flg)) = uint sz"
    by (simp_all add: e num_frames_def)
  show "load_byte (snd (init_memphy mp sz flg)) = (\<lambda>a. if a < sz then Some 0 else None)"
    by (simp add: e load_byte_def fun_eq_iff)
qed

text \<open>A device of one kilobyte, random access.\<close>

definition demo_dev :: memphy_struct where
  "demo_dev = snd (init_memphy blank_dev 1024 1)"

lemma wf_demo_dev: "wf_dev demo_dev" "frames_ok demo_dev" "maxsz demo_dev = 1024"
  by (simp_all add: demo_dev_def wf_init_memphy)

theorem memphy_read_after_write_witness:
  "\<exists>mp'. MEMPHY_write (Some demo_dev) 700 65 = Some (0, Some mp') \<and> dev_read mp' 700 = Some 65"
  using memphy_read_after_write [OF wf_demo_dev(1), of 700 65] by (auto simp: wf_demo_dev)

text \<open>
  \<^verbatim>\<open>init_memphy\<close> on a size of at least one frame and below 2 GB. The device
  reads as zeros below its size, and its free list holds the frames \<open>0 .. size / 256 - 1\<close>
  in this order, each once, all inside the device.
\<close>

lemma init_memphy_formats:
  assumes "256 \<le> uint sz" and "uint sz < 2 ^ 31"
  shows "\<exists>mp'. init_memphy mp sz flg = (0, mp') \<and> wf_dev mp' \<and> frames_ok mp' \<and>
    free_fp_list mp' = map u64_of_int [0..uint sz div 256 - 1] \<and>
    (\<forall>a. a \<ge> sz \<or> dev_read mp' a = Some 0)"
proof -
  let ?mp = "snd (init_memphy mp sz flg)"
  note w = wf_init_memphy [OF assms, of mp flg]
  have "dev_read ?mp a = Some 0" if "\<not> a \<ge> sz" for a
  proof -
    have "uint a < maxsz ?mp" using that by (simp add: w(6) word_le_def not_le)
    then obtain mp' b where "MEMPHY_read (Some ?mp) a 0 = Some (0, Some mp', b)" "load_byte ?mp a = Some b"
      using MEMPHY_read_spec [OF w(1), of a 0] by metis
    then show ?thesis using that by (auto simp: dev_read_def w(5) not_le split: if_splits)
  qed
  moreover have "fst (init_memphy mp sz flg) = 0" by (simp add: init_memphy_def Let_def)
  ultimately show ?thesis
    using w by (intro exI [of _ ?mp]) (auto simp: prod_eq_iff)
qed

text \<open>
  The size of a device is truncated to an \<^verbatim>\<open>int\<close>. If the low 32 bits of the
  requested size, read as a signed number, are below one frame, \<^verbatim>\<open>init_memphy\<close> still
  returns 0, but the device has no frame at all. The legacy configuration
  (\<^verbatim>\<open>MM_FIXED_MEMSZ\<close> in src/os.c) asks for \<^verbatim>\<open>0x100000000\<close> bytes of RAM and gets none.
\<close>

lemma init_memphy_truncates:
  assumes "int_of_u64 sz < 256"
  shows "fst (init_memphy mp sz flg) = 0 \<and> maxsz (snd (init_memphy mp sz flg)) = int_of_u64 sz \<and>
    free_fp_list (snd (init_memphy mp sz flg)) = [] \<and>
    fst (MEMPHY_get_freefp (snd (init_memphy mp sz flg)) r) = -1"
proof -
  have "int_of_u64 sz sdiv 256 \<le> 0"
    using assms by (auto simp: signed_divide_int_def sgn_if)
  then show ?thesis
    by (auto simp: init_memphy_def MEMPHY_format_def Let_def PAGING_PAGESZ_def MEMPHY_get_freefp_def)
qed

section \<open>The free frame list\<close>

lemma get_freefp_Cons:
  "free_fp_list mp = f # fs \<Longrightarrow> MEMPHY_get_freefp mp r = (0, mp\<lparr>free_fp_list := fs\<rparr>, f)"
  by (simp add: MEMPHY_get_freefp_def)

lemma get_freefp_Nil: "free_fp_list mp = [] \<Longrightarrow> MEMPHY_get_freefp mp r = (-1, mp, r)"
  by (simp add: MEMPHY_get_freefp_def)

lemma put_freefp_fields [simp]:
  "free_fp_list (snd (MEMPHY_put_freefp mp f)) = f # free_fp_list mp"
  "storage (snd (MEMPHY_put_freefp mp f)) = storage mp" "maxsz (snd (MEMPHY_put_freefp mp f)) = maxsz mp"
  "rdmflg (snd (MEMPHY_put_freefp mp f)) = rdmflg mp"
  "load_byte (snd (MEMPHY_put_freefp mp f)) = load_byte mp"
  by (simp_all add: MEMPHY_put_freefp_def load_byte_def fun_eq_iff)

lemma load_byte_free_fp [simp]: "load_byte (mp\<lparr>free_fp_list := fs\<rparr>) = load_byte mp"
  by (simp add: load_byte_def fun_eq_iff)

lemma wf_dev_free_fp [simp]: "wf_dev (mp\<lparr>free_fp_list := fs\<rparr>) = wf_dev mp"
  by (simp add: wf_dev_def)

text \<open>The bytes of a frame of the device have addresses inside the device.\<close>

lemma frame_addr:
  fixes f off :: addr_t
  assumes "uint f < num_frames mp" and "maxsz mp < 2 ^ 31" and "uint off < 256"
  shows "uint (f * 256 + off) = uint f * 256 + uint off" and "uint (f * 256 + off) < maxsz mp"
proof -
  have "uint f + 1 \<le> maxsz mp div 256" using assms(1) by (simp add: num_frames_def)
  then have "(uint f + 1) * 256 \<le> maxsz mp div 256 * 256" by simp
  also have "\<dots> \<le> maxsz mp" by linarith
  finally have le: "uint f * 256 + uint off < maxsz mp" using assms(3) by simp
  have lt: "uint f * 256 + uint off < 18446744073709551616" using le assms(2) by simp
  then have "uint f * 256 < 18446744073709551616" using uint_ge_0 [of off] by linarith
  then have "uint (f * 256) = uint f * 256" by (simp add: uint_word_ariths)
  with lt show "uint (f * 256 + off) = uint f * 256 + uint off"
    by (simp add: uint_word_ariths)
  with le show "uint (f * 256 + off) < maxsz mp" by simp
qed

end
