(* ===== verification/Mm64.thy ===== *)
theory Mm64
  imports PageTable Memphy "HOL-Library.Multiset" "HOL-Library.Sublist"
begin

text \<open>
  The rest of src/mm64.c: mapping ranges of pages, allocating frames for them, copying a
  frame to the swap device, setting up the memory of a process. The functions work on the
  \<^verbatim>\<open>mm_struct\<close> of the caller and on \<^verbatim>\<open>krnl->mram\<close>; both are passed in and returned. The
  theorems say that no frame is lost or handed out twice on any path.

  Small nodes (\<^verbatim>\<open>malloc\<close> of a list cell) are taken to be granted; the directory pages are
  not (\<open>calloc_ok\<close>).
\<close>

section \<open>Mapping\<close>

definition enlist_pgn_node :: "addr_t list \<Rightarrow> addr_t \<Rightarrow> int \<times> addr_t list" where
  "enlist_pgn_node plist pgn = (0, pgn # plist)"

definition enlist_vm_rg_node :: "vm_rg_struct list \<Rightarrow> vm_rg_struct \<Rightarrow> int \<times> vm_rg_struct list" where
  "enlist_vm_rg_node rglist rgnode = (0, rgnode # rglist)"

text \<open>\<^verbatim>\<open>init_vm_rg\<close> leaves \<open>mode_bit\<close> as \<^verbatim>\<open>malloc\<close> returned it.\<close>

definition init_vm_rg :: "64 word \<Rightarrow> addr_t \<Rightarrow> addr_t \<Rightarrow> vm_rg_struct" where
  "init_vm_rg junk rgstart rgend = \<lparr>rg_start = rgstart, rg_end = rgend, mode_bit = junk\<rparr>"

definition memset_pattern :: u32 where
  "memset_pattern = PAGING_PTE_RESERVE_MASK OR 0x0000DEAD"

function memset_loop :: "int \<Rightarrow> int \<Rightarrow> addr_t \<Rightarrow> mm_struct \<Rightarrow> int \<times> mm_struct" where
  "memset_loop pgit pgnum pgn_start mm =
     (if pgit < pgnum
      then case pte_set_entry mm (pgn_start + u64_of_int pgit) memset_pattern of
             (r, mm1) \<Rightarrow> if r \<noteq> 0 then (-1, mm1) else memset_loop (pgit + 1) pgnum pgn_start mm1
      else (0, mm))"
  by pat_completeness auto
termination
  by (relation "measure (\<lambda>(i, n, s, mm). nat (n - i))") auto

declare memset_loop.simps [simp del]

definition vmap_pgd_memset :: "mm_struct \<Rightarrow> addr_t \<Rightarrow> int \<Rightarrow> int \<times> mm_struct" where
  "vmap_pgd_memset mm addr pgnum = memset_loop 0 pgnum (addr div PAGING_PAGESZ) mm"

text \<open>The two loops of \<^verbatim>\<open>vmap_page_range\<close>; the first also returns the frames left over.\<close>

fun map_loop :: "int \<Rightarrow> int \<Rightarrow> addr_t \<Rightarrow> addr_t list \<Rightarrow> mm_struct \<Rightarrow> memphy_struct \<Rightarrow>
    addr_t list \<times> mm_struct \<times> memphy_struct" where
  "map_loop pgit pgnum pgn_start [] mm mram = ([], mm, mram)"
| "map_loop pgit pgnum pgn_start (fpn # fpit) mm mram =
     (if pgit < pgnum
      then let pgn = pgn_start + u64_of_int pgit
           in case pte_set_fpn mm pgn fpn of
                (r, mm1) \<Rightarrow>
                  if r = 0
                  then map_loop (pgit + 1) pgnum pgn_start fpit
                         (mm1\<lparr>fifo_pgn := snd (enlist_pgn_node (fifo_pgn mm1) pgn)\<rparr>) mram
                  else map_loop (pgit + 1) pgnum pgn_start fpit mm1 (snd (MEMPHY_put_freefp mram fpn))
      else (fpn # fpit, mm, mram))"

fun give_back :: "addr_t list \<Rightarrow> memphy_struct \<Rightarrow> memphy_struct" where
  "give_back [] mram = mram"
| "give_back (fpn # fps) mram = give_back fps (snd (MEMPHY_put_freefp mram fpn))"

text \<open>The product \<^verbatim>\<open>pgnum * PAGING_PAGESZ\<close> is computed in \<^verbatim>\<open>int\<close>.\<close>

definition vmap_page_range :: "mm_struct \<Rightarrow> memphy_struct \<Rightarrow> addr_t \<Rightarrow> int \<Rightarrow> addr_t list \<Rightarrow> vm_rg_struct \<Rightarrow>
    (addr_t \<times> vm_rg_struct \<times> mm_struct \<times> memphy_struct) option" where
  "vmap_page_range mm mram addr pgnum frames ret_rg =
     (if \<not> in_int (pgnum * uint PAGING_PAGESZ) then None
      else let rg = ret_rg\<lparr>rg_start := addr, rg_end := addr + u64_of_int (pgnum * uint PAGING_PAGESZ)\<rparr>
           in case map_loop 0 pgnum (addr div PAGING_PAGESZ) frames mm mram of
                (fpit, mm1, mram1) \<Rightarrow> Some (0, rg, mm1, give_back fpit mram1))"

section \<open>Allocating frames\<close>

function alloc_loop :: "int \<Rightarrow> int \<Rightarrow> addr_t list \<Rightarrow> memphy_struct \<Rightarrow> addr_t \<times> addr_t list \<times> memphy_struct" where
  "alloc_loop pgit req_pgnum head mram =
     (if pgit < req_pgnum
      then case MEMPHY_get_freefp mram 0 of
             (r, mram1, fpn) \<Rightarrow>
               if r \<noteq> 0 then (-1, [], give_back head mram1)
               else alloc_loop (pgit + 1) req_pgnum (head @ [fpn]) mram1
      else (0, head, mram))"
  by pat_completeness auto
termination
  by (relation "measure (\<lambda>(i, n, h, m). nat (n - i))") auto

declare alloc_loop.simps [simp del]

definition alloc_pages_range :: "memphy_struct \<Rightarrow> int \<Rightarrow> addr_t \<times> addr_t list \<times> memphy_struct" where
  "alloc_pages_range mram req_pgnum = alloc_loop 0 req_pgnum [] mram"

definition vm_map_range :: "mm_struct \<Rightarrow> memphy_struct \<Rightarrow> addr_t \<Rightarrow> addr_t \<Rightarrow> addr_t \<Rightarrow> int \<Rightarrow> vm_rg_struct \<Rightarrow>
    (addr_t \<times> vm_rg_struct \<times> mm_struct \<times> memphy_struct) option" where
  "vm_map_range mm mram astart aend mapstart incpgnum ret_rg =
     (case alloc_pages_range mram incpgnum of
        (r, frm_lst, mram1) \<Rightarrow>
          if r \<noteq> 0 then Some (-1, ret_rg, mm, mram1)
          else map_option (\<lambda>(_, rg, mm1, mram2). (0, rg, mm1, mram2))
                 (vmap_page_range mm mram1 mapstart incpgnum frm_lst ret_rg))"

section \<open>Copying a frame\<close>

text \<open>A byte that could not be read is indeterminate, and so is the copy.\<close>

function cp_loop :: "int \<Rightarrow> memphy_struct option \<Rightarrow> addr_t \<Rightarrow> memphy_struct option \<Rightarrow> addr_t \<Rightarrow>
    (memphy_struct option \<times> memphy_struct option) option" where
  "cp_loop cellidx mpsrc srcfpn mpdst dstfpn =
     (if cellidx < uint PAGING_PAGESZ
      then do {
        let addrsrc = srcfpn * PAGING_PAGESZ + u64_of_int cellidx;
        let addrdst = dstfpn * PAGING_PAGESZ + u64_of_int cellidx;
        (r, mpsrc1, data) \<leftarrow> MEMPHY_read mpsrc addrsrc 0;
        _ \<leftarrow> (if r = 0 then Some () else None);
        (_, mpdst1) \<leftarrow> MEMPHY_write mpdst addrdst data;
        cp_loop (cellidx + 1) mpsrc1 srcfpn mpdst1 dstfpn
      }
      else Some (mpsrc, mpdst))"
  by pat_completeness auto
termination
  by (relation "measure (\<lambda>(i, s, sf, d, df). nat (256 - i))") (auto simp: PAGING_PAGESZ_def)

declare cp_loop.simps [simp del]

definition swap_cp_page :: "memphy_struct option \<Rightarrow> addr_t \<Rightarrow> memphy_struct option \<Rightarrow> addr_t \<Rightarrow>
    (int \<times> memphy_struct option \<times> memphy_struct option) option" where
  "swap_cp_page mpsrc srcfpn mpdst dstfpn =
     map_option (\<lambda>(s, d). (0, s, d)) (cp_loop 0 mpsrc srcfpn mpdst dstfpn)"

section \<open>Setting up a process\<close>

text \<open>
  \<^verbatim>\<open>init_mm\<close>. The area is fresh from \<^verbatim>\<open>malloc\<close>, and its free region list is linked behind the
  first region without having been set: \<open>junk_list\<close> and \<open>junk_mode\<close> stand for what
  \<^verbatim>\<open>malloc\<close> left in \<open>vm_freerg_list\<close> and in the region's \<open>mode_bit\<close>.
\<close>

definition init_mm :: "vm_rg_struct list \<Rightarrow> 64 word \<Rightarrow> mm_struct \<Rightarrow> int \<times> mm_struct" where
  "init_mm junk_list junk_mode mm =
     (let vma0 = \<lparr>vm_id = 0, vm_start = 0, vm_end = 0, sbrk = 0, vm_freerg_list = junk_list\<rparr>;
          first_rg = init_vm_rg junk_mode (vm_start vma0) (vm_end vma0);
          vma1 = vma0\<lparr>vm_freerg_list := snd (enlist_vm_rg_node (vm_freerg_list vma0) first_rg)\<rparr>
      in (0, mm\<lparr>pgd := (if calloc_ok mm (calloc_n mm) then Some (zero_dir 5) else None),
                calloc_n := calloc_n mm + 1,
                mm64_walk_count := 0, mm64_mem_access_count := 0, mm64_dir_alloc_count := 1,
                mm64_bytes_alloc := PAGING64_DIR_ENTRIES * 8,
                mmap := [vma1], fifo_pgn := [],
                symrgtbl := replicate PAGING_MAX_SYMTBL_SZ \<lparr>rg_start = 0, rg_end = 0, mode_bit = 0\<rparr>\<rparr>))"

section \<open>The dump\<close>

text \<open>
  \<^verbatim>\<open>print_pgtbl\<close>: the entries it prints, in order, and the memory descriptor, whose statistics
  its lookups change. The loop runs over page numbers up to \<^verbatim>\<open>PAGING_MAX_PGN - 1\<close>, so it
  ends.
\<close>

fun print_loop :: "addr_t list \<Rightarrow> mm_struct \<Rightarrow> (addr_t \<times> u32) list \<times> mm_struct" where
  "print_loop [] mm = ([], mm)"
| "print_loop (pgit # pgs) mm =
     (case pte_get_entry mm pgit of
        (pte, mm1) \<Rightarrow> (case print_loop pgs mm1 of
          (out, mm2) \<Rightarrow> (if pte \<noteq> 0 then (pgit, pte) # out else out, mm2)))"

definition print_pgtbl :: "mm_struct \<Rightarrow> addr_t \<Rightarrow> addr_t \<Rightarrow> int \<times> (addr_t \<times> u32) list \<times> mm_struct" where
  "print_pgtbl mm start end =
     (let max_pgn = PAGING_MAX_PGN - 1;
          pgn_start = start div PAGING_PAGESZ;
          pgn_end = (if end = -1 \<or> end div PAGING_PAGESZ > max_pgn then max_pgn else end div PAGING_PAGESZ)
      in (0, print_loop (map of_nat [unat pgn_start ..< Suc (unat pgn_end)]) mm))"

section \<open>Frames are never lost\<close>

lemma give_back_eq: "give_back fps mram = mram\<lparr>free_fp_list := rev fps @ free_fp_list mram\<rparr>"
  by (induction fps mram rule: give_back.induct) (simp_all add: MEMPHY_put_freefp_def)

lemma alloc_loop_eq:
  "alloc_loop i n head mram =
     (if nat (n - i) \<le> length (free_fp_list mram)
      then (0, head @ take (nat (n - i)) (free_fp_list mram),
            mram\<lparr>free_fp_list := drop (nat (n - i)) (free_fp_list mram)\<rparr>)
      else (-1, [], mram\<lparr>free_fp_list := rev (head @ free_fp_list mram)\<rparr>))"
proof (induction i n head mram rule: alloc_loop.induct)
  case (1 i n head mram)
  show ?case
  proof (cases "i < n")
    case True
    then have m: "nat (n - i) = Suc (nat (n - (i + 1)))" by simp
    show ?thesis
    proof (cases "free_fp_list mram")
      case Nil
      then show ?thesis using True by (subst alloc_loop.simps) (simp add: get_freefp_Nil give_back_eq)
    next
      case (Cons f fs)
      have "alloc_loop i n head mram = alloc_loop (i + 1) n (head @ [f]) (mram\<lparr>free_fp_list := fs\<rparr>)"
        using True Cons by (subst alloc_loop.simps) (simp add: get_freefp_Cons)
      with 1 [OF True] True Cons show ?thesis by (simp add: m get_freefp_Cons)
    qed
  next
    case False
    then show ?thesis by (subst alloc_loop.simps) simp
  qed
qed

lemma alloc_pages_range_eq:
  "alloc_pages_range mram n =
     (if nat n \<le> length (free_fp_list mram)
      then (0, take (nat n) (free_fp_list mram), mram\<lparr>free_fp_list := drop (nat n) (free_fp_list mram)\<rparr>)
      else (-1, [], mram\<lparr>free_fp_list := rev (free_fp_list mram)\<rparr>))"
  by (simp add: alloc_pages_range_def alloc_loop_eq)

text \<open>
  The entries after mapping the pairs of page and frame in \<open>ms\<close>, in this order.
\<close>

fun map_ptes :: "(addr_t \<times> addr_t) list \<Rightarrow> (addr_t \<Rightarrow> addr_t) \<Rightarrow> addr_t \<Rightarrow> addr_t" where
  "map_ptes [] t = t"
| "map_ptes ((pgn, fpn) # ms) t = map_ptes ms (t(pgn := fpn_pte (t pgn) fpn))"

lemma map_ptes_other: "p \<notin> fst ` set ms \<Longrightarrow> map_ptes ms t p = t p"
  by (induction ms t rule: map_ptes.induct) auto

lemma map_ptes_in:
  "distinct (map fst ms) \<Longrightarrow> (p, f) \<in> set ms \<Longrightarrow> map_ptes ms t p = fpn_pte (t p) f"
proof (induction ms t rule: map_ptes.induct)
  case (2 pgn fpn ms t)
  show ?case
  proof (cases "p = pgn")
    case True
    with 2(2,3) have "p \<notin> fst ` set ms" "f = fpn" by (auto simp: rev_image_eqI)
    with True show ?thesis by (simp add: map_ptes_other)
  next
    case False
    with 2 show ?thesis by (simp add: fun_upd_def)
  qed
qed simp

definition rest4 :: "mm_struct \<Rightarrow> vm_area_struct list \<times> vm_rg_struct list \<times> (nat \<Rightarrow> bool) \<times> bool" where
  "rest4 mm = (mmap mm, symrgtbl mm, calloc_ok mm, pgd mm = None)"

lemma rest_rest4: "rest mm' = rest mm \<Longrightarrow> rest4 mm' = rest4 mm"
  by (simp add: rest_def rest4_def)

text \<open>The pairs a range asks for: consecutive pages, the frames in order.\<close>

definition page_pairs :: "int \<Rightarrow> addr_t \<Rightarrow> addr_t list \<Rightarrow> (addr_t \<times> addr_t) list" where
  "page_pairs i s fpns = zip (map (\<lambda>k. s + u64_of_int (i + int k)) [0..<length fpns]) fpns"

lemma page_pairs_Nil [simp]: "page_pairs i s [] = []"
  by (simp add: page_pairs_def)

lemma page_pairs_Cons: "page_pairs i s (f # fs) = (s + u64_of_int i, f) # page_pairs (i + 1) s fs"
  by (simp add: page_pairs_def map_upt_Suc algebra_simps del: upt_Suc)

lemma page_pairs_take:
  "n \<le> length fl \<Longrightarrow> page_pairs 0 s (take n fl) = map (\<lambda>k. (s + of_nat k, fl ! k)) [0..<n]"
  by (rule nth_equalityI) (simp_all add: page_pairs_def u64_of_int_def)

text \<open>Why a page of a range may stay unmapped: there is no page table, it is past the limit, or a directory page is refused.\<close>

definition unmappable :: "mm_struct \<Rightarrow> addr_t \<Rightarrow> bool" where
  "unmappable mm p \<longleftrightarrow> pgd mm = None \<or> PAGING_MAX_PGN \<le> p \<or> (\<exists>k. \<not> calloc_ok mm k)"

text \<open>
  What the loop of \<^verbatim>\<open>vmap_page_range\<close> does, whatever fails inside it: some of the requested
  pairs are mapped (\<open>ms\<close>), in order, their pages are enlisted, and the frames of the others are back on
  the free list.
\<close>

definition mapped_ok where
  "mapped_ok want mm mram ms mm' mram' \<longleftrightarrow>
     pt_ok mm' \<and> rest4 mm' = rest4 mm \<and> pte_at mm' = map_ptes ms (pte_at mm) \<and>
     fifo_pgn mm' = rev (map fst ms) @ fifo_pgn mm \<and> subseq ms want \<and>
     (\<forall>(p, f) \<in> set want. (p, f) \<in> set ms \<or> unmappable mm p) \<and>
     mset (free_fp_list mram') + mset (map snd ms) = mset (free_fp_list mram) + mset (map snd want) \<and>
     mram' = mram\<lparr>free_fp_list := free_fp_list mram'\<rparr> \<and>
     (pgd mm \<noteq> None \<and> (\<forall>k. calloc_ok mm k) \<and> (\<forall>(p, f) \<in> set want. p < PAGING_MAX_PGN) \<longrightarrow>
       ms = want \<and> mram' = mram)"

lemma mapped_ok_subset: "mapped_ok want mm mram ms mm' mram' \<Longrightarrow> set ms \<subseteq> set want"
  by (auto simp: mapped_ok_def dest: list_emb_set)

lemma mapped_ok_Nil: "pt_ok mm \<Longrightarrow> mapped_ok [] mm mram [] mm mram"
  by (simp add: mapped_ok_def)

lemma rest4_eqD:
  assumes "rest4 mm' = rest4 mm"
  shows "mmap mm' = mmap mm" "symrgtbl mm' = symrgtbl mm" "calloc_ok mm' = calloc_ok mm"
    "pgd mm' = None \<longleftrightarrow> pgd mm = None"
  using assms by (simp_all add: rest4_def)

lemma mapped_ok_done:
  assumes "pt_ok mm" "pte_set_fpn mm pgn fpn = (0, mm1)"
    and "mapped_ok want (mm1\<lparr>fifo_pgn := pgn # fifo_pgn mm1\<rparr>) mram ms mm' mram'"
  shows "mapped_ok ((pgn, fpn) # want) mm mram ((pgn, fpn) # ms) mm' mram'"
proof -
  have d: "rest mm1 = rest mm" "pte_at mm1 = (pte_at mm)(pgn := fpn_pte (pte_at mm pgn) fpn)"
    using set_fpn.set_done [OF assms(1,2)] by simp_all
  have "pte_at (mm1\<lparr>fifo_pgn := pgn # fifo_pgn mm1\<rparr>) = pte_at mm1"
    by (simp add: pte_at_def fun_eq_iff)
  then show ?thesis
    using assms(3) d rest_eqD [OF d(1)] by (auto simp: mapped_ok_def unmappable_def rest4_def rest_def)
qed

lemma mapped_ok_failed:
  assumes "pt_ok mm" "pte_set_fpn mm pgn fpn = (r, mm1)" "r \<noteq> 0"
    and "mapped_ok want mm1 (snd (MEMPHY_put_freefp mram fpn)) ms mm' mram'"
  shows "mapped_ok ((pgn, fpn) # want) mm mram ms mm' mram'"
proof -
  have d: "rest mm1 = rest mm" "pte_at mm1 = pte_at mm"
    "pgd mm = None \<or> PAGING_MAX_PGN \<le> pgn \<or> (\<exists>k. \<not> calloc_ok mm k)"
    using set_fpn.set_fails [OF assms(1-3)] by simp_all
  have "mram' = mram\<lparr>free_fp_list := free_fp_list mram'\<rparr>"
    using assms(4) by (auto simp: mapped_ok_def MEMPHY_put_freefp_def)
  then show ?thesis
    using assms(4) d rest_rest4 [OF d(1)] rest_eqD [OF d(1)] by (auto simp: mapped_ok_def unmappable_def not_less)
qed

lemma map_loop_spec:
  "pt_ok mm \<Longrightarrow> fpns = [] \<or> int (length fpns) \<le> n - i \<Longrightarrow> map_loop i n s fpns mm mram = (left, mm', mram') \<Longrightarrow>
   left = [] \<and> (\<exists>ms. mapped_ok (page_pairs i s fpns) mm mram ms mm' mram')"
proof (induction i n s fpns mm mram rule: map_loop.induct)
  case (1 i n s mm mram)
  then show ?case using mapped_ok_Nil by auto
next
  case (2 i n s f fs mm mram)
  let ?pgn = "s + u64_of_int i"
  obtain r mm1 where p: "pte_set_fpn mm ?pgn f = (r, mm1)" by (metis prod.exhaust)
  have i: "i < n" using 2(4) by simp
  have ok1: "pt_ok mm1" using set_fpn.set_keeps [OF 2(3), of ?pgn f] p by simp
  show ?case
  proof (cases "r = 0")
    case True
    have ok2: "pt_ok (mm1\<lparr>fifo_pgn := ?pgn # fifo_pgn mm1\<rparr>)"
      using ok1 by (simp add: pt_ok_def dir_pages_def)
    have "left = [] \<and> (\<exists>ms. mapped_ok (page_pairs (i + 1) s fs)
        (mm1\<lparr>fifo_pgn := ?pgn # fifo_pgn mm1\<rparr>) mram ms mm' mram')"
      using 2(1) [OF i refl p [symmetric] True] ok2 2(4,5) i p True by (simp add: enlist_pgn_node_def)
    then show ?thesis unfolding page_pairs_Cons using mapped_ok_done [OF 2(3) p [unfolded True]] by blast
  next
    case False
    have "left = [] \<and> (\<exists>ms. mapped_ok (page_pairs (i + 1) s fs) mm1
        (snd (MEMPHY_put_freefp mram f)) ms mm' mram')"
      using 2(2) [OF i refl p [symmetric] False ok1] 2(4,5) i p False by simp
    then show ?thesis unfolding page_pairs_Cons using mapped_ok_failed [OF 2(3) p False] by blast
  qed
qed

lemma vm_map_range_cases:
  assumes "pt_ok mm" and "in_int (n * 256)"
  shows "if nat n \<le> length (free_fp_list mram)
    then \<exists>ms rg mm' mram'.
      vm_map_range mm mram a b mapstart n ret_rg = Some (0, rg, mm', mram') \<and>
      mapped_ok (page_pairs 0 (mapstart div 256) (take (nat n) (free_fp_list mram))) mm
        (mram\<lparr>free_fp_list := drop (nat n) (free_fp_list mram)\<rparr>) ms mm' mram'
    else vm_map_range mm mram a b mapstart n ret_rg =
      Some (-1, ret_rg, mm, mram\<lparr>free_fp_list := rev (free_fp_list mram)\<rparr>)"
proof (cases "nat n \<le> length (free_fp_list mram)")
  case True
  let ?fr = "take (nat n) (free_fp_list mram)"
  let ?m = "mram\<lparr>free_fp_list := drop (nat n) (free_fp_list mram)\<rparr>"
  obtain left mm' mram' where l: "map_loop 0 n (mapstart div 256) ?fr mm ?m = (left, mm', mram')"
    by (metis prod_cases3)
  have "?fr = [] \<or> int (length ?fr) \<le> n - 0" using True by (cases "0 \<le> n") auto
  from map_loop_spec [OF assms(1) this l] obtain ms where
    "left = []" "mapped_ok (page_pairs 0 (mapstart div 256) ?fr) mm ?m ms mm' mram'" by blast
  then show ?thesis
    using True l assms(2)
    by (auto simp: vm_map_range_def alloc_pages_range_eq vmap_page_range_def PAGING_PAGESZ_def Let_def)
qed (simp add: vm_map_range_def alloc_pages_range_eq)

section \<open>Properties of the mapping\<close>

text \<open>
  Property C17: what \<^verbatim>\<open>vm_map_range\<close> maps, and that no frame is lost or duplicated. Let the page table be
  well formed and the size of the range be an \<^verbatim>\<open>int\<close>. If the free list is too short it returns -1 and changes nothing but the order of the free list. Otherwise it returns 0, and it asks for
  page \<open>k\<close> of the range to be backed by frame \<open>k\<close> of the free list. The pairs \<open>ms\<close> it maps are those pairs, in
  order, and a page is left out only for a reason (\<open>unmappable\<close>): it is past the limit, or there is no page
  table, or \<^verbatim>\<open>calloc\<close> refuses directory pages. So when none of this happens, all of them are mapped. The entries
  are those mappings on top of the old table, the pages mapped are enlisted, and the frames on the free list
  afterwards together with the frames mapped are the frames that were free before. Of the rest, only the
  statistics of the process change, and nothing of RAM.
\<close>

theorem vm_map_range_conserves_frames:
  assumes "pt_ok mm" and "in_int (n * 256)"
  shows "\<exists>r rg mm' mram' ms.
    vm_map_range mm mram astart aend mapstart n ret_rg = Some (r, rg, mm', mram') \<and> pt_ok mm' \<and> rest4 mm' = rest4 mm \<and>
    mram' = mram\<lparr>free_fp_list := free_fp_list mram'\<rparr> \<and>
    mset (free_fp_list mram') + mset (map snd ms) = mset (free_fp_list mram) \<and>
    pte_at mm' = map_ptes ms (pte_at mm) \<and> fifo_pgn mm' = rev (map fst ms) @ fifo_pgn mm \<and>
    (if nat n \<le> length (free_fp_list mram)
     then r = 0 \<and> subseq ms (map (\<lambda>k. (mapstart div 256 + of_nat k, free_fp_list mram ! k)) [0..<nat n]) \<and>
       (\<forall>k. k < nat n \<longrightarrow> (mapstart div 256 + of_nat k, free_fp_list mram ! k) \<in> set ms \<or> unmappable mm (mapstart div 256 + of_nat k))
     else r = -1 \<and> mm' = mm \<and> ms = [])"
proof (cases "nat n \<le> length (free_fp_list mram)")
  case True
  let ?fl = "free_fp_list mram"
  let ?w = "map (\<lambda>k. (mapstart div 256 + of_nat k, ?fl ! k)) [0..<nat n]"
  have w: "page_pairs 0 (mapstart div 256) (take (nat n) ?fl) = ?w" using True by (rule page_pairs_take)
  have "map snd ?w = take (nat n) ?fl" using True by (intro nth_equalityI) simp_all
  then have fr: "mset (drop (nat n) ?fl) + mset (map snd ?w) = mset ?fl"
    by (metis append_take_drop_id mset_append union_commute)
  obtain ms rg mm' mram' where v: "vm_map_range mm mram astart aend mapstart n ret_rg = Some (0, rg, mm', mram')"
      and ok: "mapped_ok ?w mm (mram\<lparr>free_fp_list := drop (nat n) ?fl\<rparr>) ms mm' mram'"
    using vm_map_range_cases [OF assms, of mram astart aend mapstart ret_rg] True unfolding w by auto
  have k: "?w ! k \<in> set ?w" if "k < nat n" for k using that by (intro nth_mem) simp
  have "mram' = (mram\<lparr>free_fp_list := drop (nat n) ?fl\<rparr>)\<lparr>free_fp_list := free_fp_list mram'\<rparr>"
    using ok by (simp only: mapped_ok_def)
  then have ram: "mram' = mram\<lparr>free_fp_list := free_fp_list mram'\<rparr>" by (cases mram', cases mram) simp
  have all: "\<forall>k. k < nat n \<longrightarrow> (mapstart div 256 + of_nat k, ?fl ! k) \<in> set ms \<or> unmappable mm (mapstart div 256 + of_nat k)"
    using ok k by (fastforce simp: mapped_ok_def)
  have fr': "mset (free_fp_list mram') + mset (map snd ms) = mset ?fl" using ok fr by (simp add: mapped_ok_def)
  have "pt_ok mm'" "rest4 mm' = rest4 mm" "pte_at mm' = map_ptes ms (pte_at mm)" "fifo_pgn mm' = rev (map fst ms) @ fifo_pgn mm"
      "subseq ms ?w"
    using ok by (simp_all add: mapped_ok_def)
  note c = v this(1,2) ram fr' this(3,4)
  show ?thesis
    by (rule exI [of _ 0], rule exI [of _ rg], rule exI [of _ mm'], rule exI [of _ mram'], rule exI [of _ ms])
      (intro conjI c; simp only: True if_True; intro conjI refl \<open>subseq ms ?w\<close>; rule all)
next
  case False
  then show ?thesis
    using vm_map_range_cases [OF assms, of mram astart aend mapstart ret_rg] assms(1) by auto
qed

theorem vm_map_range_conserves_frames_witness:
  "\<exists>rg mm' mram'. vm_map_range demo_mm demo_dev 0 512 0 2 \<lparr>rg_start = 0, rg_end = 0, mode_bit = 0\<rparr> = Some (0, rg, mm', mram') \<and>
     mset (free_fp_list mram') = {#2, 3#} \<and> pte_at mm' = map_ptes [(0, 0), (1, 1)] (pte_at demo_mm)"
proof -
  let ?rg = "\<lparr>rg_start = 0, rg_end = 0, mode_bit = 0\<rparr>"
  have fl: "free_fp_list demo_dev = [0, 1, 2, 3]"
    by (simp add: demo_dev_def wf_init_memphy upto_rec1 u64_of_int_def)
  have i: "in_int (2 * 256)" by (simp add: in_int_def)
  have w: "map (\<lambda>k. ((0 :: addr_t) div 256 + of_nat k, free_fp_list demo_dev ! k)) [0..<nat 2] = [(0, 0), (1, 1)]"
    by (simp add: fl numeral_2_eq_2 upt_rec)
  have u: "\<not> unmappable demo_mm 0" "\<not> unmappable demo_mm 1"
    using demo_mm_ok by (simp_all add: unmappable_def PAGING_MAX_PGN_eq word_le_def)
  obtain rg mm' mram' ms where v: "vm_map_range demo_mm demo_dev 0 512 0 2 ?rg = Some (0, rg, mm', mram')"
      "mset (free_fp_list mram') + mset (map snd ms) = {#0, 1, 2, 3#}" "pte_at mm' = map_ptes ms (pte_at demo_mm)"
      and ms: "subseq ms [(0, 0), (1, 1)]"
        "\<forall>k. k < 2 \<longrightarrow> (of_nat k, [0, 1, 2, 3] ! k) \<in> set ms \<or> unmappable demo_mm (of_nat k)"
    using vm_map_range_conserves_frames [OF demo_mm_ok(1) i, of demo_dev 0 512 0 ?rg] unfolding w by (auto simp: fl)
  have "(0, 0) \<in> set ms" "(1, 1) \<in> set ms" using ms(2) [rule_format, of 0] ms(2) [rule_format, of 1] u by simp_all
  moreover have "ms \<in> set (subseqs [(0, 0), (1, 1)])" using ms(1) by (simp only: set_subseqs_eq mem_Collect_eq)
  ultimately have "ms = [(0, 0), (1, 1)]" by auto
  then show ?thesis using v by auto
qed

lemma page_pairs_nth:
  "k < length fpns \<Longrightarrow> (s + of_nat k, fpns ! k) \<in> set (page_pairs 0 s fpns)"
  by (force simp: page_pairs_def in_set_zip u64_of_int_def intro: exI [of _ k])

lemma page_pairs_bound:
  assumes "length fpns = m" "unat s + m \<le> 16384"
  shows "\<forall>(p, f) \<in> set (page_pairs 0 s fpns). p < PAGING_MAX_PGN"
    and "distinct (map fst (page_pairs 0 s fpns))"
    and "p \<in> fst ` set (page_pairs 0 s fpns) \<longleftrightarrow> unat s \<le> unat p \<and> unat p < unat s + m"
proof -
  have u: "unat (s + of_nat k) = unat s + k" if "k < m" for k
    using that assms(2) by (simp add: unat_word_ariths unat_of_nat)
  have f: "map fst (page_pairs 0 s fpns) = map (\<lambda>k. s + of_nat k) [0..<m]"
    using assms(1) by (simp add: page_pairs_def u64_of_int_def)
  have st: "fst ` set (page_pairs 0 s fpns) = (\<lambda>k. s + of_nat k) ` {..<m}"
    by (metis f list.set_map atLeast_upt)
  show "\<forall>(p, f) \<in> set (page_pairs 0 s fpns). p < PAGING_MAX_PGN"
  proof clarify
    fix p f assume "(p, f) \<in> set (page_pairs 0 s fpns)"
    then have "p \<in> (\<lambda>k. s + of_nat k) ` {..<m}" using st by (metis fst_conv image_eqI)
    then show "p < PAGING_MAX_PGN" using u assms(2) by (auto simp: PAGING_MAX_PGN_eq word_less_nat_alt)
  qed
  show "distinct (map fst (page_pairs 0 s fpns))"
  proof -
    have "inj_on (\<lambda>k. s + of_nat k) {..<m}"
      by (rule inj_onI) (metis u add_left_cancel lessThan_iff)
    then show ?thesis unfolding f by (simp add: distinct_map atLeast0LessThan)
  qed
  show "p \<in> fst ` set (page_pairs 0 s fpns) \<longleftrightarrow> unat s \<le> unat p \<and> unat p < unat s + m"
  proof
    assume "p \<in> fst ` set (page_pairs 0 s fpns)"
    then show "unat s \<le> unat p \<and> unat p < unat s + m" using st u by auto
  next
    assume a: "unat s \<le> unat p \<and> unat p < unat s + m"
    then have "p = s + of_nat (unat p - unat s)" "unat p - unat s < m" by (auto simp: of_nat_diff)
    then show "p \<in> fst ` set (page_pairs 0 s fpns)" using st by auto
  qed
qed

lemma vm_map_range_all:
  assumes "pt_ok mm" "pgd mm \<noteq> None" "\<forall>k. calloc_ok mm k" "in_int (int m * 256)"
    and "m \<le> length (free_fp_list mram)" "unat (mapstart div 256) + m \<le> 16384"
  shows "\<exists>rg mm'. vm_map_range mm mram astart aend mapstart (int m) ret_rg =
      Some (0, rg, mm', mram\<lparr>free_fp_list := drop m (free_fp_list mram)\<rparr>) \<and>
    (\<forall>p. if unat (mapstart div 256) \<le> unat p \<and> unat p < unat (mapstart div 256) + m
         then pte_at mm' p = fpn_pte (pte_at mm p) (free_fp_list mram ! (unat p - unat (mapstart div 256)))
         else pte_at mm' p = pte_at mm p) \<and>
    fifo_pgn mm' = rev (map (\<lambda>k. mapstart div 256 + of_nat k) [0..<m]) @ fifo_pgn mm"
proof -
  let ?s = "mapstart div 256" and ?fr = "take m (free_fp_list mram)"
  let ?w = "page_pairs 0 ?s ?fr"
  have len: "length ?fr = m" using assms(5) by simp
  note b = page_pairs_bound [OF len assms(6)]
  obtain ms rg mm' mram' where v: "vm_map_range mm mram astart aend mapstart (int m) ret_rg = Some (0, rg, mm', mram')"
    and ok: "mapped_ok ?w mm (mram\<lparr>free_fp_list := drop m (free_fp_list mram)\<rparr>) ms mm' mram'"
    using vm_map_range_cases [OF assms(1,4), of mram astart aend mapstart ret_rg] assms(5) by auto
  have ms: "ms = ?w" and mr: "mram' = mram\<lparr>free_fp_list := drop m (free_fp_list mram)\<rparr>"
    using ok b(1) assms(2,3) by (simp_all add: mapped_ok_def)
  have pages: "map fst ?w = map (\<lambda>k. ?s + of_nat k) [0..<m]"
    using len by (simp add: page_pairs_def u64_of_int_def)
  have pte: "pte_at mm' = map_ptes ?w (pte_at mm)" and fifo: "fifo_pgn mm' = rev (map fst ?w) @ fifo_pgn mm"
    using ok by (simp_all add: mapped_ok_def ms)
  have in_range: "pte_at mm' p = fpn_pte (pte_at mm p) (free_fp_list mram ! (unat p - unat ?s))"
    if "unat ?s \<le> unat p" "unat p < unat ?s + m" for p
  proof -
    have k: "unat p - unat ?s < m" "p = ?s + of_nat (unat p - unat ?s)"
      using that by (auto simp: of_nat_diff)
    then have "(p, ?fr ! (unat p - unat ?s)) \<in> set ?w"
      using page_pairs_nth [of "unat p - unat ?s" ?fr ?s] len by metis
    from map_ptes_in [OF b(2) this] k(1) show ?thesis by (simp add: pte)
  qed
  have out: "pte_at mm' p = pte_at mm p" if "\<not> (unat ?s \<le> unat p \<and> unat p < unat ?s + m)" for p
    using that b(3) map_ptes_other [of p ?w] by (simp add: pte)
  have each: "if unat ?s \<le> unat p \<and> unat p < unat ?s + m
      then pte_at mm' p = fpn_pte (pte_at mm p) (free_fp_list mram ! (unat p - unat ?s))
      else pte_at mm' p = pte_at mm p" for p
    using in_range [of p] out [of p] by simp
  show ?thesis
    by (rule exI [of _ rg], rule exI [of _ mm'], intro conjI allI)
       (rule v [unfolded mr], rule each, rule fifo [unfolded pages])
qed

text \<open>
  \<^verbatim>\<open>vm_map_range\<close> maps the whole range when nothing stands in the way. With
  enough free frames, a range below the page limit and directory pages granted, it returns 0;
  page \<open>k\<close> of the range then holds the \<open>k\<close>-th frame of the old free list, every page outside
  the range keeps its entry, the pages are enlisted in the FIFO in order, and the free list
  has lost exactly those frames.
\<close>

lemma vm_map_range_maps_all:
  assumes "pt_ok mm" "pgd mm \<noteq> None" "\<forall>k. calloc_ok mm k" "in_int (int m * 256)"
    and "m \<le> length (free_fp_list mram)" "unat (mapstart div 256) + m \<le> 16384"
  shows "\<exists>rg mm'. vm_map_range mm mram astart aend mapstart (int m) ret_rg =
      Some (0, rg, mm', mram\<lparr>free_fp_list := drop m (free_fp_list mram)\<rparr>) \<and>
    (\<forall>p. if unat (mapstart div 256) \<le> unat p \<and> unat p < unat (mapstart div 256) + m
         then pte_at mm' p = fpn_pte (pte_at mm p) (free_fp_list mram ! (unat p - unat (mapstart div 256)))
         else pte_at mm' p = pte_at mm p) \<and>
    fifo_pgn mm' = rev (map (\<lambda>k. mapstart div 256 + of_nat k) [0..<m]) @ fifo_pgn mm"
  using assms by (rule vm_map_range_all)

section \<open>Copying a frame\<close>

lemma cp_loop_spec:
  assumes "wf_dev s" "wf_dev d" "uint sf < num_frames s" "uint df < num_frames d"
    and "0 \<le> i" "i \<le> 256"
  shows "\<exists>s' d'. cp_loop i (Some s) sf (Some d) df = Some (Some s', Some d') \<and>
     load_byte s' = load_byte s \<and> wf_dev s' \<and> free_fp_list s' = free_fp_list s \<and>
     wf_dev d' \<and> maxsz d' = maxsz d \<and> free_fp_list d' = free_fp_list d \<and>
     (\<forall>a. load_byte d' a =
        (if uint df * 256 + i \<le> uint a \<and> uint a < uint df * 256 + 256
         then load_byte s (sf * 256 + (a - df * 256)) else load_byte d a))"
  using assms
proof (induction "nat (256 - i)" arbitrary: i s d)
  case 0
  then have i: "i = 256" by simp
  have e: "\<not> (uint df * 256 + 256 \<le> uint a \<and> uint a < uint df * 256 + 256)" for a :: addr_t by linarith
  show ?case using 0 by (subst cp_loop.simps) (simp add: i PAGING_PAGESZ_def e del: de_Morgan_conj not_le not_less)
next
  case (Suc k)
  let ?off = "u64_of_int i"
  have i: "i < 256" "uint ?off = i" using Suc(2,7,8) by (simp_all add: uint_u64_of_int)
  have k: "k = nat (256 - (i + 1))" using Suc(2) by simp
  have ms: "maxsz s < 2 ^ 31" "maxsz d < 2 ^ 31" using Suc(3,4) by (simp_all add: wf_dev_def)
  have off: "uint ?off < 256" using i by simp
  note fs = frame_addr [OF Suc(5) ms(1) off] and fd = frame_addr [OF Suc(6) ms(2) off]
  obtain s1 b where r: "MEMPHY_read (Some s) (sf * 256 + ?off) 0 = Some (0, Some s1, b)"
      "load_byte s (sf * 256 + ?off) = Some b" "load_byte s1 = load_byte s" "wf_dev s1" "maxsz s1 = maxsz s"
      "free_fp_list s1 = free_fp_list s"
    using MEMPHY_read_spec [OF Suc(3) fs(2), of 0] by metis
  obtain d1 where w: "MEMPHY_write (Some d) (df * 256 + ?off) b = Some (0, Some d1)"
      "load_byte d1 = (load_byte d)(df * 256 + ?off \<mapsto> b)" "wf_dev d1" "maxsz d1 = maxsz d"
      "free_fp_list d1 = free_fp_list d"
    using MEMPHY_write_spec [OF Suc(4) fd(2), of b] by metis
  have step: "cp_loop i (Some s) sf (Some d) df = cp_loop (i + 1) (Some s1) sf (Some d1) df"
    using i(1) r(1) w(1) by (subst cp_loop.simps) (simp add: PAGING_PAGESZ_def)
  obtain s' d' where n: "cp_loop (i + 1) (Some s1) sf (Some d1) df = Some (Some s', Some d')"
     "load_byte s' = load_byte s1" "wf_dev s'" "free_fp_list s' = free_fp_list s1"
     "wf_dev d'" "maxsz d' = maxsz d1" "free_fp_list d' = free_fp_list d1"
     "\<And>a. load_byte d' a =
        (if uint df * 256 + (i + 1) \<le> uint a \<and> uint a < uint df * 256 + 256
         then load_byte s1 (sf * 256 + (a - df * 256)) else load_byte d1 a)"
    using Suc(1) [OF k r(4) w(3)] Suc(5-7) r(5) w(4) i(1) by (auto simp: num_frames_def)
  have "load_byte d' a = (if uint df * 256 + i \<le> uint a \<and> uint a < uint df * 256 + 256
         then load_byte s (sf * 256 + (a - df * 256)) else load_byte d a)" for a
  proof (cases "a = df * 256 + ?off")
    case True
    then have "uint a = uint df * 256 + i" "a - df * 256 = ?off" using fd(1) i(2) by simp_all
    then show ?thesis using n(8) [of a] w(2) r(2) i(1) True by simp
  next
    case False
    have "uint a \<noteq> uint df * 256 + i"
    proof
      assume "uint a = uint df * 256 + i"
      then have "uint a = uint (df * 256 + ?off)" using fd(1) i(2) by simp
      with False show False using word_uint_eq_iff by blast
    qed
    then show ?thesis using n(8) [of a] w(2) r(3) False by simp
  qed
  then show ?case using step n r w by auto
qed

text \<open>
  Property C24: \<^verbatim>\<open>__swap_cp_page\<close> copies a frame. For a frame inside the source device and one
  inside the destination device it returns 0, byte \<open>k\<close> of the destination frame becomes
  byte \<open>k\<close> of the source frame, every byte outside the destination frame stays, the
  source keeps its contents, and the free lists of both devices are untouched.
\<close>

theorem swap_cp_page_copies:
  assumes "wf_dev s" "wf_dev d" "uint sf < num_frames s" "uint df < num_frames d"
  shows "\<exists>s' d'. swap_cp_page (Some s) sf (Some d) df = Some (0, Some s', Some d') \<and>
     load_byte s' = load_byte s \<and> free_fp_list s' = free_fp_list s \<and> free_fp_list d' = free_fp_list d \<and>
     wf_dev s' \<and> wf_dev d' \<and>
     (\<forall>k. 256 \<le> k \<or> load_byte d' (df * 256 + k) = load_byte s (sf * 256 + k)) \<and>
     (\<forall>a. (uint df * 256 \<le> uint a \<and> uint a < uint df * 256 + 256) \<or> load_byte d' a = load_byte d a)"
proof -
  obtain s' d' where c: "cp_loop 0 (Some s) sf (Some d) df = Some (Some s', Some d')"
     "load_byte s' = load_byte s" "wf_dev s'" "free_fp_list s' = free_fp_list s"
     "wf_dev d'" "free_fp_list d' = free_fp_list d"
     "\<And>a. load_byte d' a =
        (if uint df * 256 \<le> uint a \<and> uint a < uint df * 256 + 256
         then load_byte s (sf * 256 + (a - df * 256)) else load_byte d a)"
    using cp_loop_spec [OF assms, of 0] by auto
  have "load_byte d' (df * 256 + k) = load_byte s (sf * 256 + k)" if "\<not> 256 \<le> k" for k
  proof -
    have k: "uint k < 256" using that by (simp add: not_le word_less_def)
    have "maxsz d < 2 ^ 31" using assms(2) by (simp add: wf_dev_def)
    from frame_addr(1) [OF assms(4) this k] have "uint (df * 256 + k) = uint df * 256 + uint k" .
    then show ?thesis using c(7) [of "df * 256 + k"] k by simp
  qed
  then have k1: "\<forall>k. 256 \<le> k \<or> load_byte d' (df * 256 + k) = load_byte s (sf * 256 + k)" by blast
  have k2: "\<forall>a. (uint df * 256 \<le> uint a \<and> uint a < uint df * 256 + 256) \<or> load_byte d' a = load_byte d a"
    using c(7) by simp
  have "swap_cp_page (Some s) sf (Some d) df = Some (0, Some s', Some d')"
    using c(1) by (simp add: swap_cp_page_def)
  with c(2-6) k1 k2 show ?thesis by blast
qed

theorem swap_cp_page_copies_witness:
  "\<exists>s' d'. swap_cp_page (Some demo_dev) 1 (Some demo_dev) 3 = Some (0, Some s', Some d') \<and>
     load_byte d' (3 * 256 + 7) = load_byte demo_dev (1 * 256 + 7)"
proof -
  have n: "uint (1 :: addr_t) < num_frames demo_dev" "uint (3 :: addr_t) < num_frames demo_dev"
    by (simp_all add: num_frames_def wf_demo_dev)
  obtain s' d' where "swap_cp_page (Some demo_dev) 1 (Some demo_dev) 3 = Some (0, Some s', Some d')"
    "\<forall>k. 256 \<le> k \<or> load_byte d' (3 * 256 + k) = load_byte demo_dev (1 * 256 + k)"
    using swap_cp_page_copies [OF wf_demo_dev(1) wf_demo_dev(1) n] by blast
  moreover have "\<not> 256 \<le> (7 :: addr_t)" by simp
  ultimately show ?thesis by blast
qed

section \<open>Setting up and tearing down\<close>

lemma init_mm_ok:
  "pt_ok (snd (init_mm jl jm mm))" "pte_at (snd (init_mm jl jm mm)) p = 0" "fst (init_mm jl jm mm) = 0"
  "pgd (snd (init_mm jl jm mm)) \<noteq> None \<longleftrightarrow> calloc_ok mm (calloc_n mm)"
  "calloc_ok (snd (init_mm jl jm mm)) = calloc_ok mm"
  by (auto simp: init_mm_def pt_ok_def dir_pages_def pte_at_def PAGING64_DIR_ENTRIES_eq Let_def)

text \<open>
  Property C31: teardown leaks nothing. Start from \<^verbatim>\<open>init_mm\<close> and run any sequence of page
  table operations, with any pattern of \<^verbatim>\<open>calloc\<close> failures after the root. Then
  \<^verbatim>\<open>mm64_destroy_pgd_tree\<close> frees exactly as many directory pages as \<^verbatim>\<open>mm64_dir_alloc_count\<close>
  counted, the bytes counted are those pages, and no root is left.
\<close>

theorem teardown_frees_all:
  assumes "calloc_ok mm (calloc_n mm)" and "mm' = pt_run ops (snd (init_mm jl jm mm))"
  shows "mm64_dir_alloc_count mm' = of_nat (fst (mm64_destroy_pgd_tree mm')) \<and>
         mm64_bytes_alloc mm' = 4096 * of_nat (fst (mm64_destroy_pgd_tree mm')) \<and>
         pgd (snd (mm64_destroy_pgd_tree mm')) = None"
proof -
  have "pt_ok mm'" "rest mm' = rest (snd (init_mm jl jm mm))"
    using pt_run_ok [OF init_mm_ok(1)] by (simp_all add: assms(2))
  moreover have "pgd mm' \<noteq> None"
    using rest_eqD(5) [OF calculation(2)] init_mm_ok(4) assms(1) by auto
  ultimately show ?thesis
    using destroy_pages by (auto simp: mm64_destroy_pgd_tree_def split: option.splits)
qed

theorem teardown_frees_all_witness:
  "pgd (snd (mm64_destroy_pgd_tree (pt_run [SetFpn 5 1, SetSwap 9 0 2, SetFpn 20000 3] (snd (init_mm [] 0 demo_mm))))) = None"
proof -
  have "calloc_ok demo_mm (calloc_n demo_mm)" by (simp add: demo_mm_ok)
  from teardown_frees_all [OF this refl] show ?thesis by blast
qed

section \<open>Marker pages\<close>

lemma memset_loop_spec:
  "pt_ok mm \<Longrightarrow> memset_loop i n s mm = (r, mm') \<Longrightarrow>
   pt_ok mm' \<and> rest mm' = rest mm \<and> (r = 0 \<or> r = -1 \<and>
     (pgd mm = None \<or> (\<exists>k. \<not> calloc_ok mm k) \<or> (\<exists>j. i \<le> j \<and> j < n \<and> PAGING_MAX_PGN \<le> s + u64_of_int j))) \<and>
   (\<exists>m. i \<le> m \<and> m \<le> max i n \<and> (r = 0 \<longrightarrow> m = max i n) \<and>
     (\<forall>p. pte_at mm' p = (if p \<in> (\<lambda>j. s + u64_of_int j) ` {i..<m} then ucast memset_pattern else pte_at mm p)))"
proof (induction i n s mm rule: memset_loop.induct)
  case (1 i n s mm)
  show ?case
  proof (cases "i < n")
    case False
    with 1(3) have "r = 0" "mm' = mm" by (simp_all add: memset_loop.simps)
    then show ?thesis using 1(2) False by (intro conjI exI [of _ i]) auto
  next
    case True
    let ?pgn = "s + u64_of_int i"
    obtain r1 mm1 where e: "pte_set_entry mm ?pgn memset_pattern = (r1, mm1)" by (metis prod.exhaust)
    show ?thesis
    proof (cases "r1 = 0")
      case False
      with 1(3) True e have "r = -1" "mm' = mm1" by (simp_all add: memset_loop.simps)
      then show ?thesis
        using set_entry.set_fails [OF 1(2) e False] True by (intro conjI exI [of _ i]) auto
    next
      case r0: True
      have d: "pt_ok mm1" "rest mm1 = rest mm" "pte_at mm1 = (pte_at mm)(?pgn := ucast memset_pattern)"
        using set_entry.set_done [OF 1(2) e [unfolded r0]] by simp_all
      have step: "memset_loop (i + 1) n s mm1 = (r, mm')"
        using 1(3) True e r0 by (simp add: memset_loop.simps [of i])
      from 1(1) [OF True e [symmetric] _ d(1) step] r0 obtain m where ih:
        "pt_ok mm'" "rest mm' = rest mm1" "r = 0 \<or> r = -1 \<and>
           (pgd mm1 = None \<or> (\<exists>k. \<not> calloc_ok mm1 k) \<or>
            (\<exists>j. i + 1 \<le> j \<and> j < n \<and> PAGING_MAX_PGN \<le> s + u64_of_int j))"
        "i + 1 \<le> m" "m \<le> max (i + 1) n" "r = 0 \<longrightarrow> m = max (i + 1) n"
        "\<forall>p. pte_at mm' p = (if p \<in> (\<lambda>j. s + u64_of_int j) ` {i + 1..<m} then ucast memset_pattern else pte_at mm1 p)"
        by auto
      have set: "{i..<m} = insert i {i + 1..<m}" using ih(4) by auto
      have "pte_at mm' p = (if p \<in> (\<lambda>j. s + u64_of_int j) ` {i..<m} then ucast memset_pattern else pte_at mm p)" for p
        using ih(7) by (simp add: set d(3))
      moreover have "r = 0 \<or> r = -1 \<and>
           (pgd mm = None \<or> (\<exists>k. \<not> calloc_ok mm k) \<or> (\<exists>j. i \<le> j \<and> j < n \<and> PAGING_MAX_PGN \<le> s + u64_of_int j))"
        using ih(3) rest_eqD(4,5) [OF d(2)] by fastforce
      ultimately show ?thesis using ih d True by (intro conjI exI [of _ m]) auto
    qed
  qed
qed

lemma pattern_flags:
  "\<not> PAGING_PAGE_PRESENT memset_pattern" "\<not> PAGING_PAGE_SWAPPED memset_pattern" "memset_pattern \<noteq> 0"
  by (simp_all add: PAGING_PAGE_PRESENT_def PAGING_PAGE_SWAPPED_def memset_pattern_def pte_masks BIT_def)

text \<open>
  The marker pages of \<^verbatim>\<open>vmap_pgd_memset\<close>. Every entry outside the range is kept;
  an entry inside it is either kept or becomes the marker, which is not zero, not present and
  not swapped, so the teardown of the process skips it. If the call returns 0 every page of the
  range has the marker; it returns -1 only for a missing root, a refused directory page or a
  page beyond the limit.
\<close>

lemma vmap_pgd_memset_marks:
  assumes "pt_ok mm" and "vmap_pgd_memset mm addr n = (r, mm')"
  shows "(\<forall>p. pte_at mm' p = pte_at mm p \<or>
            (\<exists>j. 0 \<le> j \<and> j < n \<and> p = addr div 256 + u64_of_int j) \<and> pte_at mm' p = ucast memset_pattern) \<and>
    \<not> PAGING_PAGE_PRESENT memset_pattern \<and> \<not> PAGING_PAGE_SWAPPED memset_pattern \<and> memset_pattern \<noteq> 0 \<and>
    pt_ok mm' \<and>
    (if r = 0 then \<forall>j. j < 0 \<or> n \<le> j \<or> pte_at mm' (addr div 256 + u64_of_int j) = ucast memset_pattern
     else r = -1 \<and> (pgd mm = None \<or> (\<exists>k. \<not> calloc_ok mm k) \<or>
       (\<exists>j. 0 \<le> j \<and> j < n \<and> PAGING_MAX_PGN \<le> addr div 256 + u64_of_int j)))"
proof -
  have l: "memset_loop 0 n (addr div 256) mm = (r, mm')"
    using assms(2) by (simp add: vmap_pgd_memset_def PAGING_PAGESZ_def)
  from memset_loop_spec [OF assms(1) l] obtain m where m:
    "pt_ok mm'" "r = 0 \<or> r = -1 \<and>
       (pgd mm = None \<or> (\<exists>k. \<not> calloc_ok mm k) \<or> (\<exists>j. 0 \<le> j \<and> j < n \<and> PAGING_MAX_PGN \<le> addr div 256 + u64_of_int j))"
    "0 \<le> m" "m \<le> max 0 n" "r = 0 \<longrightarrow> m = max 0 n"
    "\<forall>p. pte_at mm' p = (if p \<in> (\<lambda>j. addr div 256 + u64_of_int j) ` {0..<m} then ucast memset_pattern else pte_at mm p)"
    by blast
  have "pte_at mm' p = pte_at mm p \<or>
      (\<exists>j. 0 \<le> j \<and> j < n \<and> p = addr div 256 + u64_of_int j) \<and> pte_at mm' p = ucast memset_pattern" for p
  proof (cases "p \<in> (\<lambda>j. addr div 256 + u64_of_int j) ` {0..<m}")
    case True
    then obtain j where j: "0 \<le> j" "j < m" "p = addr div 256 + u64_of_int j" by auto
    then have "j < n" using m(4) by linarith
    then show ?thesis using j True m(6) by auto
  qed (use m(6) in auto)
  moreover have "if r = 0 then \<forall>j. j < 0 \<or> n \<le> j \<or> pte_at mm' (addr div 256 + u64_of_int j) = ucast memset_pattern
     else r = -1 \<and> (pgd mm = None \<or> (\<exists>k. \<not> calloc_ok mm k) \<or>
       (\<exists>j. 0 \<le> j \<and> j < n \<and> PAGING_MAX_PGN \<le> addr div 256 + u64_of_int j))"
    using m(2,5,6) by (auto simp: not_less not_le)
  ultimately show ?thesis using m(1) pattern_flags by blast
qed

section \<open>The dump\<close>

lemma dir_walk_walks: "dir_walk alloc is d mm = (v, d', mm') \<Longrightarrow> mm64_walk_count mm' = mm64_walk_count mm"
proof (induction alloc "is" d mm arbitrary: v d' mm' rule: dir_walk.induct)
  case (2 alloc i j "is" d mm)
  obtain child d1 mm2 where la: "(if alloc then dir_load_or_alloc (length (j # is)) d i (count_access mm)
      else (dir_load d i, d, count_access mm)) = (child, d1, mm2)"
    by (metis prod_cases3)
  have m2: "mm64_walk_count mm2 = mm64_walk_count mm"
    using la by (auto simp: count_access_def dir_load_or_alloc_def Let_def split: option.splits if_splits)
  show ?case
  proof (cases child)
    case None
    then show ?thesis using 2(2) la m2 by (auto simp: Let_def)
  next
    case (Some c)
    obtain y c1 mm3 where w: "dir_walk alloc (j # is) c mm2 = (y, c1, mm3)" by (metis prod_cases3)
    have "mm64_walk_count mm3 = mm64_walk_count mm2"
      by (rule 2(1) [OF refl refl _ refl Some w]) (use la in simp)
    then show ?thesis using 2(2) la Some w m2 by (auto simp: Let_def)
  qed
qed (auto simp: count_access_def)

lemma pte_get_entry_walks:
  assumes "pgd mm \<noteq> None" "pgn < PAGING_MAX_PGN"
  shows "mm64_walk_count (snd (pte_get_entry mm pgn)) = mm64_walk_count mm + 1"
proof -
  obtain root where root: "pgd mm = Some root" using assms by auto
  obtain v d' m' where w: "dir_walk False (pd_path pgn) root (mm\<lparr>mm64_walk_count := mm64_walk_count mm + 1\<rparr>) = (v, d', m')"
    by (metis prod_cases3)
  from dir_walk_walks [OF w] show ?thesis
    using assms(2) root w by (cases v) (simp_all add: pte_get_entry_def pte_walk_def not_le [symmetric])
qed

lemma print_loop_spec:
  "pt_ok mm \<Longrightarrow> print_loop pgs mm = (out, mm') \<Longrightarrow>
   out = filter (\<lambda>(p, u). u \<noteq> 0) (map (\<lambda>p. (p, ucast (pte_at mm p))) pgs) \<and> pte_at mm' = pte_at mm \<and>
   (pgd mm \<noteq> None \<and> (\<forall>p \<in> set pgs. p < PAGING_MAX_PGN) \<longrightarrow>
      mm64_walk_count mm' = mm64_walk_count mm + of_nat (length pgs))"
proof (induction pgs mm arbitrary: out mm' rule: print_loop.induct)
  case (2 pgn pgs mm)
  obtain u mm1 where g: "pte_get_entry mm pgn = (u, mm1)" by (metis prod.exhaust)
  obtain out2 mm2 where l: "print_loop pgs mm1 = (out2, mm2)" by (metis prod.exhaust)
  note s = pte_get_entry_at [OF 2(2) g]
  show ?case
    using 2(1) [OF g [symmetric] _ l] s g l 2(3) pte_get_entry_walks [of mm pgn] by auto
qed simp

text \<open>
  The page table dump. \<^verbatim>\<open>print_pgtbl\<close> from 0 to the end prints exactly the pages
  with a non-zero entry, in ascending order, and changes no entry; but its lookups go through the
  same walk as the program's accesses, so they add 16384 walks to the statistics printed after it.
\<close>

lemma print_pgtbl_lists:
  assumes "pt_ok mm" and "pgd mm \<noteq> None" and "print_pgtbl mm 0 (-1) = (r, out, mm')"
  shows "r = 0 \<and>
    out = filter (\<lambda>(p, u). u \<noteq> 0) (map (\<lambda>k. (of_nat k, ucast (pte_at mm (of_nat k)))) [0..<16384]) \<and>
    pte_at mm' = pte_at mm \<and> mm64_walk_count mm' = mm64_walk_count mm + 16384"
proof -
  have "unat (PAGING_MAX_PGN - 1) = 16383" by (simp add: PAGING_MAX_PGN_eq)
  then have p: "r = 0" "print_loop (map of_nat [0..<16384]) mm = (out, mm')"
    using assms(3) by (simp_all add: print_pgtbl_def Let_def del: upt_Suc)
  have b: "\<forall>p \<in> set (map of_nat [0..<16384]). p < PAGING_MAX_PGN"
    by (auto simp: PAGING_MAX_PGN_eq word_less_nat_alt unat_of_nat)
  show ?thesis
    using print_loop_spec [OF assms(1) p(2)] b assms(2) p(1) by (simp add: comp_def del: upt_Suc)
qed

end
