(* ===== verification/MmVm.thy ===== *)
theory MmVm
  imports Mm64
begin

text \<open>
  The virtual memory areas of src/mm-vm.c: looking an area up, checking that a growth does
  not run into another area, growing an area and backing it with frames. A pointer to an area
  is its position in \<^verbatim>\<open>mm->mmap\<close>. The theorems: the areas of a process stay disjoint, and what
  \<^verbatim>\<open>inc_vma_limit\<close> reports when memory is exhausted.
\<close>

section \<open>Operations\<close>

fun find_vma :: "nat \<Rightarrow> vm_area_struct list \<Rightarrow> int \<Rightarrow> nat option" where
  "find_vma k [] vmaid = None"
| "find_vma k (pvma # vs) vmaid =
     (if int_of_u64 (vm_id pvma) < vmaid then find_vma (Suc k) vs vmaid else Some k)"

definition get_vma_by_num :: "mm_struct option \<Rightarrow> int \<Rightarrow> nat option" where
  "get_vma_by_num mmp vmaid =
     (case mmp of None \<Rightarrow> None | Some mm \<Rightarrow> find_vma 0 (mmap mm) vmaid)"

definition mm_swap_page :: "memphy_struct \<Rightarrow> memphy_struct option \<Rightarrow> addr_t \<Rightarrow> addr_t \<Rightarrow>
    (int \<times> memphy_struct \<times> memphy_struct option) option" where
  "mm_swap_page mram active_mswp vicfpn swpfpn =
     do {
       (_, src, dst) \<leftarrow> swap_cp_page (Some mram) vicfpn active_mswp swpfpn;
       Some (0, the src, dst)
     }"

text \<open>The loop of \<^verbatim>\<open>validate_overlap_vm_area\<close>: does an area other than \<open>cur_area\<close> intersect?\<close>

fun overlaps :: "nat \<Rightarrow> vm_area_struct list \<Rightarrow> nat \<Rightarrow> addr_t \<Rightarrow> addr_t \<Rightarrow> bool" where
  "overlaps k [] cur_area vmastart vmaend = False"
| "overlaps k (vma # vs) cur_area vmastart vmaend =
     (if k \<noteq> cur_area \<and> vmastart < vm_end vma \<and> vmaend > vm_start vma then True
      else overlaps (Suc k) vs cur_area vmastart vmaend)"

definition validate_overlap_vm_area :: "mm_struct option \<Rightarrow> int \<Rightarrow> addr_t \<Rightarrow> addr_t \<Rightarrow> int option" where
  "validate_overlap_vm_area mmp vmaid vmastart vmaend =
     (if vmastart \<ge> vmaend then Some (-1)
      else case mmp of None \<Rightarrow> None
        | Some mm \<Rightarrow>
            if mmap mm = [] then Some (-1)
            else case get_vma_by_num mmp vmaid of
                   None \<Rightarrow> Some (-1)
                 | Some cur_area \<Rightarrow> Some (if overlaps 0 (mmap mm) cur_area vmastart vmaend then -1 else 0))"

definition set_vma :: "mm_struct \<Rightarrow> nat \<Rightarrow> vm_area_struct \<Rightarrow> mm_struct" where
  "set_vma mm k vma = mm\<lparr>mmap := (mmap mm)[k := vma]\<rparr>"

text \<open>
  \<^verbatim>\<open>inc_vma_limit\<close>. The result of \<^verbatim>\<open>vm_map_range\<close> is an unsigned \<^verbatim>\<open>addr_t\<close>, and the code
  compares it with 0 as the words do here.
\<close>

definition inc_vma_limit :: "mm_struct option \<Rightarrow> memphy_struct \<Rightarrow> int \<Rightarrow> addr_t \<Rightarrow>
    (int \<times> mm_struct option \<times> memphy_struct) option" where
  "inc_vma_limit mmp mram vmaid inc_sz =
     (case mmp of None \<Rightarrow> Some (-1, mmp, mram)
      | Some mm \<Rightarrow>
     (case get_vma_by_num mmp vmaid of
        None \<Rightarrow> Some (-1, mmp, mram)
      | Some k \<Rightarrow>
          do {
            let cur_vma = mmap mm ! k;
            let incnumpage = int_of_u64 ((inc_sz + PAGING_PAGESZ - 1) div PAGING_PAGESZ);
            let inc_amt = u64_of_int incnumpage * PAGING_PAGESZ;
            let old_end = sbrk cur_vma;
            let old_vmend = vm_end cur_vma;
            let new_end = old_end + inc_amt;
            valid \<leftarrow> validate_overlap_vm_area mmp vmaid old_end new_end;
            if valid < 0 then Some (-1, mmp, mram)
            else do {
              let vma1 = cur_vma\<lparr>sbrk := new_end\<rparr>;
              let vma2 = (if sbrk vma1 > vm_end vma1 then vma1\<lparr>vm_end := sbrk vma1\<rparr> else vma1);
              let mm1 = set_vma mm k vma2;
              (r, mapped_rg, mm2, mram1) \<leftarrow>
                vm_map_range mm1 mram (vm_start vma2) (vm_end vma2) old_end incnumpage
                  \<lparr>rg_start = 0, rg_end = 0, mode_bit = 0\<rparr>;
              if r < 0
              then Some (-1, Some (set_vma mm2 k (vma2\<lparr>sbrk := old_end, vm_end := old_vmend\<rparr>)), mram1)
              else Some (0, Some mm2, mram1)
            }
          }))"

section \<open>Lookup\<close>

lemma find_vma_Some:
  "find_vma k vs n = Some j \<Longrightarrow> k \<le> j \<and> j - k < length vs \<and> n \<le> int_of_u64 (vm_id (vs ! (j - k))) \<and>
     (\<forall>i < j - k. int_of_u64 (vm_id (vs ! i)) < n)"
proof (induction k vs n rule: find_vma.induct)
  case (2 k v vs n)
  show ?case
  proof (cases "int_of_u64 (vm_id v) < n")
    case True
    with 2 have ih: "Suc k \<le> j \<and> j - Suc k < length vs \<and> n \<le> int_of_u64 (vm_id (vs ! (j - Suc k))) \<and>
        (\<forall>i < j - Suc k. int_of_u64 (vm_id (vs ! i)) < n)" by simp
    then have e: "j - k = Suc (j - Suc k)" by linarith
    show ?thesis using ih True by (auto simp: e nth_Cons split: nat.splits)
  qed (use 2 in auto)
qed simp

lemma overlaps_iff:
  "overlaps k vs c s e \<longleftrightarrow> (\<exists>i < length vs. k + i \<noteq> c \<and> s < vm_end (vs ! i) \<and> vm_start (vs ! i) < e)"
proof (induction k vs c s e rule: overlaps.induct)
  case (2 k v vs c s e)
  show ?case (is "?l \<longleftrightarrow> ?r")
  proof
    assume ?l
    then show ?r using 2 by (cases "k \<noteq> c \<and> s < vm_end v \<and> e > vm_start v") fastforce+
  next
    assume ?r
    then obtain i where i: "i < Suc (length vs)" "k + i \<noteq> c" "s < vm_end ((v # vs) ! i)" "vm_start ((v # vs) ! i) < e"
      by auto
    then show ?l using 2 by (cases i) auto
  qed
qed simp

section \<open>The areas stay disjoint\<close>

text \<open>
  \<open>vmas_ok\<close>: in every area \<open>vm_start \<le> sbrk \<le> vm_end\<close>, and two areas have no address in
  common.
\<close>

definition vma_span :: "vm_area_struct \<Rightarrow> addr_t set" where
  "vma_span v = {vm_start v..<vm_end v}"

definition vmas_ok :: "vm_area_struct list \<Rightarrow> bool" where
  "vmas_ok vs \<longleftrightarrow> (\<forall>v \<in> set vs. vm_start v \<le> sbrk v \<and> sbrk v \<le> vm_end v) \<and>
     (\<forall>i < length vs. \<forall>j < length vs. i \<noteq> j \<longrightarrow> vma_span (vs ! i) \<inter> vma_span (vs ! j) = {})"

lemma vmas_ok_grow:
  assumes ok: "vmas_ok vs" and k: "k < length vs" and lt: "sbrk (vs ! k) < e"
    and no: "\<not> overlaps 0 vs k (sbrk (vs ! k)) e"
    and v: "v = (vs ! k)\<lparr>sbrk := e, vm_end := max (vm_end (vs ! k)) e\<rparr>"
  shows "vmas_ok (vs[k := v])"
proof -
  have old: "vm_start (vs ! k) \<le> sbrk (vs ! k)" "sbrk (vs ! k) \<le> vm_end (vs ! k)"
    using ok k by (auto simp: vmas_ok_def)
  have free: "vma_span v \<inter> vma_span (vs ! j) = {}" if j: "j < length vs" "j \<noteq> k" for j
  proof -
    have "vma_span (vs ! k) \<inter> vma_span (vs ! j) = {}" using ok k j by (auto simp: vmas_ok_def)
    moreover have "vm_end (vs ! j) \<le> sbrk (vs ! k) \<or> e \<le> vm_start (vs ! j)"
      using no j unfolding overlaps_iff by (metis add_0 linorder_not_less)
    moreover have "vma_span v \<subseteq> vma_span (vs ! k) \<union> {sbrk (vs ! k)..<e}"
      using old by (auto simp: vma_span_def v max_def not_le split: if_splits)
    ultimately show ?thesis by (fastforce simp: vma_span_def)
  qed
  have vv: "vm_start v \<le> sbrk v \<and> sbrk v \<le> vm_end v" using old lt by (auto simp: v)
  have pair: "vma_span (vs[k := v] ! i) \<inter> vma_span (vs[k := v] ! j) = {}"
    if "i < length vs" "j < length vs" "i \<noteq> j" for i j
  proof (cases "i = k \<or> j = k")
    case True
    then show ?thesis using free [of i] free [of j] that k by (auto simp: Int_commute)
  next
    case False
    then show ?thesis using ok that by (simp add: vmas_ok_def)
  qed
  show ?thesis
    unfolding vmas_ok_def
  proof (intro conjI ballI allI impI)
    fix w assume "w \<in> set (vs[k := v])"
    then have "w = v \<or> w \<in> set vs" using set_update_subset_insert [of vs k v] by auto
    then show "vm_start w \<le> sbrk w" "sbrk w \<le> vm_end w" using vv ok by (auto simp: vmas_ok_def)
  qed (use pair in simp)
qed

section \<open>Growing an area\<close>

lemma set_vma_simps [simp]:
  "pt_ok (set_vma mm k v) = pt_ok mm" "pte_at (set_vma mm k v) = pte_at mm" "pgd (set_vma mm k v) = pgd mm"
  "symrgtbl (set_vma mm k v) = symrgtbl mm" "fifo_pgn (set_vma mm k v) = fifo_pgn mm"
  "calloc_ok (set_vma mm k v) = calloc_ok mm" "mmap (set_vma mm k v) = (mmap mm)[k := v]"
  by (simp_all add: set_vma_def pt_ok_def dir_pages_def pte_at_def fun_eq_iff)

text \<open>The number of pages \<^verbatim>\<open>inc_vma_limit\<close> asks for, and the new break.\<close>

definition inc_pages :: "addr_t \<Rightarrow> int" where
  "inc_pages inc_sz = int_of_u64 ((inc_sz + 255) div 256)"

definition grown_vma :: "vm_area_struct \<Rightarrow> addr_t \<Rightarrow> vm_area_struct" where
  "grown_vma v inc_sz = (let e = sbrk v + u64_of_int (inc_pages inc_sz) * 256 in v\<lparr>sbrk := e, vm_end := max (vm_end v) e\<rparr>)"

lemma inc_vma_limit_eq:
  assumes "get_vma_by_num (Some mm) vmaid = Some k"
  shows "inc_vma_limit (Some mm) mram vmaid inc_sz =
    (let v = mmap mm ! k; v' = grown_vma v inc_sz
     in if sbrk v' \<le> sbrk v \<or> overlaps 0 (mmap mm) k (sbrk v) (sbrk v') then Some (-1, Some mm, mram)
        else map_option (\<lambda>(r, rg, mm2, mram1). (0, Some mm2, mram1))
               (vm_map_range (set_vma mm k v') mram (vm_start v') (vm_end v') (sbrk v) (inc_pages inc_sz)
                 \<lparr>rg_start = 0, rg_end = 0, mode_bit = 0\<rparr>))"
proof -
  have ne: "mmap mm \<noteq> []" using assms by (auto simp: get_vma_by_num_def)
  have e: "(if vm_end v < x then v\<lparr>sbrk := x, vm_end := x\<rparr> else v\<lparr>sbrk := x\<rparr>) =
      v\<lparr>sbrk := x, vm_end := max (vm_end v) x\<rparr>" for v :: vm_area_struct and x
    by (cases v) (auto simp: max_def)
  show ?thesis
    using assms ne
    by (auto simp: inc_vma_limit_def validate_overlap_vm_area_def grown_vma_def inc_pages_def PAGING_PAGESZ_def
        Let_def e not_less algebra_simps map_option_case split: option.splits)
qed

lemma inc_vma_limit_grows:
  assumes ok: "pt_ok mm" and k: "get_vma_by_num (Some mm) vmaid = Some k"
    and n: "in_int (inc_pages inc_sz * 256)"
    and v: "v' = grown_vma (mmap mm ! k) inc_sz"
    and valid: "\<not> (sbrk v' \<le> sbrk (mmap mm ! k) \<or> overlaps 0 (mmap mm) k (sbrk (mmap mm ! k)) (sbrk v'))"
  shows "\<exists>mm' mram' (ms :: (addr_t \<times> addr_t) list).
      inc_vma_limit (Some mm) mram vmaid inc_sz = Some (0, Some mm', mram') \<and> pt_ok mm' \<and>
      mmap mm' = (mmap mm)[k := v'] \<and> symrgtbl mm' = symrgtbl mm \<and>
      mset (free_fp_list mram') + mset (map snd ms) = mset (free_fp_list mram) \<and>
      mram' = mram\<lparr>free_fp_list := free_fp_list mram'\<rparr> \<and>
      pte_at mm' = map_ptes ms (pte_at mm) \<and> fifo_pgn mm' = rev (map fst ms) @ fifo_pgn mm \<and>
      (length (free_fp_list mram) < nat (inc_pages inc_sz) \<longrightarrow> ms = []) \<and>
      set ms \<subseteq> set (page_pairs 0 (sbrk (mmap mm ! k) div 256) (take (nat (inc_pages inc_sz)) (free_fp_list mram)))"
proof -
  let ?mm1 = "set_vma mm k v'" and ?n = "inc_pages inc_sz" and ?rg = "\<lparr>rg_start = 0, rg_end = 0, mode_bit = 0\<rparr>"
  let ?old = "sbrk (mmap mm ! k)"
  have e: "inc_vma_limit (Some mm) mram vmaid inc_sz =
      map_option (\<lambda>(r, rg, mm2, mram1). (0, Some mm2, mram1))
        (vm_map_range ?mm1 mram (vm_start v') (vm_end v') ?old ?n ?rg)"
    using inc_vma_limit_eq [OF k, of mram inc_sz] valid by (simp add: v Let_def)
  have ok1: "pt_ok ?mm1" using ok by simp
  note c = vm_map_range_cases [OF ok1 n, of mram "vm_start v'" "vm_end v'" ?old ?rg]
  show ?thesis
  proof (cases "nat ?n \<le> length (free_fp_list mram)")
    case True
    let ?fr = "take (nat ?n) (free_fp_list mram)"
    obtain ms rg mm' mram' where r: "vm_map_range ?mm1 mram (vm_start v') (vm_end v') ?old ?n ?rg = Some (0, rg, mm', mram')"
      and m: "mapped_ok (page_pairs 0 (?old div 256) ?fr) ?mm1
        (mram\<lparr>free_fp_list := drop (nat ?n) (free_fp_list mram)\<rparr>) ms mm' mram'"
      using c True by auto
    have "map snd (page_pairs 0 (?old div 256) ?fr) = ?fr" by (simp add: page_pairs_def)
    moreover have "mset (drop (nat ?n) (free_fp_list mram)) + mset ?fr = mset (free_fp_list mram)"
      by (metis append_take_drop_id mset_append union_commute)
    ultimately have "mset (free_fp_list mram') + mset (map snd ms) = mset (free_fp_list mram)"
      using m by (simp add: mapped_ok_def)
    moreover have "mram' = mram\<lparr>free_fp_list := free_fp_list mram'\<rparr>"
      using m by (metis (no_types, lifting) mapped_ok_def memphy_struct.update_convs(5) memphy_struct.surjective
          memphy_struct.fold_congs(5))
    ultimately show ?thesis
      using e r m True by (intro exI [of _ mm'] exI [of _ mram'] exI [of _ ms]) (use mapped_ok_subset [OF m] in \<open>simp add: mapped_ok_def rest4_def\<close>)
  next
    case False
    then show ?thesis
      using e c ok1
      by (intro exI [of _ ?mm1] exI [of _ "mram\<lparr>free_fp_list := rev (free_fp_list mram)\<rparr>"] exI [of _ "[]"]) simp
  qed
qed

text \<open>With enough frames and directory pages the whole growth is mapped.\<close>

lemma inc_vma_limit_maps_all:
  assumes ok: "pt_ok mm" "pgd mm \<noteq> None" "\<forall>k. calloc_ok mm k" and k: "get_vma_by_num (Some mm) vmaid = Some k"
    and n: "inc_pages inc_sz = int n" "in_int (int n * 256)" "n \<le> length (free_fp_list mram)"
    and v: "v' = grown_vma (mmap mm ! k) inc_sz"
    and valid: "\<not> (sbrk v' \<le> sbrk (mmap mm ! k) \<or> overlaps 0 (mmap mm) k (sbrk (mmap mm ! k)) (sbrk v'))"
    and lim: "unat (sbrk (mmap mm ! k) div 256) + n \<le> 16384"
  shows "\<exists>mm'. inc_vma_limit (Some mm) mram vmaid inc_sz =
       Some (0, Some mm', mram\<lparr>free_fp_list := drop n (free_fp_list mram)\<rparr>) \<and>
     pt_ok mm' \<and> mmap mm' = (mmap mm)[k := v'] \<and> symrgtbl mm' = symrgtbl mm \<and> calloc_ok mm' = calloc_ok mm \<and>
     pgd mm' \<noteq> None \<and>
     (\<forall>p. if unat (sbrk (mmap mm ! k) div 256) \<le> unat p \<and> unat p < unat (sbrk (mmap mm ! k) div 256) + n
         then pte_at mm' p = fpn_pte (pte_at mm p) (free_fp_list mram ! (unat p - unat (sbrk (mmap mm ! k) div 256)))
         else pte_at mm' p = pte_at mm p)"
proof -
  let ?mm1 = "set_vma mm k v'" and ?rg = "\<lparr>rg_start = 0, rg_end = 0, mode_bit = 0\<rparr>"
  let ?old = "sbrk (mmap mm ! k)"
  have e: "inc_vma_limit (Some mm) mram vmaid inc_sz =
      map_option (\<lambda>(r, rg, mm2, mram1). (0, Some mm2, mram1))
        (vm_map_range ?mm1 mram (vm_start v') (vm_end v') ?old (int n) ?rg)"
    using inc_vma_limit_eq [OF k, of mram inc_sz] valid by (simp add: v Let_def n(1))
  have ok1: "pt_ok ?mm1" "pgd ?mm1 \<noteq> None" "\<forall>k. calloc_ok ?mm1 k" using ok by simp_all
  obtain rg mm' where r: "vm_map_range ?mm1 mram (vm_start v') (vm_end v') ?old (int n) ?rg =
        Some (0, rg, mm', mram\<lparr>free_fp_list := drop n (free_fp_list mram)\<rparr>)"
    and pte: "\<forall>p. if unat (?old div 256) \<le> unat p \<and> unat p < unat (?old div 256) + n
         then pte_at mm' p = fpn_pte (pte_at ?mm1 p) (free_fp_list mram ! (unat p - unat (?old div 256)))
         else pte_at mm' p = pte_at ?mm1 p"
    using vm_map_range_all [OF ok1 n(2,3) lim, of "vm_start v'" "vm_end v'" ?rg] by blast
  have "\<exists>ms mram'. mapped_ok (page_pairs 0 (?old div 256) (take n (free_fp_list mram))) ?mm1
        (mram\<lparr>free_fp_list := drop n (free_fp_list mram)\<rparr>) ms mm' mram'"
    using vm_map_range_cases [OF ok1(1) n(2), of mram "vm_start v'" "vm_end v'" ?old ?rg] n(3) r by auto
  then have "pt_ok mm'" "rest4 mm' = rest4 ?mm1" by (auto simp: mapped_ok_def)
  then show ?thesis
    using e r pte rest4_eqD [of mm' ?mm1] ok by (intro exI [of _ mm']) simp
qed

lemma get_vma_bound: "get_vma_by_num (Some mm) vmaid = Some k \<Longrightarrow> k < length (mmap mm)"
  using find_vma_Some [of 0 "mmap mm" vmaid k] by (simp add: get_vma_by_num_def)

lemma inc_vma_limit_refuses:
  assumes "get_vma_by_num (Some mm) vmaid = None \<or>
    (\<exists>k. get_vma_by_num (Some mm) vmaid = Some k \<and>
      (let v = mmap mm ! k; v' = grown_vma v inc_sz
       in sbrk v' \<le> sbrk v \<or> overlaps 0 (mmap mm) k (sbrk v) (sbrk v')))"
  shows "inc_vma_limit (Some mm) mram vmaid inc_sz = Some (-1, Some mm, mram)"
  using assms inc_vma_limit_eq [of mm vmaid _ mram inc_sz]
  by (auto simp: Let_def inc_vma_limit_def)

text \<open>
  Property C26: growing an area keeps the memory of the process consistent. For any request
  whose page count fits an \<^verbatim>\<open>int\<close>, \<^verbatim>\<open>inc_vma_limit\<close> returns 0 or -1. With -1 nothing changed.
  With 0 the areas are still pairwise disjoint with \<open>vm_start \<le> sbrk \<le> vm_end\<close>, exactly one area
  grew, by whole pages at its break, and no frame was lost: the frames now free and those of the
  pages mapped are those that were free.
\<close>

theorem inc_vma_limit_safe:
  assumes "pt_ok mm" and "vmas_ok (mmap mm)" and "in_int (inc_pages inc_sz * 256)"
  shows "\<exists>r mm' mram' ms. inc_vma_limit (Some mm) mram vmaid inc_sz = Some (r, Some mm', mram') \<and>
    pt_ok mm' \<and> vmas_ok (mmap mm') \<and> symrgtbl mm' = symrgtbl mm \<and>
    mset (free_fp_list mram') + mset (map snd ms) = mset (free_fp_list mram) \<and>
    pte_at mm' = map_ptes ms (pte_at mm) \<and>
    (r = -1 \<and> mm' = mm \<and> mram' = mram \<or>
     r = 0 \<and> (\<exists>k < length (mmap mm). sbrk (mmap mm ! k) < sbrk (mmap mm' ! k) \<and>
        sbrk (mmap mm' ! k) = sbrk (mmap mm ! k) + u64_of_int (inc_pages inc_sz) * 256 \<and>
        mmap mm' = (mmap mm)[k := mmap mm' ! k]))"
proof (cases "\<exists>k. get_vma_by_num (Some mm) vmaid = Some k \<and>
    \<not> (let v = mmap mm ! k; v' = grown_vma v inc_sz in sbrk v' \<le> sbrk v \<or> overlaps 0 (mmap mm) k (sbrk v) (sbrk v'))")
  case False
  then have "inc_vma_limit (Some mm) mram vmaid inc_sz = Some (-1, Some mm, mram)"
    by (intro inc_vma_limit_refuses) (metis not_None_eq)
  then show ?thesis using assms by (intro exI [of _ "[]"] exI) auto
next
  case True
  then obtain k where k: "get_vma_by_num (Some mm) vmaid = Some k" and
    valid: "\<not> (sbrk (grown_vma (mmap mm ! k) inc_sz) \<le> sbrk (mmap mm ! k) \<or>
       overlaps 0 (mmap mm) k (sbrk (mmap mm ! k)) (sbrk (grown_vma (mmap mm ! k) inc_sz)))"
    by (auto simp: Let_def)
  let ?v = "grown_vma (mmap mm ! k) inc_sz"
  have kl: "k < length (mmap mm)" using get_vma_bound [OF k] .
  obtain mm' mram' and ms :: "(addr_t \<times> addr_t) list" where
    e: "inc_vma_limit (Some mm) mram vmaid inc_sz = Some (0, Some mm', mram')" "pt_ok mm'"
      "mmap mm' = (mmap mm)[k := ?v]" "symrgtbl mm' = symrgtbl mm"
      "mset (free_fp_list mram') + mset (map snd ms) = mset (free_fp_list mram)"
      "pte_at mm' = map_ptes ms (pte_at mm)"
    using inc_vma_limit_grows [OF assms(1) k assms(3) refl valid, of mram] by blast
  have "vmas_ok (mmap mm')"
    unfolding e(3) by (rule vmas_ok_grow [OF assms(2) kl]) (use valid in \<open>auto simp: grown_vma_def Let_def\<close>)
  moreover have "sbrk (mmap mm ! k) < sbrk (mmap mm' ! k) \<and>
        sbrk (mmap mm' ! k) = sbrk (mmap mm ! k) + u64_of_int (inc_pages inc_sz) * 256 \<and>
        mmap mm' = (mmap mm)[k := mmap mm' ! k]"
    using valid kl e(3) by (simp add: not_le) (simp add: grown_vma_def Let_def)
  ultimately show ?thesis using e kl by blast
qed

definition demo_vma :: vm_area_struct where
  "demo_vma = \<lparr>vm_id = 0, vm_start = 0, vm_end = 0, sbrk = 0, vm_freerg_list = []\<rparr>"

definition demo_proc_mm :: mm_struct where
  "demo_proc_mm = demo_mm\<lparr>mmap := [demo_vma]\<rparr>"

lemma demo_proc_mm_ok: "pt_ok demo_proc_mm" "vmas_ok (mmap demo_proc_mm)" "pgd demo_proc_mm \<noteq> None"
  "\<forall>k. calloc_ok demo_proc_mm k"
  by (simp_all add: demo_proc_mm_def demo_mm_def pt_ok_def dir_pages_def vmas_ok_def demo_vma_def)

lemma demo_pages: "inc_pages 300 = 2" "inc_pages 4000 = 16"
  by (simp_all add: inc_pages_def int_of_u64_def)

theorem inc_vma_limit_safe_witness:
  "\<exists>r mm' mram'. inc_vma_limit (Some demo_proc_mm) demo_dev 0 300 = Some (r, Some mm', mram') \<and>
     vmas_ok (mmap mm')"
proof -
  have "in_int (inc_pages 300 * 256)" by (simp add: demo_pages in_int_def)
  from inc_vma_limit_safe [OF demo_proc_mm_ok(1,2) this, of demo_dev 0] show ?thesis by blast
qed

text \<open>
  Property C33: running out of memory is reported as success. \<^verbatim>\<open>vm_map_range\<close> returns
  \<^verbatim>\<open>(addr_t)-1\<close> when there are too few frames, and \<^verbatim>\<open>inc_vma_limit\<close> tests that unsigned value
  with \<^verbatim>\<open>< 0\<close>: the restoring branch is dead. So when the growth is otherwise valid and the free
  list is shorter than the number of pages, it returns 0 with the break moved, although no page
  of the new range is mapped: every entry is as it was.
\<close>

theorem inc_vma_limit_hides_oom:
  assumes "pt_ok mm" and "get_vma_by_num (Some mm) vmaid = Some k" and "in_int (inc_pages inc_sz * 256)"
    and "\<not> overlaps 0 (mmap mm) k (sbrk (mmap mm ! k)) (sbrk (grown_vma (mmap mm ! k) inc_sz))"
    and "sbrk (mmap mm ! k) < sbrk (grown_vma (mmap mm ! k) inc_sz)"
    and "length (free_fp_list mram) < nat (inc_pages inc_sz)"
  shows "\<exists>mm' mram'. inc_vma_limit (Some mm) mram vmaid inc_sz = Some (0, Some mm', mram') \<and>
    pte_at mm' = pte_at mm \<and> mset (free_fp_list mram') = mset (free_fp_list mram) \<and>
    sbrk (mmap mm' ! k) = sbrk (mmap mm ! k) + u64_of_int (inc_pages inc_sz) * 256"
proof -
  have valid: "\<not> (sbrk (grown_vma (mmap mm ! k) inc_sz) \<le> sbrk (mmap mm ! k) \<or>
       overlaps 0 (mmap mm) k (sbrk (mmap mm ! k)) (sbrk (grown_vma (mmap mm ! k) inc_sz)))"
    using assms(4,5) by (simp add: not_le)
  show ?thesis
    using inc_vma_limit_grows [OF assms(1-3) refl valid, of mram] assms(6) get_vma_bound [OF assms(2)]
    by (fastforce simp: grown_vma_def Let_def)
qed

theorem inc_vma_limit_hides_oom_witness:
  "\<exists>mm' mram'. inc_vma_limit (Some demo_proc_mm) demo_dev 0 4000 = Some (0, Some mm', mram') \<and>
     pte_at mm' = pte_at demo_proc_mm \<and> sbrk (mmap mm' ! 0) = 4096"
proof -
  have g: "get_vma_by_num (Some demo_proc_mm) 0 = Some 0"
    by (simp add: get_vma_by_num_def demo_proc_mm_def demo_vma_def int_of_u64_def)
  have v: "mmap demo_proc_mm ! 0 = demo_vma" "sbrk demo_vma = 0" "sbrk (grown_vma demo_vma 4000) = 4096"
    by (simp_all add: demo_proc_mm_def demo_vma_def grown_vma_def demo_pages u64_of_int_def)
  have o: "\<not> overlaps 0 (mmap demo_proc_mm) 0 (sbrk (mmap demo_proc_mm ! 0)) (sbrk (grown_vma (mmap demo_proc_mm ! 0) 4000))"
    by (simp add: demo_proc_mm_def)
  have fl: "length (free_fp_list demo_dev) = 4"
    by (simp add: demo_dev_def wf_init_memphy upto_rec1)
  show ?thesis
    using inc_vma_limit_hides_oom [OF demo_proc_mm_ok(1) g _ o, of demo_dev]
    by (simp add: v fl demo_pages in_int_def u64_of_int_def) blast
qed

end
