(* ===== verification/Kernel.thy ===== *)
theory Kernel
  imports Sched MmVm
begin

text \<open>
  The kernel state \<^verbatim>\<open>struct krnl_t os\<close> (include/common.h, src/os.c) with what hangs off it: the
  scheduler, the live PCBs, the RAM and swap devices, and the static variables of the kernel
  memory pool in src/libmem.c; the system call layer (src/syscall.c, src/syscall.tbl,
  src/sys_mem.c, src/sys_listsyscall.c, src/libstd.c).
\<close>

section \<open>State\<close>

text \<open>\<^verbatim>\<open>struct kmem_cache_pool_state\<close>.\<close>

record kmem_cache_pool_state =
  pool_used :: int
  pool_size :: int
  pool_align :: int
  pool_storage :: addr_t
  next_slot :: int

text \<open>
  \<open>active_swp\<close> is the pointer \<^verbatim>\<open>active_mswp\<close> into the array \<open>mswp\<close>, or NULL. \<open>kmem_storage\<close>
  is the byte array of 65536 cells.
\<close>

record machine =
  k_sched :: sched_state
  procs :: pcb_store
  k_mram :: memphy_struct
  k_mswp :: "memphy_struct list"
  active_swp :: "nat option"
  active_mswp_id :: int
  kmem_storage :: "nat \<Rightarrow> byte"
  kmem_brk :: int
  kmem_pools :: "kmem_cache_pool_state list"

definition active_mswp :: "machine \<Rightarrow> memphy_struct option" where
  "active_mswp m = (case active_swp m of None \<Rightarrow> None
     | Some i \<Rightarrow> if i < length (k_mswp m) then Some (k_mswp m ! i) else None)"

definition set_mswp :: "machine \<Rightarrow> memphy_struct option \<Rightarrow> machine" where
  "set_mswp m d = (case (active_swp m, d) of
     (Some i, Some dev) \<Rightarrow> m\<lparr>k_mswp := (k_mswp m)[i := dev]\<rparr> | _ \<Rightarrow> m)"

text \<open>\<^verbatim>\<open>caller->mm\<close>: undefined for a dangling \<^verbatim>\<open>caller\<close>, possibly NULL otherwise.\<close>

definition caller_mm :: "machine \<Rightarrow> pref \<Rightarrow> mm_struct option option" where
  "caller_mm m p = map_option pcb_mm (procs m p)"

definition set_mm :: "machine \<Rightarrow> pref \<Rightarrow> mm_struct option \<Rightarrow> machine" where
  "set_mm m p mm = m\<lparr>procs := (procs m)(p := map_option (\<lambda>c. c\<lparr>pcb_mm := mm\<rparr>) (procs m p))\<rparr>"

text \<open>\<^verbatim>\<open>caller->mm->...\<close>: undefined if the pointer is NULL.\<close>

definition the_mm :: "machine \<Rightarrow> pref \<Rightarrow> mm_struct option" where
  "the_mm m p = Option.bind (caller_mm m p) id"

section \<open>src/sys_mem.c\<close>

text \<open>The members of \<^verbatim>\<open>struct sc_regs\<close> that the calls use.\<close>

record sc_regs =
  a1 :: arg_t
  a2 :: arg_t
  a3 :: arg_t

definition SYSMEM_MAP_OP :: int where "SYSMEM_MAP_OP = 1"
definition SYSMEM_INC_OP :: int where "SYSMEM_INC_OP = 2"
definition SYSMEM_SWP_OP :: int where "SYSMEM_SWP_OP = 3"
definition SYSMEM_IO_READ :: int where "SYSMEM_IO_READ = 4"
definition SYSMEM_IO_WRITE :: int where "SYSMEM_IO_WRITE = 5"

text \<open>\<^verbatim>\<open>vmap_pgd_memset\<close> through a PCB: without an \<^verbatim>\<open>mm\<close> every walk returns NULL.\<close>

definition memset_caller :: "mm_struct option \<Rightarrow> addr_t \<Rightarrow> int \<Rightarrow> int \<times> mm_struct option" where
  "memset_caller mmp addr pgnum =
     (case mmp of None \<Rightarrow> (if 0 < pgnum then -1 else 0, None)
      | Some mm \<Rightarrow> (case vmap_pgd_memset mm addr pgnum of (r, mm1) \<Rightarrow> (r, Some mm1)))"

definition sys_memmap :: "machine \<Rightarrow> u32 \<Rightarrow> sc_regs \<Rightarrow> (int \<times> machine \<times> sc_regs) option" where
  "sys_memmap m n scr =
     do {
       let memop = int_of_u64 (a1 scr);
       found \<leftarrow> sched_find_proc_by_pid (k_sched m, procs m) n;
       case found of
         None \<Rightarrow> Some (-1, m, scr)
       | Some caller \<Rightarrow>
           if memop = SYSMEM_MAP_OP then do {
             mmp \<leftarrow> caller_mm m caller;
             let (r, mmp1) = memset_caller mmp (a2 scr) (int_of_u64 (a3 scr));
             Some (r, set_mm m caller mmp1, scr)
           }
           else if memop = SYSMEM_INC_OP then do {
             mmp \<leftarrow> caller_mm m caller;
             (r, mmp1, ram) \<leftarrow> inc_vma_limit mmp (k_mram m) (int_of_u64 (a2 scr)) (a3 scr);
             Some (r, set_mm (m\<lparr>k_mram := ram\<rparr>) caller mmp1, scr)
           }
           else if memop = SYSMEM_SWP_OP then do {
             (r, ram, swp) \<leftarrow> mm_swap_page (k_mram m) (active_mswp m) (a2 scr) (a3 scr);
             Some (r, set_mswp (m\<lparr>k_mram := ram\<rparr>) swp, scr)
           }
           else if memop = SYSMEM_IO_READ then do {
             (r, ram, val) \<leftarrow> MEMPHY_read (Some (k_mram m)) (a2 scr) 0;
             if r \<noteq> 0 then Some (-1, m\<lparr>k_mram := the ram\<rparr>, scr)
             else Some (0, m\<lparr>k_mram := the ram\<rparr>, scr\<lparr>a3 := u64_of_byte val\<rparr>)
           }
           else if memop = SYSMEM_IO_WRITE then do {
             (r, ram) \<leftarrow> MEMPHY_write (Some (k_mram m)) (a2 scr) (byte_of_u64 (a3 scr));
             Some (r, m\<lparr>k_mram := the ram\<rparr>, scr)
           }
           else Some (-1, m, scr)
     }"

section \<open>src/syscall.c\<close>

text \<open>
  The rows of src/syscall.tbl; src/syscalltbl.sh turns each into a case of \<^verbatim>\<open>_syscall\<close> and an
  entry \<^verbatim>\<open>nr-symbol\<close> of \<^verbatim>\<open>sys_call_table\<close>.
\<close>

definition syscall_tbl :: "(u32 \<times> string) list" where
  "syscall_tbl = [(0, ''sys_listsyscall''), (17, ''sys_memmap'')]"

definition sys_call_table :: "string list" where
  "sys_call_table = [''0-sys_listsyscall'', ''17-sys_memmap'']"

text \<open>\<^verbatim>\<open>__sys_listsyscall\<close>: the result and the lines it prints.\<close>

definition sys_listsyscall :: "int \<times> string list" where
  "sys_listsyscall = (0, sys_call_table)"

definition sys_ni_syscall :: int where
  "sys_ni_syscall = 0"

definition syscall :: "machine \<Rightarrow> u32 \<Rightarrow> u32 \<Rightarrow> sc_regs \<Rightarrow> (int \<times> machine \<times> sc_regs) option" where
  "syscall m n nr scr =
     (case map_of syscall_tbl nr of
        None \<Rightarrow> Some (sys_ni_syscall, m, scr)
      | Some entry \<Rightarrow> if entry = ''sys_memmap'' then sys_memmap m n scr
                    else Some (fst sys_listsyscall, m, scr))"

definition libsyscall :: "machine \<Rightarrow> pref \<Rightarrow> u32 \<Rightarrow> arg_t \<Rightarrow> arg_t \<Rightarrow> arg_t \<Rightarrow> (int \<times> machine) option" where
  "libsyscall m caller syscall_idx x1 x2 x3 =
     do {
       pcb \<leftarrow> procs m caller;
       (r, m1, scr) \<leftarrow> syscall m (pid pcb) syscall_idx \<lparr>a1 = x1, a2 = x2, a3 = x3\<rparr>;
       Some (r, m1)
     }"

section \<open>Lookup of the caller\<close>

text \<open>A process is registered if the kernel finds it by its own PID.\<close>

definition registered :: "machine \<Rightarrow> pref \<Rightarrow> bool" where
  "registered m p \<longleftrightarrow> (\<exists>pcb. procs m p = Some pcb \<and>
     sched_find_proc_by_pid (k_sched m, procs m) (pid pcb) = Some (Some p))"

lemma find_pid_cong:
  "(\<And>r. map_option pid (store r) = map_option pid (store' r)) \<Longrightarrow> find_pid store n rs = find_pid store' n rs"
proof (induction store n rs rule: find_pid.induct)
  case (3 store n r rs)
  have "map_option pid (store r) = map_option pid (store' r)" by (rule 3(2))
  then show ?case using 3 by (cases "store r"; cases "store' r") auto
qed auto

lemma registered_cong:
  assumes "k_sched m' = k_sched m" "\<And>r. map_option pid (procs m' r) = map_option pid (procs m r)"
  shows "registered m' p = registered m p"
proof -
  have "sched_find_proc_by_pid (k_sched m', procs m') n = sched_find_proc_by_pid (k_sched m, procs m) n" for n
    using find_pid_cong [OF assms(2)] by (simp add: sched_find_proc_by_pid_def assms(1))
  moreover have "map_option pid (procs m' p) = map_option pid (procs m p)" by (rule assms(2))
  ultimately show ?thesis by (auto simp: registered_def map_option_case split: option.splits)
qed

lemma set_mm_pid: "map_option pid (procs (set_mm m p mm) r) = map_option pid (procs m r)"
  by (auto simp: set_mm_def option.map_comp comp_def)

lemma set_mm_simps [simp]:
  "k_sched (set_mm m p mm) = k_sched m" "k_mram (set_mm m p mm) = k_mram m"
  "k_mswp (set_mm m p mm) = k_mswp m" "active_swp (set_mm m p mm) = active_swp m"
  "active_mswp (set_mm m p mm) = active_mswp m" "active_mswp_id (set_mm m p mm) = active_mswp_id m"
  "kmem_storage (set_mm m p mm) = kmem_storage m" "kmem_brk (set_mm m p mm) = kmem_brk m"
  "kmem_pools (set_mm m p mm) = kmem_pools m"
  by (simp_all add: set_mm_def active_mswp_def split: option.split)

lemma registered_set_mm [simp]: "registered (set_mm m p mm) q = registered m q"
  by (rule registered_cong) (simp_all add: set_mm_pid)

lemma registered_set_mram [simp]: "registered (m\<lparr>k_mram := ram\<rparr>) = registered m"
  by (simp add: fun_eq_iff registered_def)

lemma caller_mm_set_mram [simp]: "caller_mm (m\<lparr>k_mram := ram\<rparr>) = caller_mm m"
  "the_mm (m\<lparr>k_mram := ram\<rparr>) = the_mm m"
  by (simp_all add: fun_eq_iff caller_mm_def the_mm_def)

lemma caller_mm_set_mm [simp]:
  "caller_mm (set_mm m p mm) q = (if q = p \<and> procs m p \<noteq> None then Some mm else caller_mm m q)"
  by (auto simp: caller_mm_def set_mm_def)

lemma the_mm_Some: "the_mm m p = Some mm \<longleftrightarrow> caller_mm m p = Some (Some mm)"
  by (auto simp: the_mm_def bind_Some_iff)

lemma the_mm_set_mm [simp]: "the_mm m p = Some mm0 \<Longrightarrow> the_mm (set_mm m p (Some mm)) q = (if q = p then Some mm else the_mm m q)"
  by (auto simp: the_mm_def caller_mm_def bind_Some_iff set_mm_def)

lemma syscall_17: "syscall m n 17 scr = sys_memmap m n scr"
  by (simp add: syscall_def syscall_tbl_def)

text \<open>The four memory calls of a registered process act on that process.\<close>

lemma sys_memmap_inc:
  assumes "registered m p" "procs m p = Some pcb" "a1 scr = 2" "the_mm m p = Some mm"
  shows "sys_memmap m (pid pcb) scr =
    map_option (\<lambda>(r, mmp1, ram). (r, set_mm (m\<lparr>k_mram := ram\<rparr>) p mmp1, scr))
      (inc_vma_limit (Some mm) (k_mram m) (int_of_u64 (a2 scr)) (a3 scr))"
proof -
  have f: "sched_find_proc_by_pid (k_sched m, procs m) (pid pcb) = Some (Some p)"
    using assms(1,2) by (auto simp: registered_def)
  show ?thesis
    using assms(3,4) f
    by (simp add: sys_memmap_def SYSMEM_MAP_OP_def SYSMEM_INC_OP_def int_of_u64_def the_mm_Some
        map_option_case split: option.splits)
qed

lemma sys_memmap_read:
  assumes "registered m p" "procs m p = Some pcb" "a1 scr = 4" "wf_dev (k_mram m)" "uint (a2 scr) < maxsz (k_mram m)"
  obtains ram b where "sys_memmap m (pid pcb) scr = Some (0, m\<lparr>k_mram := ram\<rparr>, scr\<lparr>a3 := u64_of_byte b\<rparr>)"
    and "load_byte (k_mram m) (a2 scr) = Some b" and "load_byte ram = load_byte (k_mram m)" and "wf_dev ram"
    and "maxsz ram = maxsz (k_mram m)" and "free_fp_list ram = free_fp_list (k_mram m)"
proof -
  have f: "sched_find_proc_by_pid (k_sched m, procs m) (pid pcb) = Some (Some p)"
    using assms(1,2) by (auto simp: registered_def)
  obtain ram b where r: "MEMPHY_read (Some (k_mram m)) (a2 scr) 0 = Some (0, Some ram, b)"
    "load_byte (k_mram m) (a2 scr) = Some b" "load_byte ram = load_byte (k_mram m)" "wf_dev ram"
    "maxsz ram = maxsz (k_mram m)" "free_fp_list ram = free_fp_list (k_mram m)"
    using MEMPHY_read_spec [OF assms(4,5), of 0] by metis
  have "sys_memmap m (pid pcb) scr = Some (0, m\<lparr>k_mram := ram\<rparr>, scr\<lparr>a3 := u64_of_byte b\<rparr>)"
    using f r(1) assms(3)
    by (simp add: sys_memmap_def SYSMEM_MAP_OP_def SYSMEM_INC_OP_def SYSMEM_SWP_OP_def SYSMEM_IO_READ_def int_of_u64_def)
  then show thesis using r that by blast
qed

lemma sys_memmap_write:
  assumes "registered m p" "procs m p = Some pcb" "a1 scr = 5" "wf_dev (k_mram m)" "uint (a2 scr) < maxsz (k_mram m)"
  obtains ram where "sys_memmap m (pid pcb) scr = Some (0, m\<lparr>k_mram := ram\<rparr>, scr)"
    and "load_byte ram = (load_byte (k_mram m))(a2 scr \<mapsto> byte_of_u64 (a3 scr))" and "wf_dev ram"
    and "maxsz ram = maxsz (k_mram m)" and "free_fp_list ram = free_fp_list (k_mram m)"
proof -
  have f: "sched_find_proc_by_pid (k_sched m, procs m) (pid pcb) = Some (Some p)"
    using assms(1,2) by (auto simp: registered_def)
  obtain ram where r: "MEMPHY_write (Some (k_mram m)) (a2 scr) (byte_of_u64 (a3 scr)) = Some (0, Some ram)"
    "load_byte ram = (load_byte (k_mram m))(a2 scr \<mapsto> byte_of_u64 (a3 scr))" "wf_dev ram"
    "maxsz ram = maxsz (k_mram m)" "free_fp_list ram = free_fp_list (k_mram m)"
    using MEMPHY_write_spec [OF assms(4,5), of "byte_of_u64 (a3 scr)"] by metis
  have "sys_memmap m (pid pcb) scr = Some (0, m\<lparr>k_mram := ram\<rparr>, scr)"
    using f r(1) assms(3)
    by (simp add: sys_memmap_def SYSMEM_MAP_OP_def SYSMEM_INC_OP_def SYSMEM_SWP_OP_def SYSMEM_IO_READ_def
        SYSMEM_IO_WRITE_def int_of_u64_def)
  then show thesis using r that by blast
qed

section \<open>Properties of the system call layer\<close>

text \<open>
  Dispatch. The table has two entries. Call 0 prints the table and changes nothing;
  call 17 is the memory call, which answers -1 and changes nothing when the PID is not on the
  running list; every other number is accepted with the result 0, as if it had succeeded, and
  without any effect.
\<close>

lemma syscall_dispatch:
  "syscall m n nr scr =
     (if nr = 17 then sys_memmap m n scr else Some (0, m, scr)) \<and>
   fst sys_listsyscall = 0 \<and> length (snd sys_listsyscall) = length syscall_tbl \<and>
   (if sched_find_proc_by_pid (k_sched m, procs m) n = Some None then sys_memmap m n scr = Some (-1, m, scr)
    else True)"
  by (auto simp: syscall_def syscall_tbl_def sys_ni_syscall_def sys_listsyscall_def sys_call_table_def
      sys_memmap_def)

text \<open>
  Property C34: the memory call lets every process write raw physical memory. A user program's
  SYSCALL instruction may name call 17 with operation 5: the handler passes the address on to
  \<^verbatim>\<open>MEMPHY_write\<close> without consulting any page table. So for every physical address, whichever
  process its frame belongs to, the byte becomes the one given; every other byte stays.
\<close>

theorem memmap_raw_physical_access:
  assumes "registered m p" and "wf_dev (k_mram m)" and "uint a < maxsz (k_mram m)"
  shows "\<exists>m'. libsyscall m p 17 5 a v = Some (0, m') \<and> procs m' = procs m \<and>
    load_byte (k_mram m') = (load_byte (k_mram m))(a \<mapsto> byte_of_u64 v)"
proof -
  obtain pcb where pcb: "procs m p = Some pcb" using assms(1) by (auto simp: registered_def)
  let ?r = "\<lparr>a1 = 5, a2 = a, a3 = v\<rparr>"
  have a: "uint (a2 ?r) < maxsz (k_mram m)" using assms(3) by simp
  obtain ram where w: "sys_memmap m (pid pcb) ?r = Some (0, m\<lparr>k_mram := ram\<rparr>, ?r)"
    "load_byte ram = (load_byte (k_mram m))(a \<mapsto> byte_of_u64 v)"
    using sys_memmap_write [OF assms(1) pcb _ assms(2) a] by auto
  then have "libsyscall m p 17 5 a v = Some (0, m\<lparr>k_mram := ram\<rparr>)"
    using pcb by (simp add: libsyscall_def syscall_17)
  then show ?thesis using w(2) by simp
qed

section \<open>A machine with one process\<close>

definition demo_user_pcb :: pcb_t where
  "demo_user_pcb = demo_pcb\<lparr>pcb_mm := Some (demo_proc_mm\<lparr>symrgtbl :=
     replicate PAGING_MAX_SYMTBL_SZ \<lparr>rg_start = 0, rg_end = 0, mode_bit = 0\<rparr>\<rparr>)\<rparr>"

definition demo_machine :: machine where
  "demo_machine =
     \<lparr>k_sched = (init_scheduler static_sched)\<lparr>krnl_linked := True, running_list := enq 4 static_queue\<rparr>,
      procs = [4 \<mapsto> demo_user_pcb], k_mram = demo_dev, k_mswp = [demo_dev], active_swp = Some 0,
      active_mswp_id = 0, kmem_storage = (\<lambda>_. 0), kmem_brk = 0,
      kmem_pools = replicate 32 \<lparr>pool_used = 0, pool_size = 0, pool_align = 0, pool_storage = 0, next_slot = 0\<rparr>\<rparr>"

lemma demo_machine_registered: "registered demo_machine 4"
proof -
  let ?q = "enq 4 static_queue :: pref queue_t"
  have w: "wf_queue (static_queue :: pref queue_t)" "q_list (static_queue :: pref queue_t) = []"
    by (simp_all add: wf_queue_def q_list_def static_queue_def)
  have "take (q_size ?q) (q_proc ?q) = [Some 4]"
    using enq_list [OF w(1), of 4] w take_size_map_Some [OF enq_wf [OF w(1), of 4]]
    by (simp add: MAX_QUEUE_SIZE_def)
  then show ?thesis
    by (simp add: registered_def demo_machine_def sched_find_proc_by_pid_def demo_user_pcb_def)
qed

lemma demo_machine_mram: "wf_dev (k_mram demo_machine)" "maxsz (k_mram demo_machine) = 1024"
  by (simp_all add: demo_machine_def wf_demo_dev)

theorem memmap_raw_physical_access_witness:
  "\<exists>m'. libsyscall demo_machine 4 17 5 999 66 = Some (0, m') \<and> load_byte (k_mram m') 999 = Some 66"
  using memmap_raw_physical_access [OF demo_machine_registered demo_machine_mram(1), of 999 66]
  by (auto simp: demo_machine_mram byte_of_u64_def)

end
