(* ===== verification/Libmem.thy ===== *)
theory Libmem
  imports Kernel
begin

text \<open>
  The user memory library of src/libmem.c: allocation and release of regions, the free region
  list, access to a byte of a region through the page table with demand swapping, teardown of a
  process. The functions take the machine and the process \<open>p\<close> they run for (the pointer
  \<^verbatim>\<open>caller\<close> or \<^verbatim>\<open>proc\<close>), and return the C result with the new machine. \<^verbatim>\<open>mmvm_lock\<close> makes each
  of them one atomic step. The trace output is left out, its effects on the state (page table
  lookups of the dump, reads of the storage) are kept.
\<close>

section \<open>Regions\<close>

text \<open>\<^verbatim>\<open>get_symrg_byid\<close>: the pointer is the index.\<close>

definition get_symrg_byid :: "int \<Rightarrow> nat option" where
  "get_symrg_byid rgid = (if rgid < 0 \<or> int PAGING_MAX_SYMTBL_SZ \<le> rgid then None else Some (nat rgid))"

definition enlist_vm_freerg_list :: "mm_struct \<Rightarrow> int \<Rightarrow> vm_rg_struct \<Rightarrow> int \<times> mm_struct" where
  "enlist_vm_freerg_list mm vmaid rg_elmt =
     (if rg_start rg_elmt \<ge> rg_end rg_elmt then (-1, mm)
      else case get_vma_by_num (Some mm) vmaid of
             None \<Rightarrow> (-1, mm)
           | Some k \<Rightarrow>
               let vma = mmap mm ! k
               in (0, set_vma mm k (vma\<lparr>vm_freerg_list := rg_elmt # vm_freerg_list vma\<rparr>)))"

text \<open>
  The search of \<^verbatim>\<open>get_free_vmrg_area\<close>: start and end of the new region, -1 if none fits, and the
  list after it. An exhausted node takes over the bounds of its successor, or stays as an empty
  region at the end of the list.
\<close>

fun take_rg :: "int \<Rightarrow> vm_rg_struct list \<Rightarrow> (addr_t \<times> addr_t) \<times> vm_rg_struct list" where
  "take_rg sz [] = ((-1, -1), [])"
| "take_rg sz (rgit # rgs) =
     (if rg_start rgit + u64_of_int sz \<le> rg_end rgit
      then ((rg_start rgit, rg_start rgit + u64_of_int sz),
            if rg_start rgit + u64_of_int sz < rg_end rgit
            then rgit\<lparr>rg_start := rg_start rgit + u64_of_int sz\<rparr> # rgs
            else case rgs of
                   nextrg # after \<Rightarrow> rgit\<lparr>rg_start := rg_start nextrg, rg_end := rg_end nextrg\<rparr> # after
                 | [] \<Rightarrow> [rgit\<lparr>rg_start := rg_end rgit\<rparr>])
      else case take_rg sz rgs of (new, rgs1) \<Rightarrow> (new, rgit # rgs1))"

text \<open>The result is the C result, the region written to \<^verbatim>\<open>newrg\<close> and the new \<^verbatim>\<open>mm\<close>.\<close>

definition get_free_vmrg_area :: "mm_struct \<Rightarrow> int \<Rightarrow> int \<Rightarrow> (int \<times> (addr_t \<times> addr_t) \<times> mm_struct) option" where
  "get_free_vmrg_area mm vmaid sz =
     do {
       k \<leftarrow> get_vma_by_num (Some mm) vmaid;
       let cur_vma = mmap mm ! k;
       Some (case vm_freerg_list cur_vma of
               [] \<Rightarrow> (-1, (-1, -1), mm)
             | _ \<Rightarrow> (case take_rg sz (vm_freerg_list cur_vma) of
                       (new, rgs) \<Rightarrow>
                         (if fst new = -1 then -1 else 0, new, set_vma mm k (cur_vma\<lparr>vm_freerg_list := rgs\<rparr>))))
     }"

text \<open>\<^verbatim>\<open>caller->mm->symrgtbl[rgid] = ...\<close>: no check of the index.\<close>

definition set_symrg :: "mm_struct \<Rightarrow> int \<Rightarrow> vm_rg_struct \<Rightarrow> mm_struct option" where
  "set_symrg mm rgid rg =
     (if 0 \<le> rgid \<and> rgid < int PAGING_MAX_SYMTBL_SZ
      then Some (mm\<lparr>symrgtbl := (symrgtbl mm)[nat rgid := rg]\<rparr>) else None)"

text \<open>\<^verbatim>\<open>__alloc\<close>: the result, \<^verbatim>\<open>*alloc_addr\<close> and the machine.\<close>

definition mm_alloc :: "machine \<Rightarrow> pref \<Rightarrow> int \<Rightarrow> int \<Rightarrow> addr_t \<Rightarrow> (int \<times> addr_t \<times> machine) option" where
  "mm_alloc m p vmaid rgid sz =
     do {
       pcb \<leftarrow> procs m p;
       case get_vma_by_num (pcb_mm pcb) vmaid of
         None \<Rightarrow> Some (-1, 0, m)
       | Some k \<Rightarrow> do {
           mm \<leftarrow> pcb_mm pcb;
           (r, rgnode, mm1) \<leftarrow> get_free_vmrg_area mm vmaid (int_of_u64 sz);
           if r = 0 then do {
             mm2 \<leftarrow> set_symrg mm1 rgid \<lparr>rg_start = fst rgnode, rg_end = snd rgnode, mode_bit = VMRG_USER_MODE\<rparr>;
             Some (0, fst rgnode, set_mm m p (Some mm2))
           }
           else do {
             let old_sbrk = sbrk (mmap mm1 ! k);
             (r2, m2, _) \<leftarrow> syscall (set_mm m p (Some mm1)) (pid pcb) 17
               \<lparr>a1 = u64_of_int SYSMEM_INC_OP, a2 = u64_of_int vmaid, a3 = PAGING_PAGE_ALIGNSZ sz\<rparr>;
             if r2 \<noteq> 0 then Some (-1, 0, m2)
             else do {
               mm2 \<leftarrow> the_mm m2 p;
               mm3 \<leftarrow> set_symrg mm2 rgid \<lparr>rg_start = old_sbrk, rg_end = old_sbrk + sz, mode_bit = VMRG_USER_MODE\<rparr>;
               Some (0, old_sbrk, set_mm m2 p (Some mm3))
             }
           }
         }
     }"

text \<open>The kernel addresses (the bounds belong to the pool further down in the file).\<close>

definition KMEM_POOL_SIZE :: u32 where
  "KMEM_POOL_SIZE = push_bit 16 1"

definition KMEM_VBASE :: addr_t where
  "KMEM_VBASE = push_bit 56 1"

definition kmem_addr_is_kernel :: "addr_t \<Rightarrow> bool" where
  "kmem_addr_is_kernel addr \<longleftrightarrow> addr \<ge> KMEM_VBASE \<and> addr < KMEM_VBASE + ucast KMEM_POOL_SIZE"

definition mm_free :: "machine \<Rightarrow> pref \<Rightarrow> int \<Rightarrow> int \<Rightarrow> (int \<times> machine) option" where
  "mm_free m p vmaid rgid =
     (case get_symrg_byid rgid of None \<Rightarrow> Some (-1, m)
      | Some i \<Rightarrow> do {
          mm \<leftarrow> the_mm m p;
          let rgnode = symrgtbl mm ! i;
          let cleared = \<lparr>rg_start = 0, rg_end = 0, mode_bit = VMRG_KERNEL_MODE\<rparr>;
          let mm1 = mm\<lparr>symrgtbl := (symrgtbl mm)[i := cleared]\<rparr>;
          if rg_start rgnode = 0 \<and> rg_end rgnode = 0 then Some (-1, m)
          else if kmem_addr_is_kernel (rg_start rgnode) then Some (0, set_mm m p (Some mm1))
          else Some (0, set_mm m p (Some (snd (enlist_vm_freerg_list mm1 vmaid
                 \<lparr>rg_start = rg_start rgnode, rg_end = rg_end rgnode, mode_bit = VMRG_USER_MODE\<rparr>))))
        })"

section \<open>The trace\<close>

text \<open>\<^verbatim>\<open>print_pgtbl(proc, 0, -1)\<close> for its effect: the lookups are counted.\<close>

definition dump_pgtbl :: "machine \<Rightarrow> pref \<Rightarrow> machine option" where
  "dump_pgtbl m p =
     map_option (\<lambda>mmp. case mmp of None \<Rightarrow> m
       | Some mm \<Rightarrow> set_mm m p (Some (snd (snd (print_pgtbl mm 0 (-1)))))) (caller_mm m p)"

definition liballoc :: "machine \<Rightarrow> pref \<Rightarrow> addr_t \<Rightarrow> u32 \<Rightarrow> (int \<times> machine) option" where
  "liballoc m p sz reg_index =
     do {
       (val, _, m1) \<leftarrow> mm_alloc m p 0 (int_of_u32 reg_index) sz;
       if val = -1 then Some (-1, m1)
       else do {
         m2 \<leftarrow> dump_pgtbl m1 p;
         _ \<leftarrow> MEMPHY_dump (Some (k_mram m2));
         Some (val, m2)
       }
     }"

definition libfree :: "machine \<Rightarrow> pref \<Rightarrow> u32 \<Rightarrow> (int \<times> machine) option" where
  "libfree m p reg_index =
     do {
       (val, m1) \<leftarrow> mm_free m p 0 (int_of_u32 reg_index);
       if val = -1 then Some (-1, m1)
       else do { m2 \<leftarrow> dump_pgtbl m1 p; Some (0, m2) }
     }"

section \<open>Pages\<close>

text \<open>\<^verbatim>\<open>find_victim_page\<close>: the tail of the list, unlinked.\<close>

definition find_victim_page :: "addr_t list \<Rightarrow> int \<times> addr_t \<times> addr_t list" where
  "find_victim_page fifo = (if fifo = [] then (-1, 0, []) else (0, last fifo, butlast fifo))"

text \<open>Page table operations on \<^verbatim>\<open>caller->mm\<close>.\<close>

definition on_mm :: "(mm_struct \<Rightarrow> 'a \<times> mm_struct) \<Rightarrow> machine \<Rightarrow> pref \<Rightarrow> ('a \<times> machine) option" where
  "on_mm f m p = map_option (\<lambda>mm. (fst (f mm), set_mm m p (Some (snd (f mm))))) (the_mm m p)"

definition fifo_push :: "addr_t \<Rightarrow> mm_struct \<Rightarrow> int \<times> mm_struct" where
  "fifo_push pgn mm = (0, mm\<lparr>fifo_pgn := snd (enlist_pgn_node (fifo_pgn mm) pgn)\<rparr>)"

text \<open>
  The second half of \<^verbatim>\<open>pg_getpage\<close>: the page \<open>pgn\<close> is in swap, with the entry \<open>pte\<close>.
\<close>

definition swap_in :: "machine \<Rightarrow> pref \<Rightarrow> int \<Rightarrow> u32 \<Rightarrow> (int \<times> int \<times> machine) option" where
  "swap_in m p pgn pte =
     do {
       mm \<leftarrow> the_mm m p;
       let (v, vicpgn, fifo) = find_victim_page (fifo_pgn mm);
       if v = -1 then Some (-1, 0, m)
       else do {
         let m1 = set_mm m p (Some (mm\<lparr>fifo_pgn := fifo\<rparr>));
         swp \<leftarrow> active_mswp m1;
         let (g, swp1, swpfpn) = MEMPHY_get_freefp swp 0;
         let m2 = set_mswp m1 (Some swp1);
         if g = -1 then do { (_, m3) \<leftarrow> on_mm (fifo_push vicpgn) m2 p; Some (-1, 0, m3) }
         else do {
           (vicpte, m3) \<leftarrow> on_mm (\<lambda>mm. pte_get_entry mm vicpgn) m2 p;
           let vicfpn = ucast (PAGING_FPN vicpte);
           let tgt_swptyp = active_mswp_id m3;
           let tgt_swpoff = (ucast (PAGING_SWP pte) :: addr_t);
           pcb \<leftarrow> procs m3 p;
           (r, m4, _) \<leftarrow> syscall m3 (pid pcb) 17 \<lparr>a1 = u64_of_int SYSMEM_SWP_OP, a2 = vicfpn, a3 = swpfpn\<rparr>;
           if r \<noteq> 0 then do {
             swp4 \<leftarrow> active_mswp m4;
             (_, m5) \<leftarrow> on_mm (fifo_push vicpgn) (set_mswp m4 (Some (snd (MEMPHY_put_freefp swp4 swpfpn)))) p;
             Some (-1, 0, m5)
           }
           else do {
             (_, src, dst) \<leftarrow> swap_cp_page (active_mswp m4) tgt_swpoff (Some (k_mram m4)) vicfpn;
             let m5 = set_mswp (m4\<lparr>k_mram := the dst\<rparr>) src;
             swp5 \<leftarrow> active_mswp m5;
             let m6 = set_mswp m5 (Some (snd (MEMPHY_put_freefp swp5 tgt_swpoff)));
             (_, m7) \<leftarrow> on_mm (\<lambda>mm. pte_set_swap mm vicpgn tgt_swptyp swpfpn) m6 p;
             (_, m8) \<leftarrow> on_mm (\<lambda>mm. pte_set_fpn mm (u64_of_int pgn) vicfpn) m7 p;
             (_, m9) \<leftarrow> on_mm (fifo_push (u64_of_int pgn)) m8 p;
             Some (0, int_of_u64 vicfpn, m9)
           }
         }
       }
     }"

text \<open>The result, \<^verbatim>\<open>*fpn\<close> and the machine.\<close>

definition pg_getpage :: "machine \<Rightarrow> pref \<Rightarrow> int \<Rightarrow> (int \<times> int \<times> machine) option" where
  "pg_getpage m p pgn =
     do {
       (pte, m1) \<leftarrow> on_mm (\<lambda>mm. pte_get_entry mm (u64_of_int pgn)) m p;
       if PAGING_PAGE_PRESENT pte then Some (0, int_of_u32 (PAGING_FPN pte), m1)
       else if \<not> PAGING_PAGE_SWAPPED pte then Some (-1, 0, m1)
       else swap_in m1 p pgn pte
     }"

text \<open>\<^verbatim>\<open>*data\<close> is the second component; it is written only if the result is 0.\<close>

definition pg_getval :: "machine \<Rightarrow> pref \<Rightarrow> addr_t \<Rightarrow> (int \<times> byte \<times> machine) option" where
  "pg_getval m p addr =
     do {
       let pgn = addr div PAGING_PAGESZ;
       let off = addr mod PAGING_PAGESZ;
       (r, fpn, m1) \<leftarrow> pg_getpage m p (int_of_u64 pgn);
       if r \<noteq> 0 then Some (-1, 0, m1)
       else do {
         let phyaddr = u64_of_int fpn * PAGING_PAGESZ + off;
         pcb \<leftarrow> procs m1 p;
         (s, m2, scr) \<leftarrow> syscall m1 (pid pcb) 17 \<lparr>a1 = u64_of_int SYSMEM_IO_READ, a2 = phyaddr, a3 = 0\<rparr>;
         if s < 0 then Some (-1, 0, m2) else Some (0, byte_of_u64 (a3 scr), m2)
       }
     }"

definition pg_setval :: "machine \<Rightarrow> pref \<Rightarrow> addr_t \<Rightarrow> byte \<Rightarrow> (int \<times> machine) option" where
  "pg_setval m p addr val =
     do {
       let pgn = addr div PAGING_PAGESZ;
       let off = addr mod PAGING_PAGESZ;
       (r, fpn, m1) \<leftarrow> pg_getpage m p (int_of_u64 pgn);
       if r \<noteq> 0 then Some (-1, m1)
       else do {
         let phyaddr = u64_of_int fpn * PAGING_PAGESZ + off;
         pcb \<leftarrow> procs m1 p;
         (s, m2, scr) \<leftarrow> syscall m1 (pid pcb) 17
           \<lparr>a1 = u64_of_int SYSMEM_IO_WRITE, a2 = phyaddr, a3 = u64_of_byte val\<rparr>;
         if s < 0 then Some (-1, m2) else Some (0, m2)
       }
     }"

section \<open>Access to a region\<close>

definition resolve_rg_addr :: "mm_struct \<Rightarrow> int \<Rightarrow> addr_t \<Rightarrow> addr_t option" where
  "resolve_rg_addr mm rgid offset =
     (case get_symrg_byid rgid of None \<Rightarrow> None
      | Some i \<Rightarrow>
          let currg = symrgtbl mm ! i
          in if rg_start currg = rg_end currg \<or> offset \<ge> rg_end currg - rg_start currg then None
             else if mode_bit currg \<noteq> VMRG_USER_MODE then None
             else Some (rg_start currg + offset))"

definition mm_read :: "machine \<Rightarrow> pref \<Rightarrow> int \<Rightarrow> addr_t \<Rightarrow> (int \<times> byte \<times> machine) option" where
  "mm_read m p rgid offset =
     do {
       mmp \<leftarrow> caller_mm m p;
       case mmp of None \<Rightarrow> Some (-1, 0, m)
       | Some mm \<Rightarrow>
           (case resolve_rg_addr mm rgid offset of None \<Rightarrow> Some (-1, 0, m)
            | Some addr \<Rightarrow> pg_getval m p addr)
     }"

text \<open>The result, \<^verbatim>\<open>*destination\<close> (which the caller set to 0) and the machine.\<close>

definition libread :: "machine \<Rightarrow> pref \<Rightarrow> u32 \<Rightarrow> addr_t \<Rightarrow> (int \<times> u32 \<times> machine) option" where
  "libread m p source offset =
     do {
       (val, data, m1) \<leftarrow> mm_read m p (int_of_u32 source) offset;
       if val = 0 then do { m2 \<leftarrow> dump_pgtbl m1 p; Some (val, u32_of_byte data, m2) }
       else Some (val, 0, m1)
     }"

definition mm_write :: "machine \<Rightarrow> pref \<Rightarrow> int \<Rightarrow> addr_t \<Rightarrow> byte \<Rightarrow> (int \<times> machine) option" where
  "mm_write m p rgid offset val =
     do {
       mmp \<leftarrow> caller_mm m p;
       case mmp of None \<Rightarrow> Some (-1, m)
       | Some mm \<Rightarrow>
           (case resolve_rg_addr mm rgid offset of None \<Rightarrow> Some (-1, m)
            | Some addr \<Rightarrow> pg_setval m p addr val)
     }"

definition libwrite :: "machine \<Rightarrow> pref \<Rightarrow> byte \<Rightarrow> u32 \<Rightarrow> addr_t \<Rightarrow> (int \<times> machine) option" where
  "libwrite m p data destination offset =
     do {
       (val, m1) \<leftarrow> mm_write m p (int_of_u32 destination) offset data;
       if val = 0 then do { m2 \<leftarrow> dump_pgtbl m1 p; Some (val, m2) }
       else Some (val, m1)
     }"

section \<open>Teardown\<close>

text \<open>The loop of \<^verbatim>\<open>free_pcb_memph\<close> over the page numbers.\<close>

fun free_frames :: "addr_t list \<Rightarrow> machine \<Rightarrow> pref \<Rightarrow> machine option" where
  "free_frames [] m p = Some m"
| "free_frames (pagenum # pgs) m p =
     do {
       (pte, m1) \<leftarrow> on_mm (\<lambda>mm. pte_get_entry mm pagenum) m p;
       if pte = 0 then free_frames pgs m1 p
       else if PAGING_PAGE_PRESENT pte \<and> \<not> PAGING_PAGE_SWAPPED pte
       then free_frames pgs (m1\<lparr>k_mram := snd (MEMPHY_put_freefp (k_mram m1) (ucast (PAGING_FPN pte)))\<rparr>) p
       else if PAGING_PAGE_SWAPPED pte
       then do {
         swp \<leftarrow> active_mswp m1;
         free_frames pgs (set_mswp m1 (Some (snd (MEMPHY_put_freefp swp (ucast (PAGING_SWP pte)))))) p
       }
       else free_frames pgs m1 p
     }"

definition free_pcb_memph :: "machine \<Rightarrow> pref \<Rightarrow> (int \<times> machine) option" where
  "free_pcb_memph m p =
     map_option (\<lambda>m1. (0, m1)) (free_frames (map of_nat [0..<unat PAGING_MAX_PGN]) m p)"

text \<open>
  \<^verbatim>\<open>free_pcb\<close>: after it the PCB is dead. The lists, the directory tree and the code segment are
  freed with it; the number of directory pages freed is returned for the accounting.
\<close>

definition free_pcb :: "machine \<Rightarrow> pref option \<Rightarrow> (nat \<times> machine) option" where
  "free_pcb m proc =
     (case proc of None \<Rightarrow> Some (0, m)
      | Some p \<Rightarrow> do {
          mmp \<leftarrow> caller_mm m p;
          case mmp of None \<Rightarrow> Some (0, m\<lparr>procs := (procs m)(p := None)\<rparr>)
          | Some _ \<Rightarrow> do {
              (_, m1) \<leftarrow> free_pcb_memph m p;
              mm1 \<leftarrow> the_mm m1 p;
              let (pages, _) = mm64_destroy_pgd_tree mm1;
              Some (pages, m1\<lparr>procs := (procs m1)(p := None)\<rparr>)
            }
        })"

section \<open>The free region list\<close>

text \<open>
  A region of the free list: its bounds are in order and in the lower half of the address space
  (user addresses start at 0). \<open>cover\<close> counts the regions that contain an address.
\<close>

definition rg_ok :: "vm_rg_struct \<Rightarrow> bool" where
  "rg_ok rg \<longleftrightarrow> rg_start rg \<le> rg_end rg \<and> uint (rg_end rg) < 2 ^ 63"

definition in_rg :: "addr_t \<Rightarrow> addr_t \<Rightarrow> addr_t \<Rightarrow> nat" where
  "in_rg s e a = (if s \<le> a \<and> a < e then 1 else 0)"

definition cover :: "vm_rg_struct list \<Rightarrow> addr_t \<Rightarrow> nat" where
  "cover rgs a = sum_list (map (\<lambda>rg. in_rg (rg_start rg) (rg_end rg) a) rgs)"

definition fits :: "int \<Rightarrow> vm_rg_struct \<Rightarrow> bool" where
  "fits sz rg \<longleftrightarrow> uint (rg_start rg) + sz \<le> uint (rg_end rg)"

lemma cover_simps [simp]: "cover [] a = 0" "cover (rg # rgs) a = in_rg (rg_start rg) (rg_end rg) a + cover rgs a"
  by (simp_all add: cover_def)

lemma rg_end_of_block:
  assumes "rg_ok rg" "0 \<le> sz" "sz < 2 ^ 31"
  shows "uint (rg_start rg + u64_of_int sz) = uint (rg_start rg) + sz"
proof -
  have "uint (rg_start rg) < 2 ^ 63" using assms(1) by (simp add: rg_ok_def word_le_def)
  then have "uint (rg_start rg) + sz < 2 ^ 64" using assms(3) by simp
  moreover have "uint (u64_of_int sz) = sz" using assms by (simp add: uint_u64_of_int)
  ultimately show ?thesis using assms(2) by (simp add: uint_word_ariths mod_pos_pos_trivial)
qed

lemma fits_iff:
  "rg_ok rg \<Longrightarrow> 0 \<le> sz \<Longrightarrow> sz < 2 ^ 31 \<Longrightarrow> rg_start rg + u64_of_int sz \<le> rg_end rg \<longleftrightarrow> fits sz rg"
  using rg_end_of_block by (simp add: word_le_def fits_def)

lemma in_rg_split:
  "s \<le> m \<Longrightarrow> m \<le> e \<Longrightarrow> in_rg s m a + in_rg m e a = in_rg s e a"
  by (auto simp: in_rg_def)

lemma take_rg_spec:
  assumes sz: "0 \<le> sz" "sz < 2 ^ 31" and ok: "\<forall>rg \<in> set rgs. rg_ok rg"
    and t: "take_rg sz rgs = (new, rgs')"
  shows "(\<forall>rg \<in> set rgs'. rg_ok rg) \<and>
    (case find (fits sz) rgs of
       None \<Rightarrow> new = (-1, -1) \<and> rgs' = rgs
     | Some rg \<Rightarrow> new = (rg_start rg, rg_start rg + u64_of_int sz) \<and>
         (\<forall>a. cover rgs' a + in_rg (fst new) (snd new) a = cover rgs a))"
  using ok t
proof (induction rgs arbitrary: new rgs')
  case (Cons rg rgs)
  have rg: "rg_ok rg" using Cons.prems by simp
  note fit = fits_iff [OF rg sz] and blk = rg_end_of_block [OF rg sz]
  let ?mid = "rg_start rg + u64_of_int sz"
  have lo: "rg_start rg \<le> ?mid" using blk sz by (simp add: word_le_def)
  show ?case
  proof (cases "fits sz rg")
    case False
    obtain new1 rgs1 where r: "take_rg sz rgs = (new1, rgs1)" by (metis prod.exhaust)
    from Cons.IH [OF _ r] Cons.prems show ?thesis using False fit r by (auto split: option.splits)
  next
    case True
    then have le: "?mid \<le> rg_end rg" using fit by simp
    have sp: "in_rg ?mid (rg_end rg) a + in_rg (rg_start rg) ?mid a = in_rg (rg_start rg) (rg_end rg) a" for a
      using in_rg_split [OF lo le, of a] by simp
    show ?thesis
    proof (cases "?mid < rg_end rg")
      case less: True
      have "rg_ok (rg\<lparr>rg_start := ?mid\<rparr>)" using rg le by (simp add: rg_ok_def)
      then show ?thesis using Cons.prems True le less sp by auto
    next
      case False
      then have e: "?mid = rg_end rg" using le by simp
      show ?thesis
      proof (cases rgs)
        case Nil
        have "rg_ok (rg\<lparr>rg_start := rg_end rg\<rparr>)" using rg by (simp add: rg_ok_def)
        then show ?thesis using Cons.prems True le False Nil e by (auto simp: in_rg_def)
      next
        case (Cons nx after)
        have "rg_ok (rg\<lparr>rg_start := rg_start nx, rg_end := rg_end nx\<rparr>)"
          using Cons.prems Cons by (simp add: rg_ok_def)
        then show ?thesis using Cons.prems True le False Cons e by auto
      qed
    qed
  qed
qed simp

declare take_rg.simps [simp del]

lemma get_free_vmrg_area_eq:
  assumes "get_vma_by_num (Some mm) vmaid = Some k" "take_rg sz (vm_freerg_list (mmap mm ! k)) = (new, rgs')"
  shows "get_free_vmrg_area mm vmaid sz =
    Some (if vm_freerg_list (mmap mm ! k) = [] then (-1, (-1, -1), mm)
          else (if fst new = -1 then -1 else 0, new, set_vma mm k ((mmap mm ! k)\<lparr>vm_freerg_list := rgs'\<rparr>)))"
  using assms by (cases "vm_freerg_list (mmap mm ! k)") (simp_all add: get_free_vmrg_area_def Let_def)

lemma rg_ok_start: "rg_ok rg \<Longrightarrow> rg_start rg \<noteq> -1"
proof -
  assume "rg_ok rg"
  then have "uint (rg_start rg) < 2 ^ 63" by (simp add: rg_ok_def word_le_def)
  moreover have "uint (-1 :: addr_t) = 2 ^ 64 - 1" by (simp add: unsigned_minus_1_eq_mask mask_eq_exp_minus_1)
  ultimately show ?thesis by auto
qed

lemma get_free_vmrg_area_spec:
  assumes k: "get_vma_by_num (Some mm) vmaid = Some k" and sz: "0 \<le> sz" "sz < 2 ^ 31"
    and ok: "\<forall>rg \<in> set (vm_freerg_list (mmap mm ! k)). rg_ok rg"
  shows "\<exists>rgs'. (\<forall>rg \<in> set rgs'. rg_ok rg) \<and>
    (case find (fits sz) (vm_freerg_list (mmap mm ! k)) of
       None \<Rightarrow> get_free_vmrg_area mm vmaid sz = Some (-1, (-1, -1), mm) \<and> rgs' = vm_freerg_list (mmap mm ! k)
     | Some rg \<Rightarrow> get_free_vmrg_area mm vmaid sz =
           Some (0, (rg_start rg, rg_start rg + u64_of_int sz), set_vma mm k ((mmap mm ! k)\<lparr>vm_freerg_list := rgs'\<rparr>)) \<and>
         (\<forall>a. cover rgs' a + in_rg (rg_start rg) (rg_start rg + u64_of_int sz) a = cover (vm_freerg_list (mmap mm ! k)) a))"
proof -
  let ?v = "mmap mm ! k"
  obtain new rgs' where t: "take_rg sz (vm_freerg_list ?v) = (new, rgs')" by (metis prod.exhaust)
  note spec = take_rg_spec [OF sz ok t] and e = get_free_vmrg_area_eq [OF k t]
  have kl: "k < length (mmap mm)" using get_vma_bound [OF k] .
  show ?thesis
  proof (cases "find (fits sz) (vm_freerg_list ?v)")
    case None
    then have n: "new = (-1, -1)" "rgs' = vm_freerg_list ?v" using spec by simp_all
    have "set_vma mm k (?v\<lparr>vm_freerg_list := vm_freerg_list ?v\<rparr>) = mm" using kl by (simp add: set_vma_def)
    then have "get_free_vmrg_area mm vmaid sz = Some (-1, (-1, -1), mm)" using e n by simp
    then show ?thesis using None ok by (intro exI [of _ "vm_freerg_list ?v"]) simp
  next
    case (Some rg)
    then have m: "rg \<in> set (vm_freerg_list ?v)" by (auto simp: find_Some_iff)
    then have "rg_start rg \<noteq> -1" using ok rg_ok_start by blast
    moreover have "vm_freerg_list ?v \<noteq> []" using m by auto
    ultimately have "get_free_vmrg_area mm vmaid sz =
        Some (0, (rg_start rg, rg_start rg + u64_of_int sz), set_vma mm k (?v\<lparr>vm_freerg_list := rgs'\<rparr>))"
      using spec Some e by simp
    moreover have nw: "new = (rg_start rg, rg_start rg + u64_of_int sz)" using spec Some by simp
    ultimately show ?thesis using Some spec by (intro exI [of _ rgs']) (simp add: nw)
  qed
qed

section \<open>Pages that are present\<close>

text \<open>The physical address behind a user address whose page is in RAM.\<close>

definition frame_of :: "mm_struct \<Rightarrow> addr_t \<Rightarrow> addr_t" where
  "frame_of mm addr = ucast (PAGING_FPN (ucast (pte_at mm (addr div 256))))"

definition phys :: "mm_struct \<Rightarrow> addr_t \<Rightarrow> addr_t" where
  "phys mm addr = frame_of mm addr * 256 + addr mod 256"

definition resident :: "machine \<Rightarrow> mm_struct \<Rightarrow> addr_t \<Rightarrow> bool" where
  "resident m mm addr \<longleftrightarrow> addr div 256 < PAGING_MAX_PGN \<and>
     PAGING_PAGE_PRESENT (ucast (pte_at mm (addr div 256))) \<and>
     uint (frame_of mm addr) < num_frames (k_mram m)"

lemma PAGING_FPN_small: "uint (PAGING_FPN u) < 8192"
proof -
  have "PAGING_FPN u = take_bit 13 u"
    by (rule bit_eqI) (auto simp: PAGING_FPN_def GETVAL_def pte_masks bit_and_iff bit_GENMASK bit_take_bit_iff)
  then have "unat (PAGING_FPN u) = unat u mod 8192" by (simp only: unat_take_bit_mod) simp
  then have "unat (PAGING_FPN u) < 8192" by simp
  then show ?thesis using uint_nat [of "PAGING_FPN u"] by linarith
qed

lemma fpn_roundtrip: "u64_of_int (int_of_u32 (PAGING_FPN u)) = ucast (PAGING_FPN u)"
proof -
  have "uint (PAGING_FPN u) < 2 ^ 31" using PAGING_FPN_small [of u] by simp
  then have "int_of_u32 (PAGING_FPN u) = uint (PAGING_FPN u)" by (rule int_of_u32_small)
  then show ?thesis by (simp add: u64_of_int_def)
qed

lemma page_roundtrip:
  assumes "addr div 256 < PAGING_MAX_PGN"
  shows "u64_of_int (int_of_u64 (addr div 256)) = addr div 256"
proof -
  have "uint (addr div 256) < 16384" using assms by (simp add: PAGING_MAX_PGN_eq word_less_def)
  then have "int_of_u64 (addr div 256) = uint (addr div 256)" by (intro int_of_u64_small) simp
  then show ?thesis by (simp add: u64_of_int_def)
qed

lemma on_mm_Some: "the_mm m p = Some mm \<Longrightarrow> f mm = (x, mm') \<Longrightarrow> on_mm f m p = Some (x, set_mm m p (Some mm'))"
  by (simp add: on_mm_def)

text \<open>
  What a read-only access through the page table leaves of the process: only the statistics
  of its \<open>mm\<close> may differ.
\<close>

definition same_space :: "machine \<Rightarrow> machine \<Rightarrow> pref \<Rightarrow> bool" where
  "same_space m m' p \<longleftrightarrow> (\<exists>mm mm'. the_mm m p = Some mm \<and> the_mm m' p = Some mm' \<and>
      pt_ok mm' \<and> rest mm' = rest mm \<and> pgd mm' = pgd mm \<and> pte_at mm' = pte_at mm) \<and>
    (\<forall>q. q \<noteq> p \<longrightarrow> procs m' q = procs m q) \<and>
    (\<forall>c. procs m p = Some c \<longrightarrow> (\<exists>mmp. procs m' p = Some (c\<lparr>pcb_mm := mmp\<rparr>))) \<and>
    k_sched m' = k_sched m \<and> kmem_storage m' = kmem_storage m \<and> kmem_brk m' = kmem_brk m \<and>
    kmem_pools m' = kmem_pools m \<and> k_mswp m' = k_mswp m \<and> active_swp m' = active_swp m \<and> active_mswp_id m' = active_mswp_id m"

lemma same_space_refl: "the_mm m p = Some mm \<Longrightarrow> pt_ok mm \<Longrightarrow> same_space m m p"
proof -
  assume a: "the_mm m p = Some mm" "pt_ok mm"
  have "\<exists>mmp. c = c\<lparr>pcb_mm := mmp\<rparr>" for c :: pcb_t by (rule exI [of _ "pcb_mm c"]) simp
  then show ?thesis using a by (simp add: same_space_def)
qed

lemma same_space_registered: "same_space m m' p \<Longrightarrow> registered m p \<Longrightarrow> registered m' p"
proof -
  assume s: "same_space m m' p" and r: "registered m p"
  have "map_option pid (procs m' q) = map_option pid (procs m q)" for q
    using s r by (cases "q = p") (auto simp: same_space_def registered_def)
  then show ?thesis using registered_cong [of m' m] s r by (simp add: same_space_def)
qed

lemma pte_at_pgd: "pgd mm' = pgd mm \<Longrightarrow> pte_at mm' = pte_at mm"
  by (simp add: pte_at_def fun_eq_iff)

lemma set_mm_procs: "procs (set_mm m p mmp) = (procs m)(p := map_option (\<lambda>c. c\<lparr>pcb_mm := mmp\<rparr>) (procs m p))"
  by (simp add: set_mm_def)

lemma same_space_set_mm:
  assumes "the_mm m p = Some mm" "pt_ok mm'" "rest mm' = rest mm" "pgd mm' = pgd mm"
  shows "same_space m (set_mm m p (Some mm')) p"
  unfolding same_space_def
proof (intro conjI)
  show "\<exists>mm mm''. the_mm m p = Some mm \<and> the_mm (set_mm m p (Some mm')) p = Some mm'' \<and>
      pt_ok mm'' \<and> rest mm'' = rest mm \<and> pgd mm'' = pgd mm \<and> pte_at mm'' = pte_at mm"
    using assms pte_at_pgd [OF assms(4)] by simp
  show "\<forall>c. procs m p = Some c \<longrightarrow> (\<exists>mmp. procs (set_mm m p (Some mm')) p = Some (c\<lparr>pcb_mm := mmp\<rparr>))"
    by (intro allI impI exI [of _ "Some mm'"]) (simp add: set_mm_procs)
qed (simp_all add: set_mm_procs)

lemma pg_getpage_present:
  assumes mm: "the_mm m p = Some mm" "pt_ok mm" and r: "resident m mm addr"
  shows "\<exists>m'. pg_getpage m p (int_of_u64 (addr div 256)) = Some (0, int_of_u32 (PAGING_FPN (ucast (pte_at mm (addr div 256)))), m') \<and>
    same_space m m' p \<and> k_mram m' = k_mram m"
proof -
  have pg: "u64_of_int (int_of_u64 (addr div 256)) = addr div 256"
    using r by (intro page_roundtrip) (simp add: resident_def)
  obtain u mm' where g: "pte_get_entry mm (addr div 256) = (u, mm')" by (metis prod.exhaust)
  note s = pte_get_entry_at [OF mm(2) g]
  have "on_mm (\<lambda>mm. pte_get_entry mm (addr div 256)) m p = Some (u, set_mm m p (Some mm'))"
    by (rule on_mm_Some [OF mm(1)]) (rule g)
  then show ?thesis
    using s r same_space_set_mm [OF mm(1)] by (simp add: pg_getpage_def pg resident_def)
qed

lemma phys_in_ram:
  assumes "wf_dev (k_mram m)" "resident m mm addr"
  shows "uint (phys mm addr) < maxsz (k_mram m)"
    and "u64_of_int (int_of_u32 (PAGING_FPN (ucast (pte_at mm (addr div 256))))) * 256 + addr mod 256 = phys mm addr"
proof -
  have ms: "maxsz (k_mram m) < 2 ^ 31" using assms(1) by (simp add: wf_dev_def)
  have "uint (addr mod 256) < 256" by (simp add: uint_mod)
  from frame_addr(2) [OF _ ms this, of "frame_of mm addr"] assms(2)
  show "uint (phys mm addr) < maxsz (k_mram m)" by (simp add: phys_def resident_def)
  show "u64_of_int (int_of_u32 (PAGING_FPN (ucast (pte_at mm (addr div 256))))) * 256 + addr mod 256 = phys mm addr"
    by (simp add: phys_def frame_of_def fpn_roundtrip)
qed

lemma same_spaceD:
  assumes "same_space m m' p" "procs m p = Some pcb"
  obtains mmp where "procs m' p = Some (pcb\<lparr>pcb_mm := mmp\<rparr>)"
  using assms by (auto simp: same_space_def)

lemma same_space_set_mram [simp]: "same_space m (m'\<lparr>k_mram := ram\<rparr>) p = same_space m m' p"
  by (simp add: same_space_def)

text \<open>The two access functions on a resident page.\<close>

lemma pg_getval_present:
  assumes mm: "the_mm m p = Some mm" "pt_ok mm" and r: "resident m mm addr" and reg: "registered m p"
    and dev: "wf_dev (k_mram m)"
  obtains b m' where "pg_getval m p addr = Some (0, b, m')" and "load_byte (k_mram m) (phys mm addr) = Some b"
    and "same_space m m' p" and "load_byte (k_mram m') = load_byte (k_mram m)" and "wf_dev (k_mram m')"
    and "maxsz (k_mram m') = maxsz (k_mram m)" and "free_fp_list (k_mram m') = free_fp_list (k_mram m)"
proof -
  let ?fpn = "int_of_u32 (PAGING_FPN (ucast (pte_at mm (addr div 256))))"
  obtain m1 where g: "pg_getpage m p (int_of_u64 (addr div 256)) = Some (0, ?fpn, m1)"
    and s: "same_space m m1 p" and ram: "k_mram m1 = k_mram m"
    using pg_getpage_present [OF mm r] by blast
  obtain pcb where pcb: "procs m1 p = Some pcb"
    using s mm(1) by (auto simp: same_space_def the_mm_def caller_mm_def bind_Some_iff)
  let ?scr = "\<lparr>a1 = 4, a2 = phys mm addr, a3 = 0\<rparr>"
  note ph = phys_in_ram [OF dev r]
  have "wf_dev (k_mram m1)" "uint (a2 ?scr) < maxsz (k_mram m1)" "a1 ?scr = 4" using dev ph(1) ram by simp_all
  then obtain ram2 b where sc: "sys_memmap m1 (pid pcb) ?scr = Some (0, m1\<lparr>k_mram := ram2\<rparr>, ?scr\<lparr>a3 := u64_of_byte b\<rparr>)"
    "load_byte (k_mram m1) (a2 ?scr) = Some b" "load_byte ram2 = load_byte (k_mram m1)" "wf_dev ram2"
    "maxsz ram2 = maxsz (k_mram m1)" "free_fp_list ram2 = free_fp_list (k_mram m1)"
    using sys_memmap_read [OF same_space_registered [OF s reg] pcb, of ?scr] by metis
  have "pg_getval m p addr = Some (0, b, m1\<lparr>k_mram := ram2\<rparr>)"
    using g pcb sc(1) ph(2)
    by (simp add: pg_getval_def PAGING_PAGESZ_def syscall_17 SYSMEM_IO_READ_def u64_of_int_def)
  then show thesis using that [of b "m1\<lparr>k_mram := ram2\<rparr>"] sc s ram by simp
qed

lemma pg_setval_present:
  assumes mm: "the_mm m p = Some mm" "pt_ok mm" and r: "resident m mm addr" and reg: "registered m p"
    and dev: "wf_dev (k_mram m)"
  obtains m' where "pg_setval m p addr v = Some (0, m')"
    and "load_byte (k_mram m') = (load_byte (k_mram m))(phys mm addr \<mapsto> v)"
    and "same_space m m' p" and "wf_dev (k_mram m')"
    and "maxsz (k_mram m') = maxsz (k_mram m)" and "free_fp_list (k_mram m') = free_fp_list (k_mram m)"
proof -
  let ?fpn = "int_of_u32 (PAGING_FPN (ucast (pte_at mm (addr div 256))))"
  obtain m1 where g: "pg_getpage m p (int_of_u64 (addr div 256)) = Some (0, ?fpn, m1)"
    and s: "same_space m m1 p" and ram: "k_mram m1 = k_mram m"
    using pg_getpage_present [OF mm r] by blast
  obtain pcb where pcb: "procs m1 p = Some pcb"
    using s mm(1) by (auto simp: same_space_def the_mm_def caller_mm_def bind_Some_iff)
  let ?scr = "\<lparr>a1 = 5, a2 = phys mm addr, a3 = u64_of_byte v\<rparr>"
  note ph = phys_in_ram [OF dev r]
  have "wf_dev (k_mram m1)" "uint (a2 ?scr) < maxsz (k_mram m1)" "a1 ?scr = 5" using dev ph(1) ram by simp_all
  then obtain ram2 where sc: "sys_memmap m1 (pid pcb) ?scr = Some (0, m1\<lparr>k_mram := ram2\<rparr>, ?scr)"
    "load_byte ram2 = (load_byte (k_mram m1))(a2 ?scr \<mapsto> byte_of_u64 (a3 ?scr))" "wf_dev ram2"
    "maxsz ram2 = maxsz (k_mram m1)" "free_fp_list ram2 = free_fp_list (k_mram m1)"
    using sys_memmap_write [OF same_space_registered [OF s reg] pcb, of ?scr] by metis
  have "pg_setval m p addr v = Some (0, m1\<lparr>k_mram := ram2\<rparr>)"
    using g pcb sc(1) ph(2)
    by (simp add: pg_setval_def PAGING_PAGESZ_def syscall_17 SYSMEM_IO_WRITE_def u64_of_int_def)
  then show thesis using that [of "m1\<lparr>k_mram := ram2\<rparr>"] sc s ram by simp
qed

text \<open>The trace dump only counts lookups.\<close>

lemma dump_pgtbl_same:
  assumes "the_mm m p = Some mm" "pt_ok mm"
  obtains m' where "dump_pgtbl m p = Some m'" and "same_space m m' p" and "k_mram m' = k_mram m"
proof -
  have k: "pt_ok mm' \<and> rest mm' = rest mm \<and> pgd mm' = pgd mm" if "print_loop pgs mm = (out, mm')" "pt_ok mm"
    for pgs out mm mm'
    using that
  proof (induction pgs mm arbitrary: out mm' rule: print_loop.induct)
    case (2 pgn pgs mm)
    obtain u mm1 where g: "pte_get_entry mm pgn = (u, mm1)" by (metis prod.exhaust)
    obtain o2 mm2 where l: "print_loop pgs mm1 = (o2, mm2)" by (metis prod.exhaust)
    note s = pte_get_entry_at [OF 2(3) g]
    then show ?case using 2(1) [OF g [symmetric] l] 2(2) g l by auto
  qed auto
  let ?mm = "snd (snd (print_pgtbl mm 0 (-1)))"
  have "pt_ok ?mm \<and> rest ?mm = rest mm \<and> pgd ?mm = pgd mm"
    using k [OF _ assms(2)] by (simp add: print_pgtbl_def Let_def prod_eq_iff)
  then have "same_space m (set_mm m p (Some ?mm)) p" using same_space_set_mm [OF assms(1)] by blast
  moreover have "dump_pgtbl m p = Some (set_mm m p (Some ?mm))"
    using assms(1) by (simp add: dump_pgtbl_def the_mm_Some)
  ultimately show thesis using that by simp
qed

lemma same_space_trans: "same_space m m1 p \<Longrightarrow> same_space m1 m2 p \<Longrightarrow> same_space m m2 p"
proof -
  assume a: "same_space m m1 p" "same_space m1 m2 p"
  have "\<exists>mmp. procs m2 p = Some (c\<lparr>pcb_mm := mmp\<rparr>)" if "procs m p = Some c" for c
  proof -
    from that a(1) obtain mmp where 1: "procs m1 p = Some (c\<lparr>pcb_mm := mmp\<rparr>)" by (auto simp: same_space_def)
    from 1 a(2) obtain mmp2 where "procs m2 p = Some ((c\<lparr>pcb_mm := mmp\<rparr>)\<lparr>pcb_mm := mmp2\<rparr>)"
      by (auto simp: same_space_def)
    then show ?thesis by auto
  qed
  moreover have "\<exists>mm mm'. the_mm m p = Some mm \<and> the_mm m2 p = Some mm' \<and>
      pt_ok mm' \<and> rest mm' = rest mm \<and> pgd mm' = pgd mm \<and> pte_at mm' = pte_at mm"
    using a by (fastforce simp: same_space_def)
  ultimately show ?thesis using a by (simp add: same_space_def)
qed

lemma same_space_mm:
  assumes "same_space m m' p" "the_mm m p = Some mm"
  obtains mm' where "the_mm m' p = Some mm'" "pt_ok mm'" "pte_at mm' = pte_at mm" "symrgtbl mm' = symrgtbl mm"
    "mmap mm' = mmap mm" "fifo_pgn mm' = fifo_pgn mm" "pgd mm' = pgd mm" "calloc_ok mm' = calloc_ok mm"
proof -
  obtain mm' where "the_mm m' p = Some mm'" "pt_ok mm'" "rest mm' = rest mm" "pte_at mm' = pte_at mm" "pgd mm' = pgd mm"
    using assms by (auto simp: same_space_def)
  with rest_eqD [of mm' mm] that show thesis by blast
qed

lemma resolve_cong: "symrgtbl mm' = symrgtbl mm \<Longrightarrow> resolve_rg_addr mm' r off = resolve_rg_addr mm r off"
  by (simp add: resolve_rg_addr_def split: option.split)

lemma resident_cong:
  "pte_at mm' = pte_at mm \<Longrightarrow> maxsz (k_mram m') = maxsz (k_mram m) \<Longrightarrow> resident m' mm' a = resident m mm a"
  by (simp add: resident_def frame_of_def num_frames_def)

lemma phys_cong: "pte_at mm' = pte_at mm \<Longrightarrow> phys mm' a = phys mm a"
  by (simp add: phys_def frame_of_def)

lemma libwrite_present:
  assumes mm: "the_mm m p = Some mm" "pt_ok mm" and a: "resolve_rg_addr mm (int_of_u32 rg) off = Some addr"
    and r: "resident m mm addr" and reg: "registered m p" and dev: "wf_dev (k_mram m)"
  obtains m' where "libwrite m p d rg off = Some (0, m')" and "same_space m m' p"
    and "load_byte (k_mram m') = (load_byte (k_mram m))(phys mm addr \<mapsto> d)" and "wf_dev (k_mram m')"
    and "maxsz (k_mram m') = maxsz (k_mram m)" and "free_fp_list (k_mram m') = free_fp_list (k_mram m)"
proof -
  obtain m1 where w: "pg_setval m p addr d = Some (0, m1)" "same_space m m1 p"
    "load_byte (k_mram m1) = (load_byte (k_mram m))(phys mm addr \<mapsto> d)" "wf_dev (k_mram m1)"
    "maxsz (k_mram m1) = maxsz (k_mram m)" "free_fp_list (k_mram m1) = free_fp_list (k_mram m)"
    using pg_setval_present [OF mm r reg dev, of d] by metis
  obtain mm1 where mm1: "the_mm m1 p = Some mm1" "pt_ok mm1" using same_space_mm [OF w(2) mm(1)] by blast
  obtain m2 where d: "dump_pgtbl m1 p = Some m2" "same_space m1 m2 p" "k_mram m2 = k_mram m1"
    using dump_pgtbl_same [OF mm1] by metis
  have "libwrite m p d rg off = Some (0, m2)"
    using mm(1) a w(1) d(1) by (simp add: libwrite_def mm_write_def the_mm_Some)
  then show thesis using that w d same_space_trans by simp
qed

lemma libread_present:
  assumes mm: "the_mm m p = Some mm" "pt_ok mm" and a: "resolve_rg_addr mm (int_of_u32 rg) off = Some addr"
    and r: "resident m mm addr" and reg: "registered m p" and dev: "wf_dev (k_mram m)"
  obtains m' b where "libread m p rg off = Some (0, u32_of_byte b, m')" and "same_space m m' p"
    and "load_byte (k_mram m) (phys mm addr) = Some b" and "load_byte (k_mram m') = load_byte (k_mram m)"
proof -
  obtain b m1 where w: "pg_getval m p addr = Some (0, b, m1)" "load_byte (k_mram m) (phys mm addr) = Some b"
    "same_space m m1 p" "load_byte (k_mram m1) = load_byte (k_mram m)"
    using pg_getval_present [OF mm r reg dev] by metis
  obtain mm1 where mm1: "the_mm m1 p = Some mm1" "pt_ok mm1" using same_space_mm [OF w(3) mm(1)] by blast
  obtain m2 where d: "dump_pgtbl m1 p = Some m2" "same_space m1 m2 p" "k_mram m2 = k_mram m1"
    using dump_pgtbl_same [OF mm1] by metis
  have "libread m p rg off = Some (0, u32_of_byte b, m2)"
    using mm(1) a w(1) d(1) by (simp add: libread_def mm_read_def the_mm_Some)
  then show thesis using that w d same_space_trans by simp
qed

text \<open>
  User memory holds what was written. For a registered process, an offset that
  \<^verbatim>\<open>__resolve_rg_addr\<close> accepts and a page that is in RAM, \<^verbatim>\<open>libwrite\<close> returns 0. It
  changes exactly one byte of physical memory, the one the page table names, and no other
  process; a following \<^verbatim>\<open>libread\<close> at the same place returns 0 and the byte, sign-extended to 32
  bits (so a byte from 128 on comes back above \<^verbatim>\<open>0xFFFFFF80\<close>, not as the value written).
\<close>

lemma libwrite_libread:
  assumes "the_mm m p = Some mm" "pt_ok mm" "resolve_rg_addr mm (int_of_u32 rg) off = Some addr"
    and "resident m mm addr" "registered m p" "wf_dev (k_mram m)"
  shows "\<exists>m' m''. libwrite m p d rg off = Some (0, m') \<and>
    load_byte (k_mram m') = (load_byte (k_mram m))(phys mm addr \<mapsto> d) \<and>
    (\<forall>q. q = p \<or> procs m' q = procs m q) \<and>
    libread m' p rg off = Some (0, u32_of_byte d, m'')"
proof -
  obtain m' where w: "libwrite m p d rg off = Some (0, m')" "same_space m m' p"
    "load_byte (k_mram m') = (load_byte (k_mram m))(phys mm addr \<mapsto> d)" "wf_dev (k_mram m')"
    "maxsz (k_mram m') = maxsz (k_mram m)"
    using libwrite_present [OF assms, of d] by metis
  obtain mm' where mm': "the_mm m' p = Some mm'" "pt_ok mm'" "pte_at mm' = pte_at mm" "symrgtbl mm' = symrgtbl mm"
    using same_space_mm [OF w(2) assms(1)] by metis
  have "resolve_rg_addr mm' (int_of_u32 rg) off = Some addr" "resident m' mm' addr" "registered m' p"
    using assms(3,4) resolve_cong [OF mm'(4)] resident_cong [OF mm'(3) w(5)] same_space_registered [OF w(2) assms(5)]
    by simp_all
  then obtain m'' b where "libread m' p rg off = Some (0, u32_of_byte b, m'')"
    "load_byte (k_mram m') (phys mm' addr) = Some b"
    using libread_present [OF mm'(1,2) _ _ _ w(4)] by metis
  moreover have "phys mm' addr = phys mm addr" using phys_cong mm'(3) by blast
  ultimately show ?thesis using w by (auto simp: same_space_def)
qed

text \<open>A process with one region of 256 bytes, in frame 2.\<close>

definition demo_user_mm :: mm_struct where
  "demo_user_mm = snd (pte_set_fpn (demo_proc_mm\<lparr>symrgtbl := \<lparr>rg_start = 0, rg_end = 256, mode_bit = 1\<rparr>
     # replicate 29 \<lparr>rg_start = 0, rg_end = 0, mode_bit = 0\<rparr>\<rparr>) 0 2)"

definition demo_machine2 :: machine where
  "demo_machine2 = set_mm demo_machine 4 (Some demo_user_mm)"

lemma demo_the_mm: "the_mm demo_machine 4 = Some (demo_proc_mm\<lparr>symrgtbl :=
     replicate PAGING_MAX_SYMTBL_SZ \<lparr>rg_start = 0, rg_end = 0, mode_bit = 0\<rparr>\<rparr>)"
  by (simp add: the_mm_def caller_mm_def demo_machine_def demo_user_pcb_def)

lemma demo_user_mm_ok: "pt_ok demo_user_mm" "pte_at demo_user_mm 0 = fpn_pte 0 2"
  "symrgtbl demo_user_mm ! 0 = \<lparr>rg_start = 0, rg_end = 256, mode_bit = 1\<rparr>"
proof -
  let ?m = "demo_proc_mm\<lparr>symrgtbl := \<lparr>rg_start = 0, rg_end = 256, mode_bit = 1\<rparr>
     # replicate 29 \<lparr>rg_start = 0, rg_end = 0, mode_bit = 0\<rparr>\<rparr>"
  have m: "pt_ok ?m" "pgd ?m \<noteq> None" "\<forall>k. calloc_ok ?m k"
    using demo_proc_mm_ok by (simp_all add: pt_ok_def dir_pages_def)
  have pg: "(0 :: addr_t) < PAGING_MAX_PGN" by (simp add: PAGING_MAX_PGN_eq)
  have "pte_set_fpn ?m 0 2 = (0, demo_user_mm)"
    using set_fpn.set_total [OF m(1,2) pg m(3), of 2] by (simp add: demo_user_mm_def prod_eq_iff)
  from set_fpn.set_done [OF m(1) this] have d: "pt_ok demo_user_mm" "rest demo_user_mm = rest ?m"
    "pte_at demo_user_mm = (pte_at ?m)(0 := fpn_pte (pte_at ?m 0) 2)" by simp_all
  have "pte_at ?m 0 = 0" by (simp add: pte_at_def demo_proc_mm_def demo_mm_def)
  then show "pte_at demo_user_mm 0 = fpn_pte 0 2" using d(3) by simp
  show "pt_ok demo_user_mm" by (rule d(1))
  show "symrgtbl demo_user_mm ! 0 = \<lparr>rg_start = 0, rg_end = 256, mode_bit = 1\<rparr>"
    using rest_eqD(2) [OF d(2)] by simp
qed

lemma demo_machine2_ok: "the_mm demo_machine2 4 = Some demo_user_mm" "registered demo_machine2 4"
  "wf_dev (k_mram demo_machine2)" "resident demo_machine2 demo_user_mm 10"
  "resolve_rg_addr demo_user_mm (int_of_u32 0) 10 = Some 10"
proof -
  show "the_mm demo_machine2 4 = Some demo_user_mm"
    by (simp add: demo_machine2_def the_mm_set_mm [OF demo_the_mm])
  show "registered demo_machine2 4" "wf_dev (k_mram demo_machine2)"
    by (simp_all add: demo_machine2_def demo_machine_registered demo_machine_mram)
  have "unat (ucast (take_bit 13 (2 :: addr_t)) :: u32) = 2" by (simp only: unat_PAGING_FPN_entry) simp
  then have "ucast (take_bit 13 (2 :: addr_t)) = (2 :: u32)" by (simp add: word_unat_eq_iff)
  then show "resident demo_machine2 demo_user_mm 10"
    using fpn_pte_fields [of 0 2]
    by (simp add: resident_def frame_of_def demo_user_mm_ok demo_machine2_def num_frames_def demo_machine_mram
        PAGING_MAX_PGN_eq)
  show "resolve_rg_addr demo_user_mm (int_of_u32 0) 10 = Some 10"
    by (simp add: resolve_rg_addr_def get_symrg_byid_def PAGING_MAX_SYMTBL_SZ_def demo_user_mm_ok VMRG_USER_MODE_def
        int_of_u32_def)
qed

text \<open>
  Property C18: the protection check. An access is refused, with result -1 and without any
  change to the machine, if the region number is out of range, the region is empty, the offset
  is not inside it, or it is a kernel region (mode bit not user): for reads and for writes,
  for every process with an \<^verbatim>\<open>mm\<close>.
\<close>

theorem user_access_denied:
  assumes "the_mm m p = Some mm"
    and "int_of_u32 rg < 0 \<or> 30 \<le> int_of_u32 rg \<or>
      (let r = symrgtbl mm ! nat (int_of_u32 rg) in
         rg_start r = rg_end r \<or> rg_end r - rg_start r \<le> off \<or> mode_bit r \<noteq> VMRG_USER_MODE)"
  shows "libwrite m p d rg off = Some (-1, m) \<and> libread m p rg off = Some (-1, 0, m)"
proof -
  have "resolve_rg_addr mm (int_of_u32 rg) off = None"
    using assms(2) by (auto simp: resolve_rg_addr_def get_symrg_byid_def PAGING_MAX_SYMTBL_SZ_def Let_def)
  then show ?thesis
    using assms(1) by (simp add: libwrite_def libread_def mm_write_def mm_read_def the_mm_Some)
qed

theorem user_access_denied_witness:
  "libwrite demo_machine 4 7 1 0 = Some (-1, demo_machine) \<and> libread demo_machine 4 35 0 = Some (-1, 0, demo_machine)"
  using user_access_denied [OF demo_the_mm, of 1 0 7] user_access_denied [OF demo_the_mm, of 35 0]
  by (simp add: int_of_u32_def PAGING_MAX_SYMTBL_SZ_def)

section \<open>Allocation and release\<close>

text \<open>The free regions of area \<open>k\<close>.\<close>

definition frees :: "mm_struct \<Rightarrow> nat \<Rightarrow> vm_rg_struct list" where
  "frees mm k = vm_freerg_list (mmap mm ! k)"

definition user_rg :: "addr_t \<Rightarrow> addr_t \<Rightarrow> vm_rg_struct" where
  "user_rg s e = \<lparr>rg_start = s, rg_end = e, mode_bit = VMRG_USER_MODE\<rparr>"

lemma int_of_u64_size: "uint sz < 2 ^ 31 \<Longrightarrow> int_of_u64 sz = uint sz \<and> u64_of_int (int_of_u64 sz) = sz"
  by (simp add: int_of_u64_small u64_of_int_def)

lemma mm_alloc_fit:
  assumes mm: "the_mm m p = Some mm" and k: "get_vma_by_num (Some mm) vmaid = Some k"
    and sz: "uint sz < 2 ^ 31" and ok: "\<forall>rg \<in> set (frees mm k). rg_ok rg"
    and r: "0 \<le> rgid" "rgid < 30" and f: "find (fits (uint sz)) (frees mm k) = Some rg"
  shows "\<exists>rgs'. mm_alloc m p vmaid rgid sz =
      Some (0, rg_start rg, set_mm m p (Some ((set_vma mm k ((mmap mm ! k)\<lparr>vm_freerg_list := rgs'\<rparr>))
        \<lparr>symrgtbl := (symrgtbl mm)[nat rgid := user_rg (rg_start rg) (rg_start rg + sz)]\<rparr>))) \<and>
    (\<forall>a. cover rgs' a + in_rg (rg_start rg) (rg_start rg + sz) a = cover (frees mm k) a) \<and>
    (\<forall>rg \<in> set rgs'. rg_ok rg)"
proof -
  note s = int_of_u64_size [OF sz]
  obtain rgs' where g: "get_free_vmrg_area mm vmaid (uint sz) =
        Some (0, (rg_start rg, rg_start rg + sz), set_vma mm k ((mmap mm ! k)\<lparr>vm_freerg_list := rgs'\<rparr>))"
      "\<forall>a. cover rgs' a + in_rg (rg_start rg) (rg_start rg + sz) a = cover (frees mm k) a"
      "\<forall>rg \<in> set rgs'. rg_ok rg"
    using get_free_vmrg_area_spec [OF k _ sz ok [unfolded frees_def]] f s by (auto simp: frees_def)
  obtain pcb where pcb: "procs m p = Some pcb" "pcb_mm pcb = Some mm"
    using mm by (auto simp: the_mm_def caller_mm_def bind_Some_iff)
  have "mm_alloc m p vmaid rgid sz =
      Some (0, rg_start rg, set_mm m p (Some ((set_vma mm k ((mmap mm ! k)\<lparr>vm_freerg_list := rgs'\<rparr>))
        \<lparr>symrgtbl := (symrgtbl mm)[nat rgid := user_rg (rg_start rg) (rg_start rg + sz)]\<rparr>)))"
    using pcb k g(1) s r by (simp add: mm_alloc_def set_symrg_def PAGING_MAX_SYMTBL_SZ_def user_rg_def)
  then show ?thesis using g by blast
qed

lemma mm_free_user:
  assumes mm: "the_mm m p = Some mm" and k: "get_vma_by_num (Some mm) vmaid = Some k" and r: "0 \<le> rgid" "rgid < 30"
    and rg: "rg = symrgtbl mm ! nat rgid" "rg_start rg < rg_end rg" "\<not> kmem_addr_is_kernel (rg_start rg)"
  shows "mm_free m p vmaid rgid =
    Some (0, set_mm m p (Some (set_vma (mm\<lparr>symrgtbl := (symrgtbl mm)[nat rgid := \<lparr>rg_start = 0, rg_end = 0, mode_bit = VMRG_KERNEL_MODE\<rparr>]\<rparr>)
      k ((mmap mm ! k)\<lparr>vm_freerg_list := user_rg (rg_start rg) (rg_end rg) # frees mm k\<rparr>))))"
proof -
  have g: "get_symrg_byid rgid = Some (nat rgid)" using r by (simp add: get_symrg_byid_def PAGING_MAX_SYMTBL_SZ_def)
  have ne: "\<not> (rg_start rg = 0 \<and> rg_end rg = 0)" "\<not> rg_end rg \<le> rg_start rg" using rg(2) by auto
  have k': "get_vma_by_num (Some (mm\<lparr>symrgtbl := t\<rparr>)) vmaid = Some k" for t
    using k by (simp add: get_vma_by_num_def)
  show ?thesis
    using mm g ne rg(1,3) k' by (simp add: mm_free_def enlist_vm_freerg_list_def user_rg_def frees_def Let_def)
qed

text \<open>
  Property C21: allocation from the free list is first fit and conserves the address space. If
  some free region of the area has room, \<^verbatim>\<open>__alloc\<close> returns 0 with the start of the first such
  region, records the region as user memory, changes no page table entry and asks for no frame;
  and every address is covered by the remaining free regions and the new one together exactly as
  often as by the free regions before (so nothing is lost and nothing is handed out twice).
\<close>

theorem alloc_first_fit:
  assumes "the_mm m p = Some mm" "get_vma_by_num (Some mm) vmaid = Some k"
    and "uint sz < 2 ^ 31" "\<forall>rg \<in> set (frees mm k). rg_ok rg"
    and "0 \<le> rgid" "rgid < 30" "find (fits (uint sz)) (frees mm k) = Some rg"
  shows "\<exists>mm'. mm_alloc m p vmaid rgid sz = Some (0, rg_start rg, set_mm m p (Some mm')) \<and>
    symrgtbl mm' = (symrgtbl mm)[nat rgid := user_rg (rg_start rg) (rg_start rg + sz)] \<and>
    pte_at mm' = pte_at mm \<and> (\<forall>rg \<in> set (frees mm' k). rg_ok rg) \<and>
    (\<forall>a. cover (frees mm' k) a + in_rg (rg_start rg) (rg_start rg + sz) a = cover (frees mm k) a)"
proof -
  have kl: "k < length (mmap mm)" using get_vma_bound [OF assms(2)] .
  obtain rgs' where e: "mm_alloc m p vmaid rgid sz =
      Some (0, rg_start rg, set_mm m p (Some ((set_vma mm k ((mmap mm ! k)\<lparr>vm_freerg_list := rgs'\<rparr>))
        \<lparr>symrgtbl := (symrgtbl mm)[nat rgid := user_rg (rg_start rg) (rg_start rg + sz)]\<rparr>)))"
      "\<forall>a. cover rgs' a + in_rg (rg_start rg) (rg_start rg + sz) a = cover (frees mm k) a" "\<forall>rg \<in> set rgs'. rg_ok rg"
    using mm_alloc_fit [OF assms] by blast
  show ?thesis
    by (rule exI, intro conjI, rule e(1)) (use e(2,3) kl in \<open>simp_all add: frees_def pte_at_def fun_eq_iff set_vma_def\<close>)
qed

definition demo_free_mm :: mm_struct where
  "demo_free_mm = demo_user_mm\<lparr>mmap := [demo_vma\<lparr>vm_freerg_list := [user_rg 0 100, user_rg 512 1024]\<rparr>]\<rparr>"

definition demo_machine3 :: machine where
  "demo_machine3 = set_mm demo_machine 4 (Some demo_free_mm)"

lemma demo_machine3_ok: "the_mm demo_machine3 4 = Some demo_free_mm"
  "get_vma_by_num (Some demo_free_mm) 0 = Some 0" "frees demo_free_mm 0 = [user_rg 0 100, user_rg 512 1024]"
  by (simp_all add: demo_machine3_def the_mm_set_mm [OF demo_the_mm] get_vma_by_num_def demo_free_mm_def demo_vma_def
      int_of_u64_def frees_def)

theorem alloc_first_fit_witness:
  "\<exists>mm'. mm_alloc demo_machine3 4 0 5 300 = Some (0, 512, set_mm demo_machine3 4 (Some mm')) \<and>
     symrgtbl mm' = (symrgtbl demo_free_mm)[5 := user_rg 512 812]"
proof -
  have f: "find (fits (uint (300 :: addr_t))) (frees demo_free_mm 0) = Some (user_rg 512 1024)"
    by (simp add: demo_machine3_ok fits_def user_rg_def)
  have o: "\<forall>rg \<in> set (frees demo_free_mm 0). rg_ok rg" by (simp add: demo_machine3_ok rg_ok_def user_rg_def)
  show ?thesis
    using alloc_first_fit [OF demo_machine3_ok(1,2) _ o _ _ f, of 5] by (auto simp: user_rg_def)
qed

text \<open>
  Property C30: releasing and allocating again. After \<^verbatim>\<open>__free\<close> of a user region of less than
  2 GB its symbol entry is cleared and its addresses are free again; an \<^verbatim>\<open>__alloc\<close> of the same
  size, under any region number, then returns the same address and restores the old free list
  addresses.
\<close>

theorem free_alloc_roundtrip:
  assumes "the_mm m p = Some mm" "get_vma_by_num (Some mm) vmaid = Some k" "0 \<le> rgid" "rgid < 30"
    and "rg = symrgtbl mm ! nat rgid" "rg_start rg < rg_end rg" "\<not> kmem_addr_is_kernel (rg_start rg)"
    and "uint (rg_end rg) < 2 ^ 63" "uint (rg_end rg - rg_start rg) < 2 ^ 31" "\<forall>rg \<in> set (frees mm k). rg_ok rg"
    and "0 \<le> rgid2" "rgid2 < 30" "nat rgid < length (symrgtbl mm)"
  shows "\<exists>m1 mm1 m2 mm2. mm_free m p vmaid rgid = Some (0, m1) \<and> the_mm m1 p = Some mm1 \<and>
     rg_start (symrgtbl mm1 ! nat rgid) = 0 \<and> rg_end (symrgtbl mm1 ! nat rgid) = 0 \<and>
     (\<forall>a. cover (frees mm1 k) a = cover (frees mm k) a + in_rg (rg_start rg) (rg_end rg) a) \<and>
     mm_alloc m1 p vmaid rgid2 (rg_end rg - rg_start rg) = Some (0, rg_start rg, m2) \<and>
     the_mm m2 p = Some mm2 \<and> (\<forall>a. cover (frees mm2 k) a = cover (frees mm k) a)"
proof -
  let ?mm1 = "set_vma (mm\<lparr>symrgtbl := (symrgtbl mm)[nat rgid := \<lparr>rg_start = 0, rg_end = 0, mode_bit = VMRG_KERNEL_MODE\<rparr>]\<rparr>)
      k ((mmap mm ! k)\<lparr>vm_freerg_list := user_rg (rg_start rg) (rg_end rg) # frees mm k\<rparr>)"
  let ?m1 = "set_mm m p (Some ?mm1)" and ?sz = "rg_end rg - rg_start rg"
  have kl: "k < length (mmap mm)" using get_vma_bound [OF assms(2)] .
  have fr: "mm_free m p vmaid rgid = Some (0, ?m1)" using mm_free_user [OF assms(1-7)] .
  have mm1: "the_mm ?m1 p = Some ?mm1" using assms(1) by simp
  have frs: "frees ?mm1 k = user_rg (rg_start rg) (rg_end rg) # frees mm k" using kl by (simp add: frees_def)
  have le: "rg_start rg \<le> rg_end rg" using assms(6) by simp
  have usz: "uint ?sz = uint (rg_end rg) - uint (rg_start rg)"
    using le by (simp add: uint_sub_lem word_le_def)
  have okn: "rg_ok (user_rg (rg_start rg) (rg_end rg))" using le assms(8) by (simp add: rg_ok_def user_rg_def)
  have ok1: "\<forall>rg \<in> set (frees ?mm1 k). rg_ok rg" using frs okn assms(10) by simp
  have fit: "find (fits (uint ?sz)) (frees ?mm1 k) = Some (user_rg (rg_start rg) (rg_end rg))"
    unfolding frs by (simp add: fits_def user_rg_def usz)
  have k1: "get_vma_by_num (Some ?mm1) vmaid = Some k"
  proof -
    have "find_vma j (vs[i := v]) n = find_vma j vs n" if "vm_id v = vm_id (vs ! i)" for i j v vs n
      using that by (induction j vs n arbitrary: i rule: find_vma.induct) (auto split: nat.splits)
    then show ?thesis using assms(2) by (simp add: get_vma_by_num_def set_vma_def)
  qed
  obtain rgs' where al: "mm_alloc ?m1 p vmaid rgid2 ?sz =
      Some (0, rg_start rg, set_mm ?m1 p (Some ((set_vma ?mm1 k ((mmap ?mm1 ! k)\<lparr>vm_freerg_list := rgs'\<rparr>))
        \<lparr>symrgtbl := (symrgtbl ?mm1)[nat rgid2 := user_rg (rg_start rg) (rg_start rg + ?sz)]\<rparr>)))"
     and cov: "\<forall>a. cover rgs' a + in_rg (rg_start rg) (rg_start rg + ?sz) a = cover (frees ?mm1 k) a"
    using mm_alloc_fit [OF mm1 k1 assms(9) ok1 assms(11,12) fit] by (auto simp: user_rg_def)
  let ?mm2 = "(set_vma ?mm1 k ((mmap ?mm1 ! k)\<lparr>vm_freerg_list := rgs'\<rparr>))
        \<lparr>symrgtbl := (symrgtbl ?mm1)[nat rgid2 := user_rg (rg_start rg) (rg_start rg + ?sz)]\<rparr>"
  have c1: "\<forall>a. cover (frees ?mm1 k) a = cover (frees mm k) a + in_rg (rg_start rg) (rg_end rg) a"
    unfolding frs by (simp add: user_rg_def)
  moreover have "\<forall>a. cover (frees ?mm2 k) a = cover (frees mm k) a"
    using cov c1 kl by (simp add: frees_def set_vma_def)
  moreover have "the_mm (set_mm ?m1 p (Some ?mm2)) p = Some ?mm2" using the_mm_set_mm [OF mm1] by simp
  moreover have "rg_start (symrgtbl ?mm1 ! nat rgid) = 0 \<and> rg_end (symrgtbl ?mm1 ! nat rgid) = 0"
    using assms(13) by simp
  ultimately show ?thesis using fr mm1 al by blast
qed

lemma demo_user_mm_rest: "0 < length (symrgtbl demo_user_mm)" "pgd demo_user_mm \<noteq> None"
  "\<forall>k. calloc_ok demo_user_mm k"
proof -
  have "rest demo_user_mm = rest (demo_proc_mm\<lparr>symrgtbl := \<lparr>rg_start = 0, rg_end = 256, mode_bit = 1\<rparr>
     # replicate 29 \<lparr>rg_start = 0, rg_end = 0, mode_bit = 0\<rparr>\<rparr>)"
    using set_fpn.set_keeps demo_proc_mm_ok(1) by (simp add: demo_user_mm_def pt_ok_def dir_pages_def)
  from rest_eqD(2,4,5) [OF this] show "0 < length (symrgtbl demo_user_mm)" "pgd demo_user_mm \<noteq> None"
    "\<forall>k. calloc_ok demo_user_mm k"
    using demo_proc_mm_ok(3,4) by simp_all
qed

definition demo_machine4 :: machine where
  "demo_machine4 = set_mm demo_machine 4 (Some (demo_user_mm\<lparr>mmap := [demo_vma]\<rparr>))"

theorem free_alloc_roundtrip_witness:
  "\<exists>m1 m2. mm_free demo_machine4 4 0 0 = Some (0, m1) \<and> mm_alloc m1 4 0 7 256 = Some (0, 0, m2)"
proof -
  let ?mm = "demo_user_mm\<lparr>mmap := [demo_vma]\<rparr>"
  have 1: "the_mm demo_machine4 4 = Some ?mm" by (simp add: demo_machine4_def the_mm_set_mm [OF demo_the_mm])
  have 2: "get_vma_by_num (Some ?mm) 0 = Some 0" by (simp add: get_vma_by_num_def demo_vma_def int_of_u64_def)
  have 3: "\<forall>rg \<in> set (frees ?mm 0). rg_ok rg" by (simp add: frees_def demo_vma_def)
  have k: "\<not> kmem_addr_is_kernel 0" by (simp add: kmem_addr_is_kernel_def KMEM_VBASE_def)
  show ?thesis
    using demo_user_mm_rest(1) free_alloc_roundtrip [OF 1 2 _ _ refl _ _ _ _ 3, of 0 7] k by (auto simp: demo_user_mm_ok)
qed

section \<open>Allocation by growing the area\<close>

lemma sys_inc_pages:
  assumes "uint sz < 2 ^ 30"
  shows "inc_pages (PAGING_PAGE_ALIGNSZ sz) = (uint sz + 255) div 256"
proof -
  let ?n = "(uint sz + 255) div 256"
  have a: "uint (PAGING_PAGE_ALIGNSZ sz) = ?n * 256" using assms by (intro page_alignsz) simp
  have n: "0 \<le> ?n" "?n < 2 ^ 30" using assms by (simp_all add: pos_imp_zdiv_nonneg_iff)
  have "uint (PAGING_PAGE_ALIGNSZ sz + 255) = ?n * 256 + 255"
    using a n by (simp add: uint_word_ariths)
  then have d: "uint ((PAGING_PAGE_ALIGNSZ sz + 255) div 256) = ?n" by (simp add: uint_div)
  then show ?thesis using n by (simp add: inc_pages_def int_of_u64_small)
qed

lemma ucast_u32_back: "unat f < 2 ^ 32 \<Longrightarrow> ucast (ucast f :: u32) = f" for f :: addr_t
  using bit_word_bound [of f 32] by (intro bit_eqI) (auto simp: bit_simps)

text \<open>A fresh block: no free region fits, so the area grows by whole pages at its break.\<close>

lemma mm_alloc_grow:
  assumes mm: "the_mm m p = Some mm" "pt_ok mm" "pgd mm \<noteq> None" "\<forall>k. calloc_ok mm k" and reg: "registered m p"
    and k: "get_vma_by_num (Some mm) 0 = Some k" and one: "length (mmap mm) = 1"
    and sz: "0 < uint sz" "uint sz < 2 ^ 30" and ok: "\<forall>rg \<in> set (frees mm k). rg_ok rg"
    and r: "0 \<le> rgid" "rgid < 30" and f: "find (fits (uint sz)) (frees mm k) = None"
    and n: "(uint sz + 255) div 256 = int n" "n \<le> length (free_fp_list (k_mram m))"
    and lim: "unat (sbrk (mmap mm ! k) div 256) + n \<le> 16384"
  shows "\<exists>mm'. mm_alloc m p 0 rgid sz = Some (0, sbrk (mmap mm ! k),
      set_mm (m\<lparr>k_mram := (k_mram m)\<lparr>free_fp_list := drop n (free_fp_list (k_mram m))\<rparr>\<rparr>) p (Some mm')) \<and>
    pt_ok mm' \<and> symrgtbl mm' = (symrgtbl mm)[nat rgid := user_rg (sbrk (mmap mm ! k)) (sbrk (mmap mm ! k) + sz)] \<and>
    (\<forall>q. if unat (sbrk (mmap mm ! k) div 256) \<le> unat q \<and> unat q < unat (sbrk (mmap mm ! k) div 256) + n
         then pte_at mm' q = fpn_pte (pte_at mm q) (free_fp_list (k_mram m) ! (unat q - unat (sbrk (mmap mm ! k) div 256)))
         else pte_at mm' q = pte_at mm q)"
proof -
  let ?old = "sbrk (mmap mm ! k)" and ?al = "PAGING_PAGE_ALIGNSZ sz"
  have k0: "k = 0" using get_vma_bound [OF k] one by simp
  have szi: "int_of_u64 sz = uint sz" using sz by (simp add: int_of_u64_small)
  have g: "get_free_vmrg_area mm 0 (uint sz) = Some (-1, (-1, -1), mm)"
    using get_free_vmrg_area_spec [OF k _ _ ok [unfolded frees_def], of "uint sz"] f sz by (auto simp: frees_def)
  have ip: "inc_pages ?al = int n" using sys_inc_pages [OF sz(2)] n(1) by simp
  have "int n * 256 \<le> uint sz + 255" using n(1) by linarith
  then have "int n < 2 ^ 23" using sz(2) by simp
  moreover have "0 < n"
  proof (rule ccontr)
    assume "\<not> 0 < n"
    then have "(uint sz + 255) div 256 = 0" using n(1) by simp
    then show False using sz(1) by linarith
  qed
  ultimately have nb: "0 < n" "int n < 2 ^ 23" by simp_all
  have gv: "sbrk (grown_vma (mmap mm ! k) ?al) = ?old + of_nat n * 256"
    by (simp add: grown_vma_def ip u64_of_int_def Let_def)
  have u: "uint (?old + of_nat n * 256) = uint ?old + int n * 256"
  proof -
    have "unat ?old div 256 + n \<le> 16384" using lim by (simp add: unat_div)
    then have "unat ?old div 256 \<le> 16384" by linarith
    then have "unat ?old < 4194560" by linarith
    then have "uint ?old < 16777216" using uint_nat [of ?old] by linarith
    moreover have "uint (of_nat n * 256 :: addr_t) = int n * 256"
    proof -
      have "n < 8388608" using nb by simp
      then have "take_bit 64 n = n" by (simp add: take_bit_nat_eq_self_iff)
      then show ?thesis using nb by (simp add: uint_word_ariths unsigned_of_nat)
    qed
    ultimately show ?thesis using nb by (simp add: uint_word_ariths)
  qed
  have valid: "\<not> (sbrk (grown_vma (mmap mm ! k) ?al) \<le> ?old \<or> overlaps 0 (mmap mm) k ?old (sbrk (grown_vma (mmap mm ! k) ?al)))"
  proof -
    have "\<not> sbrk (grown_vma (mmap mm ! k) ?al) \<le> ?old" unfolding gv word_le_def u using nb by simp
    moreover have "\<not> overlaps 0 (mmap mm) k s e" for s e using one k0 by (simp add: overlaps_iff)
    ultimately show ?thesis by blast
  qed
  have ii: "in_int (int n * 256)" using nb by (simp add: in_int_def)
  obtain mm2 where inc: "inc_vma_limit (Some mm) (k_mram m) 0 ?al =
       Some (0, Some mm2, (k_mram m)\<lparr>free_fp_list := drop n (free_fp_list (k_mram m))\<rparr>)"
     "pt_ok mm2" "mmap mm2 = (mmap mm)[k := grown_vma (mmap mm ! k) ?al]" "symrgtbl mm2 = symrgtbl mm"
     "\<forall>q. if unat (?old div 256) \<le> unat q \<and> unat q < unat (?old div 256) + n
         then pte_at mm2 q = fpn_pte (pte_at mm q) (free_fp_list (k_mram m) ! (unat q - unat (?old div 256)))
         else pte_at mm2 q = pte_at mm q"
    using inc_vma_limit_maps_all [OF mm(2-4) k ip ii n(2) refl valid lim] by blast
  obtain pcb where pcb: "procs m p = Some pcb" "pcb_mm pcb = Some mm"
    using mm(1) by (auto simp: the_mm_def caller_mm_def bind_Some_iff)
  have sm: "set_mm m p (Some mm) = m"
  proof -
    have "(procs m)(p := Some (pcb\<lparr>pcb_mm := Some mm\<rparr>)) = procs m" using pcb by (auto simp: fun_eq_iff)
    then show ?thesis using pcb by (simp add: set_mm_def)
  qed
  let ?scr = "\<lparr>a1 = 2, a2 = 0, a3 = ?al\<rparr>" and ?ram = "(k_mram m)\<lparr>free_fp_list := drop n (free_fp_list (k_mram m))\<rparr>"
  let ?m2 = "set_mm (m\<lparr>k_mram := ?ram\<rparr>) p (Some mm2)"
  have sc: "syscall m (pid pcb) 17 ?scr = Some (0, ?m2, ?scr)"
    using sys_memmap_inc [OF reg pcb(1) _ mm(1), of ?scr] inc(1) by (simp add: syscall_17 int_of_u64_def)
  have mm2: "the_mm ?m2 p = Some mm2" using mm(1) by simp
  let ?mm3 = "mm2\<lparr>symrgtbl := (symrgtbl mm2)[nat rgid := user_rg ?old (?old + sz)]\<rparr>"
  have set2: "set_mm ?m2 p x = set_mm (m\<lparr>k_mram := ?ram\<rparr>) p x" for x
    by (cases "procs m p") (simp_all add: set_mm_def)
  have "mm_alloc m p 0 rgid sz = Some (0, ?old, set_mm (m\<lparr>k_mram := ?ram\<rparr>) p (Some ?mm3))"
    using pcb k g sc mm2 r set2
    by (simp add: mm_alloc_def szi sm SYSMEM_INC_OP_def u64_of_int_def set_symrg_def PAGING_MAX_SYMTBL_SZ_def user_rg_def Let_def)
  moreover have "pt_ok ?mm3" "pte_at ?mm3 = pte_at mm2"
    using inc(2) by (simp_all add: pt_ok_def dir_pages_def pte_at_def fun_eq_iff)
  ultimately show ?thesis using inc(4,5) by (intro exI [of _ ?mm3]) simp
qed

text \<open>The page of a byte of a region that starts on a page boundary.\<close>

lemma page_of_region:
  fixes a off sz :: addr_t
  assumes "uint a mod 256 = 0" "\<not> sz \<le> off" "(uint sz + 255) div 256 = int n" "unat (a div 256) + n \<le> 16384"
  shows "unat ((a + off) div 256) = unat (a div 256) + unat off div 256 \<and> unat off div 256 < n"
proof -
  have off: "unat off < unat sz" using assms(2) by (simp add: word_le_nat_alt)
  have "int (unat sz) = uint sz" by (rule uint_nat [symmetric])
  then have "int (unat sz + 255) div 256 = int n" using assms(3) by simp
  then have b: "unat off div 256 < n" using off by linarith
  have "unat a mod 256 = 0" using assms(1) by (metis nat_int nat_mod_as_int of_nat_numeral
      nat_zero_as_int unat_eq_nat_uint uint_nat of_nat_mod of_nat_0)
  then have ua: "unat a = 256 * unat (a div 256)" using mult_div_mod_eq [of 256 "unat a"] by (simp add: unat_div)
  then have "unat a + unat off < 4194304" using b assms(4) by linarith
  then have "unat a + unat off < 2 ^ 64" by simp
  then have s: "unat (a + off) = unat a + unat off" by (simp add: unat_word_ariths)
  have gen: "(256 * x + y) div 256 = x + y div 256" for x y :: nat by simp
  have "unat ((a + off) div 256) = (unat a + unat off) div 256" by (simp add: unat_div s)
  also have "\<dots> = (256 * unat (a div 256) + unat off) div 256" by (subst ua) (rule refl)
  finally show ?thesis using gen b by simp
qed

text \<open>The state after such an allocation, and that every byte of the region is accepted and in RAM.\<close>

lemma alloc_grow_resident:
  assumes "the_mm m p = Some mm" "pt_ok mm" "pgd mm \<noteq> None" "\<forall>k. calloc_ok mm k" "registered m p"
    and "get_vma_by_num (Some mm) 0 = Some k" "length (mmap mm) = 1"
    and "0 < uint sz" "uint sz < 2 ^ 30" "\<forall>rg \<in> set (frees mm k). rg_ok rg"
    and "0 \<le> rgid" "rgid < 30" "find (fits (uint sz)) (frees mm k) = None"
    and "(uint sz + 255) div 256 = int n" "n \<le> length (free_fp_list (k_mram m))"
    and "uint (sbrk (mmap mm ! k)) mod 256 = 0" "unat (sbrk (mmap mm ! k) div 256) + n \<le> 16384"
    and "frames_ok (k_mram m)" "num_frames (k_mram m) \<le> 8192" "nat rgid < length (symrgtbl mm)"
  shows "\<exists>mm'. mm_alloc m p 0 rgid sz = Some (0, sbrk (mmap mm ! k),
      set_mm (m\<lparr>k_mram := (k_mram m)\<lparr>free_fp_list := drop n (free_fp_list (k_mram m))\<rparr>\<rparr>) p (Some mm')) \<and> pt_ok mm' \<and>
    (\<forall>off. sz \<le> off \<or> (resolve_rg_addr mm' rgid off = Some (sbrk (mmap mm ! k) + off) \<and>
      resident (set_mm (m\<lparr>k_mram := (k_mram m)\<lparr>free_fp_list := drop n (free_fp_list (k_mram m))\<rparr>\<rparr>) p (Some mm')) mm'
        (sbrk (mmap mm ! k) + off)))"
proof -
  let ?old = "sbrk (mmap mm ! k)" and ?fl = "free_fp_list (k_mram m)"
  obtain mm' where al: "mm_alloc m p 0 rgid sz = Some (0, ?old,
      set_mm (m\<lparr>k_mram := (k_mram m)\<lparr>free_fp_list := drop n ?fl\<rparr>\<rparr>) p (Some mm'))" "pt_ok mm'"
    and sym: "symrgtbl mm' = (symrgtbl mm)[nat rgid := user_rg ?old (?old + sz)]"
    and pte: "\<forall>q. if unat (?old div 256) \<le> unat q \<and> unat q < unat (?old div 256) + n
         then pte_at mm' q = fpn_pte (pte_at mm q) (?fl ! (unat q - unat (?old div 256)))
         else pte_at mm' q = pte_at mm q"
    using mm_alloc_grow [OF assms(1-15) assms(17)] by blast
  let ?m' = "set_mm (m\<lparr>k_mram := (k_mram m)\<lparr>free_fp_list := drop n ?fl\<rparr>\<rparr>) p (Some mm')"
  have "resolve_rg_addr mm' rgid off = Some (?old + off) \<and> resident ?m' mm' (?old + off)" if "\<not> sz \<le> off" for off
  proof -
    let ?b = "unat (?old div 256)"
    note pg = page_of_region [OF assms(16) that assms(14,17)]
    have b: "unat off div 256 < n" using pg by blast
    have ob: "?b + unat off div 256 < 16384" using b assms(17) by linarith
    have p1: "pte_at mm' ((?old + off) div 256) = fpn_pte (pte_at mm ((?old + off) div 256)) (?fl ! (unat off div 256))"
      using pte [rule_format, of "(?old + off) div 256"] pg b by simp
    let ?f = "?fl ! (unat off div 256)"
    have fm: "?f \<in> set ?fl" using b assms(15) by (intro nth_mem) linarith
    then have fu: "uint ?f < num_frames (k_mram m)" using assms(18) by (simp add: frames_ok_def)
    then have "unat ?f < 8192" using assms(19) uint_nat [of ?f] by linarith
    then have "take_bit 13 ?f = ?f" by (intro take_bit_word_self) simp
    moreover have "ucast (ucast ?f :: u32) = ?f"
    proof -
      have "unat ?f < 2 ^ 32" using \<open>unat ?f < 8192\<close> by simp
      then show ?thesis by (rule ucast_u32_back)
    qed
    ultimately have fr: "frame_of mm' (?old + off) = ?f" using fpn_pte_fields by (simp add: frame_of_def p1)
    have "resident ?m' mm' (?old + off)"
      using fr fu pg ob fpn_pte_fields by (simp add: resident_def num_frames_def p1 PAGING_MAX_PGN_eq word_less_nat_alt)
    moreover have "resolve_rg_addr mm' rgid off = Some (?old + off)"
      using assms(8,11,12,20) that
      by (auto simp: resolve_rg_addr_def get_symrg_byid_def PAGING_MAX_SYMTBL_SZ_def sym user_rg_def Let_def)
    ultimately show ?thesis by simp
  qed
  then show ?thesis using al by (intro exI [of _ mm']) auto
qed



end
