(* ===== verification/Kmem.thy ===== *)
theory Kmem
  imports Libmem
begin

text \<open>
  The kernel memory pool of src/libmem.c: the bump allocator, slab caches, and the copies between
  user and kernel regions. \<^verbatim>\<open>kmem_lock\<close> makes each pool operation atomic. The theorems say
  which blocks are disjoint, that a pool never outgrows its slab, and what the copy functions do
  not check.
\<close>

section \<open>Operations\<close>

definition KMEM_MAX_POOLS :: nat where
  "KMEM_MAX_POOLS = 32"

definition kmem_offset :: "addr_t \<Rightarrow> int" where
  "kmem_offset addr = int_of_u64 (addr - KMEM_VBASE)"

text \<open>\<^verbatim>\<open>__kmem_carve\<close>: 0 on exhaustion. The sum is computed in \<^verbatim>\<open>int\<close>.\<close>

definition kmem_carve :: "machine \<Rightarrow> int \<Rightarrow> (addr_t \<times> machine) option" where
  "kmem_carve m sz =
     (if sz \<le> 0 then Some (0, m)
      else if \<not> in_int (kmem_brk m + sz) then None
      else if kmem_brk m + sz > uint KMEM_POOL_SIZE then Some (0, m)
      else Some (KMEM_VBASE + u64_of_int (kmem_brk m), m\<lparr>kmem_brk := kmem_brk m + sz\<rparr>))"

text \<open>Recording a kernel region in the symbol table of the caller.\<close>

definition kernel_rg :: "addr_t \<Rightarrow> addr_t \<Rightarrow> vm_rg_struct" where
  "kernel_rg s e = \<lparr>rg_start = s, rg_end = e, mode_bit = VMRG_KERNEL_MODE\<rparr>"

definition put_symrg :: "mm_struct \<Rightarrow> nat \<Rightarrow> vm_rg_struct \<Rightarrow> mm_struct" where
  "put_symrg mm i rg = mm\<lparr>symrgtbl := (symrgtbl mm)[i := rg]\<rparr>"

text \<open>The pointer \<^verbatim>\<open>caller\<close> may be NULL in the library functions.\<close>

definition libkmem_malloc :: "machine \<Rightarrow> pref option \<Rightarrow> u32 \<Rightarrow> u32 \<Rightarrow> (int \<times> machine) option" where
  "libkmem_malloc m caller sz reg_index =
     (case caller of None \<Rightarrow> Some (-1, m)
      | Some p \<Rightarrow> do {
          mmp \<leftarrow> caller_mm m p;
          case mmp of None \<Rightarrow> Some (-1, m)
          | Some mm \<Rightarrow>
              if PAGING_MAX_SYMTBL_SZ \<le> unat reg_index then Some (-1, m)
              else do {
                (addr, m1) \<leftarrow> kmem_carve m (int_of_u32 sz);
                if addr = 0 then Some (-1, m1)
                else Some (0, set_mm m1 p (Some (put_symrg mm (unat reg_index) (kernel_rg addr (addr + ucast sz)))))
              }
        })"

definition libkmem_cache_pool_create :: "machine \<Rightarrow> pref option \<Rightarrow> u32 \<Rightarrow> u32 \<Rightarrow> u32 \<Rightarrow> (int \<times> machine) option" where
  "libkmem_cache_pool_create m caller sz align_sz cache_pool_id =
     (if caller = None \<or> KMEM_MAX_POOLS \<le> unat cache_pool_id \<or> align_sz = 0 then Some (-1, m)
      else if pool_used (kmem_pools m ! unat cache_pool_id) \<noteq> 0 then Some (-1, m)
      else do {
        (addr, m1) \<leftarrow> kmem_carve m (int_of_u32 sz);
        if addr = 0 then Some (-1, m1)
        else Some (0, m1\<lparr>kmem_pools := (kmem_pools m1)[unat cache_pool_id :=
               \<lparr>pool_used = 1, pool_size = int_of_u32 sz, pool_align = int_of_u32 align_sz,
                pool_storage = addr, next_slot = 0\<rparr>]\<rparr>)
      })"

definition libkmem_cache_alloc :: "machine \<Rightarrow> pref option \<Rightarrow> u32 \<Rightarrow> u32 \<Rightarrow> (int \<times> machine) option" where
  "libkmem_cache_alloc m caller reg_index cache_pool_id =
     (case caller of None \<Rightarrow> Some (-1, m)
      | Some p \<Rightarrow> do {
          mmp \<leftarrow> caller_mm m p;
          case mmp of None \<Rightarrow> Some (-1, m)
          | Some mm \<Rightarrow>
              if PAGING_MAX_SYMTBL_SZ \<le> unat reg_index \<or> KMEM_MAX_POOLS \<le> unat cache_pool_id then Some (-1, m)
              else do {
                let pool = kmem_pools m ! unat cache_pool_id;
                if pool_used pool = 0 then Some (-1, m)
                else if \<not> in_int (next_slot pool + pool_align pool) then None
                else if next_slot pool + pool_align pool > pool_size pool then Some (-1, m)
                else do {
                  let slot_addr = pool_storage pool + u64_of_int (next_slot pool);
                  let slot_size = pool_align pool;
                  let m1 = m\<lparr>kmem_pools := (kmem_pools m)[unat cache_pool_id :=
                             pool\<lparr>next_slot := next_slot pool + pool_align pool\<rparr>]\<rparr>;
                  Some (0, set_mm m1 p (Some (put_symrg mm (unat reg_index)
                             (kernel_rg slot_addr (slot_addr + u64_of_int slot_size)))))
                }
              }
        })"

text \<open>\<^verbatim>\<open>__kmalloc\<close> and \<^verbatim>\<open>__kmem_cache_alloc\<close>: the address recorded, 0 on failure.\<close>

definition kmalloc :: "machine \<Rightarrow> pref \<Rightarrow> int \<Rightarrow> addr_t \<Rightarrow> (addr_t \<times> machine) option" where
  "kmalloc m p rgid sz =
     do {
       (r, m1) \<leftarrow> libkmem_malloc m (Some p) (ucast sz) (u32_of_int rgid);
       if r \<noteq> 0 then Some (0, m1)
       else do { mm \<leftarrow> the_mm m1 p; i \<leftarrow> get_symrg_byid rgid; Some (rg_start (symrgtbl mm ! i), m1) }
     }"

definition kmem_cache_alloc :: "machine \<Rightarrow> pref \<Rightarrow> int \<Rightarrow> int \<Rightarrow> (addr_t \<times> machine) option" where
  "kmem_cache_alloc m p rgid cache_pool_id =
     do {
       (r, m1) \<leftarrow> libkmem_cache_alloc m (Some p) (u32_of_int rgid) (u32_of_int cache_pool_id);
       if r \<noteq> 0 then Some (0, m1)
       else do { mm \<leftarrow> the_mm m1 p; i \<leftarrow> get_symrg_byid rgid; Some (rg_start (symrgtbl mm ! i), m1) }
     }"

definition kmem_write_byte :: "machine \<Rightarrow> addr_t \<Rightarrow> byte \<Rightarrow> int \<times> machine" where
  "kmem_write_byte m kaddr val =
     (if \<not> kmem_addr_is_kernel kaddr then (-1, m)
      else (0, m\<lparr>kmem_storage := (kmem_storage m)(nat (kmem_offset kaddr) := val)\<rparr>))"

text \<open>\<^verbatim>\<open>*value\<close> is the second component; the callers set it to 0 before.\<close>

definition kmem_read_byte :: "machine \<Rightarrow> addr_t \<Rightarrow> int \<times> byte" where
  "kmem_read_byte m kaddr =
     (if \<not> kmem_addr_is_kernel kaddr then (-1, 0)
      else (0, kmem_storage m (nat (kmem_offset kaddr))))"

section \<open>Copies\<close>

text \<open>
  The loops, over the byte numbers \<open>i .. i + n - 1\<close>. The region pointer stays valid and its bounds do
  not change, since page accesses leave the symbol table alone.
\<close>

fun from_user_loop :: "nat \<Rightarrow> addr_t \<Rightarrow> addr_t \<Rightarrow> machine \<Rightarrow> pref \<Rightarrow> (int \<times> machine) option" where
  "from_user_loop 0 s d m p = Some (0, m)"
| "from_user_loop (Suc n) s d m p =
     do {
       (r, b, m1) \<leftarrow> pg_getval m p s;
       if r \<noteq> 0 then Some (-1, m1)
       else (case kmem_write_byte m1 d b of
               (w, m2) \<Rightarrow> if w \<noteq> 0 then Some (-1, m2) else from_user_loop n (s + 1) (d + 1) m2 p)
     }"

fun to_user_loop :: "nat \<Rightarrow> addr_t \<Rightarrow> addr_t \<Rightarrow> machine \<Rightarrow> pref \<Rightarrow> (int \<times> machine) option" where
  "to_user_loop 0 s d m p = Some (0, m)"
| "to_user_loop (Suc n) s d m p =
     (case kmem_read_byte m s of
        (r, b) \<Rightarrow>
          if r \<noteq> 0 then Some (-1, m)
          else do {
            (w, m1) \<leftarrow> pg_setval m p d b;
            if w \<noteq> 0 then Some (-1, m1) else to_user_loop n (s + 1) (d + 1) m1 p
          })"

definition copy_rgs :: "mm_struct \<Rightarrow> u32 \<Rightarrow> u32 \<Rightarrow> (vm_rg_struct \<times> vm_rg_struct) option" where
  "copy_rgs mm source destination =
     do {
       i \<leftarrow> get_symrg_byid (int_of_u32 source);
       j \<leftarrow> get_symrg_byid (int_of_u32 destination);
       let src = symrgtbl mm ! i;
       let dst = symrgtbl mm ! j;
       if rg_start src = rg_end src \<or> rg_start dst = rg_end dst then None else Some (src, dst)
     }"

definition libkmem_copy_from_user :: "machine \<Rightarrow> pref option \<Rightarrow> u32 \<Rightarrow> u32 \<Rightarrow> u32 \<Rightarrow> u32 \<Rightarrow> (int \<times> machine) option" where
  "libkmem_copy_from_user m caller source destination offset sz =
     (case caller of None \<Rightarrow> Some (-1, m)
      | Some p \<Rightarrow> do {
          mmp \<leftarrow> caller_mm m p;
          case mmp of None \<Rightarrow> Some (-1, m)
          | Some mm \<Rightarrow>
             (case copy_rgs mm source destination of None \<Rightarrow> Some (-1, m)
              | Some (src, dst) \<Rightarrow>
                  if \<not> kmem_addr_is_kernel (rg_start dst) then Some (-1, m)
                  else if mode_bit src \<noteq> VMRG_USER_MODE \<or> mode_bit dst \<noteq> VMRG_KERNEL_MODE then Some (-1, m)
                  else from_user_loop (unat sz) (rg_start src + ucast offset) (rg_start dst + ucast offset) m p)
        })"

definition libkmem_copy_to_user :: "machine \<Rightarrow> pref option \<Rightarrow> u32 \<Rightarrow> u32 \<Rightarrow> u32 \<Rightarrow> u32 \<Rightarrow> (int \<times> machine) option" where
  "libkmem_copy_to_user m caller source destination offset sz =
     (case caller of None \<Rightarrow> Some (-1, m)
      | Some p \<Rightarrow> do {
          mmp \<leftarrow> caller_mm m p;
          case mmp of None \<Rightarrow> Some (-1, m)
          | Some mm \<Rightarrow>
             (case copy_rgs mm source destination of None \<Rightarrow> Some (-1, m)
              | Some (src, dst) \<Rightarrow>
                  if \<not> kmem_addr_is_kernel (rg_start src) then Some (-1, m)
                  else if mode_bit src \<noteq> VMRG_KERNEL_MODE \<or> mode_bit dst \<noteq> VMRG_USER_MODE then Some (-1, m)
                  else to_user_loop (unat sz) (rg_start src + ucast offset) (rg_start dst + ucast offset) m p)
        })"

section \<open>The bump allocator\<close>

lemma KMEM_POOL_SIZE_eq: "uint KMEM_POOL_SIZE = 65536" "(ucast KMEM_POOL_SIZE :: addr_t) = 65536"
  by (simp_all add: KMEM_POOL_SIZE_def)

definition kmem_ok :: "machine \<Rightarrow> bool" where
  "kmem_ok m \<longleftrightarrow> 0 \<le> kmem_brk m \<and> kmem_brk m \<le> 65536"

lemma uint_kmem_addr: "0 \<le> i \<Longrightarrow> i \<le> 65536 \<Longrightarrow> uint (KMEM_VBASE + u64_of_int i) = 2 ^ 56 + i"
  by (simp add: KMEM_VBASE_def uint_word_ariths uint_u64_of_int)

lemma kmem_carve_cases:
  assumes "kmem_ok m" "in_int sz" "sz \<le> 2 ^ 31 - 1 - 65536"
  shows "if 0 < sz \<and> kmem_brk m + sz \<le> 65536
    then kmem_carve m sz = Some (KMEM_VBASE + u64_of_int (kmem_brk m), m\<lparr>kmem_brk := kmem_brk m + sz\<rparr>)
    else kmem_carve m sz = Some (0, m)"
  using assms by (auto simp: kmem_carve_def kmem_ok_def in_int_def KMEM_POOL_SIZE_eq)

text \<open>The blocks a sequence of requests obtains: position in the pool and size.\<close>

fun carve_all :: "machine \<Rightarrow> int list \<Rightarrow> ((addr_t \<times> int) list \<times> machine) option" where
  "carve_all m [] = Some ([], m)"
| "carve_all m (sz # szs) =
     do {
       (addr, m1) \<leftarrow> kmem_carve m sz;
       (bs, m2) \<leftarrow> carve_all m1 szs;
       Some (if addr = 0 then bs else (addr, sz) # bs, m2)
     }"

lemma carve_all_spec:
  "kmem_ok m \<Longrightarrow> \<forall>sz \<in> set szs. in_int sz \<and> sz \<le> 2 ^ 31 - 1 - 65536 \<Longrightarrow>
   \<exists>bs m'. carve_all m szs = Some (bs, m') \<and> kmem_ok m' \<and>
     (\<forall>(a, n) \<in> set bs. 0 < n \<and> 2 ^ 56 + kmem_brk m \<le> uint a \<and> uint a + n \<le> 2 ^ 56 + 65536) \<and>
     sorted_wrt (\<lambda>(a, n) (b, k). uint a + n \<le> uint b) bs"
proof (induction szs arbitrary: m)
  case (Cons sz szs)
  have sz: "in_int sz" "sz \<le> 2 ^ 31 - 1 - 65536" using Cons.prems by simp_all
  note c = kmem_carve_cases [OF Cons.prems(1) sz]
  show ?case
  proof (cases "0 < sz \<and> kmem_brk m + sz \<le> 65536")
    case True
    let ?m = "m\<lparr>kmem_brk := kmem_brk m + sz\<rparr>" and ?a = "KMEM_VBASE + u64_of_int (kmem_brk m)"
    have k: "0 \<le> kmem_brk m" "kmem_brk m \<le> 65536" using Cons.prems(1) by (simp_all add: kmem_ok_def)
    have a: "uint ?a = 2 ^ 56 + kmem_brk m" using k by (rule uint_kmem_addr)
    then have "?a \<noteq> 0" using k by auto
    have "kmem_ok ?m" using True k by (simp add: kmem_ok_def)
    then obtain bs m' where ih: "carve_all ?m szs = Some (bs, m')" "kmem_ok m'"
      "\<forall>(a, n) \<in> set bs. 0 < n \<and> 2 ^ 56 + (kmem_brk m + sz) \<le> uint a \<and> uint a + n \<le> 2 ^ 56 + 65536"
      "sorted_wrt (\<lambda>(a, n) (b, k). uint a + n \<le> uint b) bs"
      using Cons.IH [of ?m] Cons.prems(2) by auto
    have "carve_all m (sz # szs) = Some ((?a, sz) # bs, m')"
      using c True ih(1) \<open>?a \<noteq> 0\<close> by simp
    moreover have "sorted_wrt (\<lambda>(a, n) (b, k). uint a + n \<le> uint b) ((?a, sz) # bs)"
      using ih(3,4) a by fastforce
    moreover have "\<forall>(a, n) \<in> set ((?a, sz) # bs). 0 < n \<and> 2 ^ 56 + kmem_brk m \<le> uint a \<and> uint a + n \<le> 2 ^ 56 + 65536"
      using ih(3) a True by fastforce
    ultimately show ?thesis using ih(2) by blast
  next
    case False
    then show ?thesis using c Cons.IH [OF Cons.prems(1)] Cons.prems(2) by auto
  qed
qed simp

text \<open>
  Property C19: kernel blocks never overlap. For any sequence of requests below 2 GB - 64 KB, in any
  state whose break is in range, \<^verbatim>\<open>__kmem_carve\<close> never overflows; every block it returns lies
  inside the pool of 65536 bytes, and each block ends before every later one starts.
\<close>

theorem kmem_blocks_disjoint:
  assumes "0 \<le> kmem_brk m" "kmem_brk m \<le> 65536" "\<forall>sz \<in> set szs. in_int sz \<and> sz \<le> 2 ^ 31 - 1 - 65536"
  shows "\<exists>bs m'. carve_all m szs = Some (bs, m') \<and>
     (\<forall>(a, n) \<in> set bs. 0 < n \<and> 2 ^ 56 \<le> uint a \<and> uint a + n \<le> 2 ^ 56 + 65536) \<and>
     sorted_wrt (\<lambda>(a, n) (b, k). uint a + n \<le> uint b) bs"
  using carve_all_spec [of m szs] assms by (fastforce simp: kmem_ok_def)

theorem kmem_blocks_disjoint_witness:
  "\<exists>bs m'. carve_all demo_machine [100, 70000, 200, -5] = Some (bs, m') \<and>
     sorted_wrt (\<lambda>(a, n) (b, k). uint a + n \<le> uint b) bs"
proof -
  have 1: "0 \<le> kmem_brk demo_machine" "kmem_brk demo_machine \<le> 65536" by (simp_all add: demo_machine_def)
  have 2: "\<forall>sz \<in> set [100, 70000, 200, -5]. in_int sz \<and> sz \<le> 2 ^ 31 - 1 - 65536" by (simp add: in_int_def)
  from kmem_blocks_disjoint [OF 1 2] show ?thesis by blast
qed

section \<open>Slab slots\<close>

lemma libkmem_cache_alloc_eq:
  assumes mm: "the_mm m p = Some mm" and i: "unat reg_index < 30" "unat pid_c < 32"
    and pool: "pool = kmem_pools m ! unat pid_c" "pool_used pool \<noteq> 0" "in_int (next_slot pool + pool_align pool)"
  shows "libkmem_cache_alloc m (Some p) reg_index pid_c =
    (if next_slot pool + pool_align pool > pool_size pool then Some (-1, m)
     else Some (0, set_mm (m\<lparr>kmem_pools := (kmem_pools m)[unat pid_c := pool\<lparr>next_slot := next_slot pool + pool_align pool\<rparr>]\<rparr>) p
       (Some (put_symrg mm (unat reg_index) (kernel_rg (pool_storage pool + u64_of_int (next_slot pool))
          (pool_storage pool + u64_of_int (next_slot pool) + u64_of_int (pool_align pool)))))))"
  using assms by (simp add: libkmem_cache_alloc_def the_mm_Some PAGING_MAX_SYMTBL_SZ_def KMEM_MAX_POOLS_def Let_def)

text \<open>
  Slab slots. In a pool with a positive slot size whose slab lies in the kernel pool,
  \<^verbatim>\<open>libkmem_cache_alloc\<close> refuses exactly when no whole slot is left, changing nothing; otherwise it
  records the next slot as a kernel region of the process, that slot lies inside the slab, and the
  next one starts where it ends.
\<close>

lemma cache_alloc_slot:
  assumes "the_mm m p = Some mm" "unat reg_index < 30" "unat pool_id < 32" "length (kmem_pools m) = 32"
    and "pool = kmem_pools m ! unat pool_id" "pool_used pool \<noteq> 0" "0 < pool_align pool" "pool_align pool < 2 ^ 30"
    and "0 \<le> next_slot pool" "next_slot pool \<le> pool_size pool" "uint (pool_storage pool) + pool_size pool \<le> 2 ^ 56 + 65536"
    and "2 ^ 56 \<le> uint (pool_storage pool)"
  shows "if pool_size pool < next_slot pool + pool_align pool
    then libkmem_cache_alloc m (Some p) reg_index pool_id = Some (-1, m)
    else \<exists>m' s e. libkmem_cache_alloc m (Some p) reg_index pool_id = Some (0, m') \<and>
      the_mm m' p = Some (put_symrg mm (unat reg_index) (kernel_rg s e)) \<and>
      uint s = uint (pool_storage pool) + next_slot pool \<and> uint e = uint s + pool_align pool \<and>
      uint e \<le> uint (pool_storage pool) + pool_size pool \<and>
      kmem_pools m' ! unat pool_id = pool\<lparr>next_slot := next_slot pool + pool_align pool\<rparr>"
proof -
  have sz: "pool_size pool \<le> 65536" using assms(11,12) by simp
  have ii: "in_int (next_slot pool + pool_align pool)" using assms(7-10) sz by (simp add: in_int_def)
  note e = libkmem_cache_alloc_eq [OF assms(1-3,5,6) ii]
  show ?thesis
  proof (cases "pool_size pool < next_slot pool + pool_align pool")
    case False
    let ?s = "pool_storage pool + u64_of_int (next_slot pool)" and ?e = "pool_storage pool + u64_of_int (next_slot pool) + u64_of_int (pool_align pool)"
    have u: "uint (u64_of_int (next_slot pool)) = next_slot pool" "uint (u64_of_int (pool_align pool)) = pool_align pool"
      using assms(7-10) sz by (simp_all add: uint_u64_of_int)
    have lt: "uint (pool_storage pool) + next_slot pool < 18446744073709551616"
      "uint (pool_storage pool) + next_slot pool + pool_align pool < 18446744073709551616"
      using False assms(10,11) by simp_all
    have s: "uint ?s = uint (pool_storage pool) + next_slot pool"
      using u(1) lt(1) assms(9,12) by (simp add: uint_word_ariths mod_pos_pos_trivial)
    have e': "uint ?e = uint ?s + pool_align pool"
      using u(2) lt(2) s assms(7,9,12) by (subst uint_word_ariths(1)) (simp add: mod_pos_pos_trivial)
    show ?thesis
      using False e s e' assms(1,3,4)
      by (simp, intro exI conjI) (auto simp: the_mm_def caller_mm_def set_mm_def bind_Some_iff)
  qed (use e in simp)
qed

text \<open>The demonstration machine with one pool of 100 bytes.\<close>

definition demo_pool :: "int \<Rightarrow> kmem_cache_pool_state" where
  "demo_pool al = \<lparr>pool_used = 1, pool_size = 100, pool_align = al, pool_storage = KMEM_VBASE, next_slot = 0\<rparr>"

definition demo_kmachine :: "int \<Rightarrow> machine" where
  "demo_kmachine al = demo_machine2\<lparr>kmem_brk := 100, kmem_pools := demo_pool al # replicate 31 (demo_pool 0)\<rparr>"

lemma the_mm_kmem [simp]:
  "the_mm (m\<lparr>kmem_brk := b\<rparr>) = the_mm m" "the_mm (m\<lparr>kmem_pools := ps\<rparr>) = the_mm m"
  "the_mm (m\<lparr>kmem_storage := st\<rparr>) = the_mm m"
  by (simp_all add: fun_eq_iff the_mm_def caller_mm_def)

lemma demo_kmachine_mm: "the_mm (demo_kmachine al) 4 = Some demo_user_mm"
  by (simp add: demo_kmachine_def demo_machine2_ok)

text \<open>
  A slot size from 2 GB on breaks the slab. \<^verbatim>\<open>libkmem_cache_pool_create\<close> accepts any
  non-zero \<^verbatim>\<open>align\<close> and keeps it in an \<^verbatim>\<open>int\<close>, where it becomes negative. The room check of
  \<^verbatim>\<open>libkmem_cache_alloc\<close> then always passes: the allocation succeeds, the region recorded ends
  \<open>- align\<close> bytes before it starts, and the slot pointer moves down, so the second allocation
  starts below the slab of the pool.
\<close>

lemma cache_negative_align:
  assumes "the_mm m p = Some mm" "unat reg_index < 30" "unat pool_id < 32" "length (kmem_pools m) = 32"
    and "pool = kmem_pools m ! unat pool_id" "pool_used pool \<noteq> 0" "next_slot pool = 0" "0 < pool_size pool"
    and "pool_align pool < 0" "- (2 ^ 30) \<le> pool_align pool" "uint (pool_storage pool) = 2 ^ 56 + off" "0 \<le> off" "off < 65536"
    and "unat reg_index < length (symrgtbl mm)"
  shows "\<exists>m1 m2 mm2. libkmem_cache_alloc m (Some p) reg_index pool_id = Some (0, m1) \<and>
     libkmem_cache_alloc m1 (Some p) reg_index pool_id = Some (0, m2) \<and> the_mm m2 p = Some mm2 \<and>
     uint (rg_start (symrgtbl mm2 ! unat reg_index)) = uint (pool_storage pool) + pool_align pool"
proof -
  let ?al = "pool_align pool"
  let ?pool1 = "pool\<lparr>next_slot := ?al\<rparr>"
  let ?rg1 = "kernel_rg (pool_storage pool + u64_of_int 0) (pool_storage pool + u64_of_int 0 + u64_of_int ?al)"
  let ?mm1 = "put_symrg mm (unat reg_index) ?rg1"
  let ?m1 = "set_mm (m\<lparr>kmem_pools := (kmem_pools m)[unat pool_id := ?pool1]\<rparr>) p (Some ?mm1)"
  have i1: "in_int (next_slot pool + ?al)" "in_int (?al + ?al)" using assms(7,9,10) by (simp_all add: in_int_def)
  have a1: "libkmem_cache_alloc m (Some p) reg_index pool_id = Some (0, ?m1)"
    using libkmem_cache_alloc_eq [OF assms(1-3,5,6) i1(1)] assms(7-9) by simp
  have mm1: "the_mm ?m1 p = Some ?mm1" using assms(1) by simp
  have p1: "kmem_pools ?m1 ! unat pool_id = ?pool1" using assms(3,4) by simp
  let ?s = "pool_storage pool + u64_of_int ?al"
  let ?rg2 = "kernel_rg ?s (?s + u64_of_int ?al)"
  let ?m2 = "set_mm (?m1\<lparr>kmem_pools := (kmem_pools ?m1)[unat pool_id := ?pool1\<lparr>next_slot := ?al + ?al\<rparr>]\<rparr>) p
      (Some (put_symrg ?mm1 (unat reg_index) ?rg2))"
  have a2: "libkmem_cache_alloc ?m1 (Some p) reg_index pool_id = Some (0, ?m2)"
    using libkmem_cache_alloc_eq [OF mm1 assms(2,3) p1 [symmetric]] i1(2) assms(6,8,9) by simp
  have mm2: "the_mm ?m2 p = Some (put_symrg ?mm1 (unat reg_index) ?rg2)"
    using the_mm_set_mm [of "?m1\<lparr>kmem_pools := (kmem_pools ?m1)[unat pool_id := ?pool1\<lparr>next_slot := ?al + ?al\<rparr>]\<rparr>" p ?mm1] mm1
    by simp
  have "uint ?s = uint (pool_storage pool) + ?al"
  proof -
    have "?al mod 2 ^ 64 = (?al + 2 ^ 64) mod 2 ^ 64" by (rule mod_add_self2 [symmetric])
    also have "\<dots> = ?al + 2 ^ 64" using assms(9,10) by (intro mod_pos_pos_trivial) simp_all
    finally have "uint (u64_of_int ?al) = ?al + 2 ^ 64" by (simp add: u64_of_int_def uint_word_of_int)
    then have "uint ?s = (uint (pool_storage pool) + ?al + 2 ^ 64) mod 2 ^ 64"
      by (subst uint_word_ariths(1)) (simp add: algebra_simps)
    also have "\<dots> = (uint (pool_storage pool) + ?al) mod 2 ^ 64" by simp
    also have "\<dots> = uint (pool_storage pool) + ?al"
      using assms(9-13) by (intro mod_pos_pos_trivial) simp_all
    finally show ?thesis .
  qed
  then have "uint (rg_start (symrgtbl (put_symrg ?mm1 (unat reg_index) ?rg2) ! unat reg_index)) = uint (pool_storage pool) + ?al"
    using assms(14) by (simp add: put_symrg_def kernel_rg_def)
  then show ?thesis using a1 a2 mm2 by blast
qed

section \<open>Copying between the spaces\<close>

lemma kernel_addr:
  assumes "i < 65536"
  shows "kmem_addr_is_kernel (KMEM_VBASE + of_nat i)" and "nat (kmem_offset (KMEM_VBASE + of_nat i)) = i"
proof -
  have u: "uint (of_nat i :: addr_t) = int i" using assms by (simp add: unsigned_of_nat take_bit_nat_eq_self_iff)
  have "uint (KMEM_VBASE + of_nat i) = 2 ^ 56 + int i"
    using u assms by (simp add: KMEM_VBASE_def uint_word_ariths)
  then show "kmem_addr_is_kernel (KMEM_VBASE + of_nat i)"
    using assms by (simp add: kmem_addr_is_kernel_def KMEM_POOL_SIZE_eq word_le_def word_less_def) (simp add: KMEM_VBASE_def uint_word_ariths)
  show "nat (kmem_offset (KMEM_VBASE + of_nat i)) = i"
    using u assms by (simp add: kmem_offset_def int_of_u64_small)
qed

lemma registered_kmem [simp]: "registered (m\<lparr>kmem_storage := st\<rparr>) = registered m"
  by (simp add: fun_eq_iff registered_def)

lemma same_space_storage:
  "same_space (m\<lparr>kmem_storage := x\<rparr>) (m'\<lparr>kmem_storage := y\<rparr>) p \<Longrightarrow> same_space m (m'\<lparr>kmem_storage := kmem_storage m\<rparr>) p"
  by (simp add: same_space_def the_mm_def caller_mm_def)

text \<open>
  The loop of \<^verbatim>\<open>libkmem_copy_from_user\<close> on resident source pages, into the pool from byte \<open>o\<close> on.
\<close>

lemma from_user_loop_spec:
  assumes "the_mm m p = Some mm" "pt_ok mm" "registered m p" "wf_dev (k_mram m)"
    and "\<forall>k < n. resident m mm (s + of_nat k)" and "j + n \<le> 65536"
  shows "\<exists>m'. from_user_loop n s (KMEM_VBASE + of_nat j) m p = Some (0, m') \<and>
     same_space m (m'\<lparr>kmem_storage := kmem_storage m\<rparr>) p \<and> load_byte (k_mram m') = load_byte (k_mram m) \<and>
     wf_dev (k_mram m') \<and> maxsz (k_mram m') = maxsz (k_mram m) \<and> free_fp_list (k_mram m') = free_fp_list (k_mram m) \<and>
     (\<forall>i. kmem_storage m' i = (if j \<le> i \<and> i < j + n
        then the (load_byte (k_mram m) (phys mm (s + of_nat (i - j)))) else kmem_storage m i))"
  using assms
proof (induction n arbitrary: s j m mm)
  case 0
  then show ?case using same_space_refl [of m p mm] by auto
next
  case (Suc n)
  have r0: "resident m mm s" using Suc.prems(5) by force
  obtain b m1 where g: "pg_getval m p s = Some (0, b, m1)" "load_byte (k_mram m) (phys mm s) = Some b"
    "same_space m m1 p" "load_byte (k_mram m1) = load_byte (k_mram m)" "wf_dev (k_mram m1)"
    "maxsz (k_mram m1) = maxsz (k_mram m)" "free_fp_list (k_mram m1) = free_fp_list (k_mram m)"
    using pg_getval_present [OF Suc.prems(1,2) r0 Suc.prems(3,4)] by metis
  obtain mm1 where mm1: "the_mm m1 p = Some mm1" "pt_ok mm1" "pte_at mm1 = pte_at mm"
    using same_space_mm [OF g(3) Suc.prems(1)] by metis
  have st: "kmem_storage m1 = kmem_storage m" using g(3) by (simp add: same_space_def)
  note ka = kernel_addr [of j]
  let ?m2 = "m1\<lparr>kmem_storage := (kmem_storage m1)(j := b)\<rparr>"
  have w: "kmem_write_byte m1 (KMEM_VBASE + of_nat j) b = (0, ?m2)"
    using ka Suc.prems(6) by (simp add: kmem_write_byte_def)
  have step: "KMEM_VBASE + of_nat j + 1 = KMEM_VBASE + of_nat (Suc j)" by simp
  have res: "\<forall>k < n. resident ?m2 mm1 (s + 1 + of_nat k)"
  proof (intro allI impI)
    fix k assume "k < n"
    then have "resident m mm (s + of_nat (Suc k))" using Suc.prems(5) by blast
    then have "resident m mm (s + 1 + of_nat k)" by (simp add: algebra_simps)
    then show "resident ?m2 mm1 (s + 1 + of_nat k)" using resident_cong [OF mm1(3), of ?m2 m] g(6) by simp
  qed
  have pre: "the_mm ?m2 p = Some mm1" "wf_dev (k_mram ?m2)" "Suc j + n \<le> 65536"
    using mm1(1) g(5) Suc.prems(6) by simp_all
  have reg: "registered ?m2 p" using same_space_registered [OF g(3) Suc.prems(3)] by simp
  obtain m' where ih: "from_user_loop n (s + 1) (KMEM_VBASE + of_nat (Suc j)) ?m2 p = Some (0, m')"
    "same_space ?m2 (m'\<lparr>kmem_storage := kmem_storage ?m2\<rparr>) p" "load_byte (k_mram m') = load_byte (k_mram ?m2)"
    "wf_dev (k_mram m')" "maxsz (k_mram m') = maxsz (k_mram ?m2)" "free_fp_list (k_mram m') = free_fp_list (k_mram ?m2)"
    "\<forall>i. kmem_storage m' i = (if Suc j \<le> i \<and> i < Suc j + n
        then the (load_byte (k_mram ?m2) (phys mm1 (s + 1 + of_nat (i - Suc j)))) else kmem_storage ?m2 i)"
    using Suc.IH [OF pre(1) mm1(2) reg pre(2) res pre(3)] by blast
  have "from_user_loop (Suc n) s (KMEM_VBASE + of_nat j) m p = Some (0, m')"
    using g(1) w ih(1) by (simp add: step del: of_nat_Suc)
  moreover have "kmem_storage m' i = (if j \<le> i \<and> i < j + Suc n
        then the (load_byte (k_mram m) (phys mm (s + of_nat (i - j)))) else kmem_storage m i)" for i
  proof (cases "i = j")
    case True
    then show ?thesis using ih(7) g(2) by simp
  next
    case False
    have "s + 1 + of_nat (i - Suc j) = s + of_nat (i - j)" if "Suc j \<le> i"
      using that by (simp add: of_nat_diff)
    then show ?thesis using False ih(7) [rule_format, of i] st g(4) phys_cong [OF mm1(3)] by auto
  qed
  moreover have "same_space m (m'\<lparr>kmem_storage := kmem_storage m\<rparr>) p"
    using same_space_trans [OF g(3)] same_space_storage [OF ih(2)] st by simp
  ultimately show ?case using ih g by auto
qed

text \<open>
  Property C32: copying from user space, and what it does not check. For a registered process, a user
  region and a kernel region of its symbol table, resident source bytes and a destination range that
  stays in the 64 KB pool, \<^verbatim>\<open>libkmem_copy_from_user\<close> returns 0; byte \<open>k\<close> of the range at
  \<^verbatim>\<open>offset\<close> in the kernel region becomes byte \<open>k\<close> of the user range, and no other kernel byte
  changes. Apart from the pool, nothing changes but the access statistics of the process (\<open>same_space\<close>): its
  areas, regions and page table, the other processes, the scheduler, the break and the slab caches of the pool,
  the swap devices, the bytes and the free list of RAM are as before. The end of the destination region
  plays no part: the bytes beyond it, which belong to other kernel blocks, are overwritten all the same.
\<close>

theorem copy_from_user_copies:
  assumes "the_mm m p = Some mm" "pt_ok mm" "registered m p" "wf_dev (k_mram m)"
    and "copy_rgs mm source destination = Some (src, dst)" "mode_bit src = VMRG_USER_MODE" "mode_bit dst = VMRG_KERNEL_MODE"
    and "rg_start dst = KMEM_VBASE + of_nat j" "j < 65536" "j + unat offset + unat sz \<le> 65536"
    and "\<forall>k < unat sz. resident m mm (rg_start src + ucast offset + of_nat k)"
  shows "\<exists>m'. libkmem_copy_from_user m (Some p) source destination offset sz = Some (0, m') \<and>
     same_space m (m'\<lparr>kmem_storage := kmem_storage m\<rparr>) p \<and> load_byte (k_mram m') = load_byte (k_mram m) \<and>
     maxsz (k_mram m') = maxsz (k_mram m) \<and> free_fp_list (k_mram m') = free_fp_list (k_mram m) \<and>
     (\<forall>i. kmem_storage m' i = (if j + unat offset \<le> i \<and> i < j + unat offset + unat sz
        then the (load_byte (k_mram m) (phys mm (rg_start src + ucast offset + of_nat (i - (j + unat offset)))))
        else kmem_storage m i))"
proof -
  have k: "kmem_addr_is_kernel (rg_start dst)" using kernel_addr(1) assms(8,9) by simp
  have o: "(ucast offset :: addr_t) = of_nat (unat offset)" by simp
  have d: "rg_start dst + ucast offset = KMEM_VBASE + of_nat (j + unat offset)" by (simp add: assms(8))
  have "libkmem_copy_from_user m (Some p) source destination offset sz =
      from_user_loop (unat sz) (rg_start src + ucast offset) (KMEM_VBASE + of_nat (j + unat offset)) m p"
    using assms(1,5-7) k d by (simp add: libkmem_copy_from_user_def the_mm_Some add.assoc)
  then show ?thesis
    using from_user_loop_spec [OF assms(1-4,11), of "j + unat offset"] assms(10) by auto
qed

text \<open>A process with a user region in frame 2 and two adjacent kernel blocks of 16 bytes.\<close>

definition demo_copy_mm :: mm_struct where
  "demo_copy_mm = demo_user_mm\<lparr>symrgtbl := (symrgtbl demo_user_mm)
     [1 := kernel_rg KMEM_VBASE (KMEM_VBASE + 16), 2 := kernel_rg (KMEM_VBASE + 16) (KMEM_VBASE + 32)]\<rparr>"

lemma length_demo_symrgtbl: "length (symrgtbl demo_user_mm) = 30"
proof -
  have "rest demo_user_mm = rest (demo_proc_mm\<lparr>symrgtbl := \<lparr>rg_start = 0, rg_end = 256, mode_bit = 1\<rparr>
     # replicate 29 \<lparr>rg_start = 0, rg_end = 0, mode_bit = 0\<rparr>\<rparr>)"
    using set_fpn.set_keeps demo_proc_mm_ok(1) by (simp add: demo_user_mm_def pt_ok_def dir_pages_def)
  from rest_eqD(2) [OF this] show ?thesis by simp
qed

lemma demo_resident:
  assumes "a < 256"
  shows "resident demo_machine2 demo_copy_mm a"
proof -
  have "unat (a div 256) = 0" using assms by (simp add: unat_div word_less_nat_alt)
  then have "a div 256 = 0" by (simp only: unat_eq_zero)
  moreover have "10 div 256 = (0 :: addr_t)" by simp
  ultimately have "resident demo_machine2 demo_user_mm a"
    using demo_machine2_ok(4) by (simp add: resident_def frame_of_def)
  moreover have "pte_at demo_copy_mm = pte_at demo_user_mm" by (simp add: demo_copy_mm_def pte_at_def fun_eq_iff)
  ultimately show ?thesis by (simp add: resident_def frame_of_def)
qed

theorem copy_from_user_copies_witness:
  "\<exists>m'. libkmem_copy_from_user (set_mm demo_machine2 4 (Some demo_copy_mm)) (Some 4) 0 1 0 24 = Some (0, m') \<and>
     kmem_storage m' 20 = the (load_byte (k_mram demo_machine2) (phys demo_copy_mm 20)) \<and> kmem_brk m' = kmem_brk demo_machine2"
proof -
  let ?m = "set_mm demo_machine2 4 (Some demo_copy_mm)"
  have 1: "the_mm ?m 4 = Some demo_copy_mm" by (simp add: the_mm_set_mm [OF demo_machine2_ok(1)])
  have 2: "pt_ok demo_copy_mm" using demo_user_mm_ok(1) by (simp add: demo_copy_mm_def pt_ok_def dir_pages_def)
  have 3: "registered ?m 4" "wf_dev (k_mram ?m)" by (simp_all add: demo_machine2_ok)
  have 5: "copy_rgs demo_copy_mm 0 1 = Some (\<lparr>rg_start = 0, rg_end = 256, mode_bit = 1\<rparr>, kernel_rg KMEM_VBASE (KMEM_VBASE + 16))"
    using demo_user_mm_ok(3) length_demo_symrgtbl
    by (simp add: copy_rgs_def get_symrg_byid_def PAGING_MAX_SYMTBL_SZ_def int_of_u32_def demo_copy_mm_def kernel_rg_def
        KMEM_VBASE_def)
  have 6: "\<forall>k < unat (24 :: u32). resident ?m demo_copy_mm (rg_start \<lparr>rg_start = 0, rg_end = 256, mode_bit = 1\<rparr> + ucast (0 :: u32) + of_nat k)"
  proof (intro allI impI)
    fix k assume "k < unat (24 :: u32)"
    then have "(of_nat k :: addr_t) < 256" by (simp add: word_less_nat_alt unsigned_of_nat take_bit_nat_eq_self)
    from demo_resident [OF this]
    show "resident ?m demo_copy_mm (rg_start \<lparr>rg_start = 0, rg_end = 256, mode_bit = 1\<rparr> + ucast (0 :: u32) + of_nat k)"
      by (simp add: resident_def)
  qed
  have j: "rg_start (kernel_rg KMEM_VBASE (KMEM_VBASE + 16)) = KMEM_VBASE + of_nat 0" by (simp add: kernel_rg_def)
  obtain m' where c: "libkmem_copy_from_user ?m (Some 4) 0 1 0 24 = Some (0, m')" "same_space ?m (m'\<lparr>kmem_storage := kmem_storage ?m\<rparr>) 4"
    "\<forall>i. kmem_storage m' i = (if 0 + unat (0 :: u32) \<le> i \<and> i < 0 + unat (0 :: u32) + unat (24 :: u32)
        then the (load_byte (k_mram ?m) (phys demo_copy_mm (rg_start \<lparr>rg_start = 0, rg_end = 256, mode_bit = 1\<rparr> + ucast (0 :: u32) + of_nat (i - (0 + unat (0 :: u32))))))
        else kmem_storage ?m i)"
    using copy_from_user_copies [OF 1 2 3 5 _ _ j _ _ 6] by (auto simp: VMRG_USER_MODE_def kernel_rg_def)
  then show ?thesis by (intro exI [of _ m']) (simp add: c(3) [rule_format, of 20] same_space_def)
qed

end
