(* ===== verification/Library.thy ===== *)
theory Library
  imports Kmem
begin

text \<open>
  What the operations of the memory library have in common, as interfaces: a relation between the
  states before and after, closed under the few primitive effects the library is made of, holds
  of every operation. The relation is whatever one wants to show of the library: that it changes
  no other field, keeps the frames apart, loses none, leaves a view alone.
\<close>

section \<open>Updates of a memory descriptor\<close>

text \<open>Changes of a memory descriptor that leave the page table entries and the break alone.\<close>

definition like :: "mm_struct \<Rightarrow> mm_struct \<Rightarrow> bool" where
  "like mm mm' \<longleftrightarrow> pte_at mm' = pte_at mm \<and> (pt_ok mm \<longrightarrow> pt_ok mm') \<and> map sbrk (mmap mm') = map sbrk (mmap mm) \<and>
     length (symrgtbl mm') = length (symrgtbl mm)"

lemma like_refl [simp]: "like mm mm"
  by (simp add: like_def)

lemma like_trans: "like mm mm1 \<Longrightarrow> like mm1 mm2 \<Longrightarrow> like mm mm2"
  by (simp add: like_def)

lemma set_vma_like: "sbrk v = sbrk (mmap mm ! k) \<Longrightarrow> like mm (set_vma mm k v)"
proof -
  assume "sbrk v = sbrk (mmap mm ! k)"
  then have "map sbrk ((mmap mm)[k := v]) = map sbrk ((mmap mm)[k := mmap mm ! k])" by (simp only: map_update)
  then show ?thesis by (simp add: like_def)
qed

lemma symrg_like: "like mm (mm\<lparr>symrgtbl := (symrgtbl mm)[i := rg]\<rparr>)"
  by (simp add: like_def pte_at_def pt_ok_def dir_pages_def fun_eq_iff)

lemma put_symrg_like: "like mm (put_symrg mm i rg)"
  by (simp add: put_symrg_def symrg_like)

lemma get_free_like: "get_free_vmrg_area mm vmaid sz = Some (r, n, mm1) \<Longrightarrow> like mm mm1"
  by (auto simp: get_free_vmrg_area_def bind_Some_iff Let_def set_vma_like neq_Nil_conv split: list.splits prod.splits)

lemma set_symrg_like: "set_symrg mm rgid rg = Some mm' \<Longrightarrow> like mm mm'"
  by (auto simp: set_symrg_def symrg_like split: if_splits)

lemma enlist_like: "like mm (snd (enlist_vm_freerg_list mm vmaid rg))"
  by (auto simp: enlist_vm_freerg_list_def Let_def set_vma_like split: option.splits)

lemma lookup_like: "pt_ok mm \<Longrightarrow> like mm (snd (pte_get_entry mm pgn))"
proof -
  assume "pt_ok mm"
  then have k: "pt_ok (snd (pte_get_entry mm pgn))" "rest (snd (pte_get_entry mm pgn)) = rest mm"
      "pte_at (snd (pte_get_entry mm pgn)) = pte_at mm"
    using pte_get_entry_at [of mm pgn "fst (pte_get_entry mm pgn)" "snd (pte_get_entry mm pgn)"] by simp_all
  show ?thesis using k(1,3) rest_eqD(1,2) [OF k(2)] by (simp add: like_def)
qed

lemma dump_like: "pt_ok mm \<Longrightarrow> like mm (snd (snd (print_pgtbl mm 0 (-1))))"
proof -
  have k: "pt_ok mm \<Longrightarrow> like mm (snd (print_loop pgs mm))" for pgs
  proof (induction pgs arbitrary: mm)
    case (Cons pgn pgs)
    have "like mm (snd (pte_get_entry mm pgn))" using Cons.prems by (rule lookup_like)
    then show ?case using Cons.IH [of "snd (pte_get_entry mm pgn)"] Cons.prems like_trans
      by (auto simp: case_prod_unfold like_def)
  qed simp
  assume "pt_ok mm" then show ?thesis using k by (simp add: print_pgtbl_def Let_def)
qed

lemma the_mm_pcb: "procs m p = Some pcb \<Longrightarrow> pcb_mm pcb = Some mm \<Longrightarrow> the_mm m p = Some mm"
  by (simp add: the_mm_def caller_mm_def)

lemma the_mm_krnl_fields [simp]:
  "the_mm (m\<lparr>kmem_brk := b\<rparr>) = the_mm m" "the_mm (m\<lparr>kmem_pools := c\<rparr>) = the_mm m" "the_mm (m\<lparr>kmem_storage := d\<rparr>) = the_mm m"
  by (simp_all add: fun_eq_iff the_mm_def caller_mm_def)

lemma kmem_carve_shape: "kmem_carve m sz = Some (a, m1) \<Longrightarrow> \<exists>b. m1 = m\<lparr>kmem_brk := b\<rparr>"
  unfolding kmem_carve_def by (metis (no_types, lifting) option.distinct(1) option.inject prod.inject machine.surjective machine.update_convs(8))


section \<open>Operations that neither grow nor write the memory of the process\<close>

text \<open>
  The laws of the first interface: the relation is a preorder closed under writes to the kernel
  pool, under updates of the descriptor of \<open>p\<close> that leave the page table entries alone, and under
  a read through the page table.
\<close>

locale quiet_relation =
  fixes R :: "machine \<Rightarrow> machine \<Rightarrow> bool" and p :: pref
  assumes R_refl [simp]: "R m m"
    and R_trans: "R m m1 \<Longrightarrow> R m1 m2 \<Longrightarrow> R m m2"
    and R_storage: "R m (m\<lparr>kmem_storage := st\<rparr>)"
    and R_brk: "R m (m\<lparr>kmem_brk := b\<rparr>)"
    and R_pools: "length ps = length (kmem_pools m) \<Longrightarrow> R m (m\<lparr>kmem_pools := ps\<rparr>)"
    and R_mm: "the_mm m p = Some mm \<Longrightarrow> (pt_ok mm \<Longrightarrow> like mm mm') \<Longrightarrow> R m (set_mm m p (Some mm'))"
    and R_getval: "pg_getval m p addr = Some (r, byt, m') \<Longrightarrow> R m m'"
begin

text \<open>Chaining: the relation to the result of a call from that to its argument.\<close>

lemma pair_chain:
  assumes "outcome x (\<lambda>(r, m'). R m1 m')"
  shows "x = Some (r, m') \<Longrightarrow> R m m1 \<Longrightarrow> R m m'"
  using assms R_trans by (fastforce dest: outcomeD)

lemma triple_chain:
  assumes "outcome x (\<lambda>(r, a, m'). R m1 m')"
  shows "x = Some (r, a, m') \<Longrightarrow> R m m1 \<Longrightarrow> R m m'"
  using assms R_trans by (fastforce dest: outcomeD)

lemma krnl_chain [simp]:
  "R m m1 \<Longrightarrow> R m (m1\<lparr>kmem_storage := st\<rparr>)" "R m m1 \<Longrightarrow> R m (m1\<lparr>kmem_brk := b\<rparr>)"
  "R m m1 \<Longrightarrow> length ps = length (kmem_pools m1) \<Longrightarrow> R m (m1\<lparr>kmem_pools := ps\<rparr>)"
  using R_trans R_storage R_brk R_pools by blast+

lemma mm_chain: "R m m1 \<Longrightarrow> the_mm m1 p = Some mm \<Longrightarrow> (pt_ok mm \<Longrightarrow> like mm mm') \<Longrightarrow> R m (set_mm m1 p (Some mm'))"
  using R_trans R_mm by blast

lemma getval_chain: "pg_getval m1 p addr = Some (r, byt, m') \<Longrightarrow> R m m1 \<Longrightarrow> R m m'"
  using R_trans R_getval by blast

lemma dump_chain:
  assumes "dump_pgtbl m1 p = Some m'" "R m m1"
  shows "R m m'"
proof -
  from assms(1) consider "m' = m1" | mm where "the_mm m1 p = Some mm" "m' = set_mm m1 p (Some (snd (snd (print_pgtbl mm 0 (-1)))))"
    by (auto simp: dump_pgtbl_def the_mm_Some split: option.splits)
  then show ?thesis
    by cases (use assms(2) dump_like mm_chain in blast)+
qed

lemma mm_free_related: "outcome (mm_free m p vmaid rgid) (\<lambda>(r, m'). R m m')"
proof (rule outcomeI, clarify)
  fix r m' assume f: "mm_free m p vmaid rgid = Some (r, m')"
  have "m' = m \<or> (\<exists>mm i rg rg2. the_mm m p = Some mm \<and> (m' = set_mm m p (Some (mm\<lparr>symrgtbl := (symrgtbl mm)[i := rg]\<rparr>)) \<or>
      m' = set_mm m p (Some (snd (enlist_vm_freerg_list (mm\<lparr>symrgtbl := (symrgtbl mm)[i := rg]\<rparr>) vmaid rg2)))))"
    using f by (fastforce simp: mm_free_def Let_def bind_Some_iff split: option.splits if_splits)
  then show "R m m'"
    using R_mm symrg_like like_trans [OF symrg_like enlist_like] by (metis R_refl)
qed

lemma libfree_related: "outcome (libfree m p r) (\<lambda>(x, m'). R m m')"
  unfolding libfree_def
  by (intro outcome_intros; clarsimp; (erule dump_chain)?; (erule pair_chain [OF mm_free_related])?; simp)

lemma mm_read_related: "outcome (mm_read m p rg off) (\<lambda>(x, d, m'). R m m')"
  unfolding mm_read_def by (intro outcome_intros; (rule outcomeI)?; clarsimp; (erule getval_chain)?; simp)

lemma libread_related: "outcome (libread m p rg off) (\<lambda>(x, d, m'). R m m')"
  unfolding libread_def
  by (intro outcome_intros; clarsimp; (erule dump_chain)?; (erule triple_chain [OF mm_read_related])?; simp)

lemma put_symrg_chain: "the_mm m1 p = Some mm \<Longrightarrow> R m m1 \<Longrightarrow> R m (set_mm m1 p (Some (put_symrg mm i rg)))"
  using mm_chain put_symrg_like by blast

lemma kmem_carve_chain: "kmem_carve m sz = Some (a, m1) \<Longrightarrow> R m m1 \<and> the_mm m1 = the_mm m"
  by (auto dest: kmem_carve_shape intro: R_brk)

lemma libkmem_malloc_related: "outcome (libkmem_malloc m (Some p) sz r) (\<lambda>(x, m'). R m m')"
  unfolding libkmem_malloc_def
  by (intro outcome_intros; clarsimp; (drule kmem_carve_chain)?; simp add: put_symrg_chain the_mm_Some)

lemma libkmem_cache_pool_create_related: "outcome (libkmem_cache_pool_create m c sz a i) (\<lambda>(x, m'). R m m')"
  unfolding libkmem_cache_pool_create_def by (intro outcome_intros; clarsimp; (drule kmem_carve_chain)?; simp)

lemma libkmem_cache_alloc_related: "outcome (libkmem_cache_alloc m (Some p) r i) (\<lambda>(x, m'). R m m')"
  unfolding libkmem_cache_alloc_def by (intro outcome_intros; clarsimp; simp add: put_symrg_chain the_mm_Some)

lemma kmem_write_chain: "kmem_write_byte m1 a v = (r, m') \<Longrightarrow> R m m1 \<Longrightarrow> R m m'"
  by (auto simp: kmem_write_byte_def split: if_splits)

lemma from_user_related: "outcome (from_user_loop n s d m p) (\<lambda>(x, m'). R m m')"
proof (induction n arbitrary: s d m)
  case (Suc n)
  note IH = pair_chain [OF Suc.IH]
  show ?case
    by (simp, intro outcome_intros; (rule outcomeI)?; clarsimp; (erule IH)?; (erule kmem_write_chain [OF sym])?;
        (erule kmem_write_chain)?; (erule getval_chain)?; (erule getval_chain [OF sym])?; simp)
qed (simp add: outcome_def)

lemma libkmem_copy_from_user_related: "outcome (libkmem_copy_from_user m (Some p) s d off sz) (\<lambda>(x, m'). R m m')"
  unfolding libkmem_copy_from_user_def
  by (intro outcome_intros; (rule outcomeI)?; clarsimp; (erule pair_chain [OF from_user_related])?; simp)

end


section \<open>Allocation\<close>

text \<open>An allocation besides makes the memory call that moves the break.\<close>

locale growing_relation = quiet_relation +
  assumes R_grow: "procs m p = Some c \<Longrightarrow> syscall m (pid c) 17 \<lparr>a1 = u64_of_int SYSMEM_INC_OP, a2 = x2, a3 = x3\<rparr> = Some (r, m', scr) \<Longrightarrow> R m m'"
begin

lemma mm_alloc_related: "outcome (mm_alloc m p vmaid rgid sz) (\<lambda>(r, a, m'). R m m')"
proof (rule outcomeI, clarify)
  fix r a m' assume al: "mm_alloc m p vmaid rgid sz = Some (r, a, m')"
  then obtain pcb where pcb: "procs m p = Some pcb" by (auto simp: mm_alloc_def bind_Some_iff)
  show "R m m'"
  proof (cases "get_vma_by_num (pcb_mm pcb) vmaid")
    case None then show ?thesis using al pcb by (simp add: mm_alloc_def)
  next
    case (Some k)
    then obtain mm where mm: "pcb_mm pcb = Some mm" by (auto simp: get_vma_by_num_def split: option.splits)
    obtain r1 rgn mm1 where g: "get_free_vmrg_area mm vmaid (int_of_u64 sz) = Some (r1, rgn, mm1)"
      using al pcb Some mm by (auto simp: mm_alloc_def bind_Some_iff)
    note t = the_mm_pcb [OF pcb mm] and l1 = get_free_like [OF g]
    show ?thesis
    proof (cases "r1 = 0")
      case True
      then obtain mm2 where "set_symrg mm1 rgid \<lparr>rg_start = fst rgn, rg_end = snd rgn, mode_bit = VMRG_USER_MODE\<rparr> = Some mm2"
          "m' = set_mm m p (Some mm2)"
        using al pcb Some mm g by (auto simp: mm_alloc_def bind_Some_iff)
      then show ?thesis using R_mm [OF t] like_trans [OF l1] set_symrg_like by blast
    next
      case False
      let ?m1 = "set_mm m p (Some mm1)"
      obtain r2 m2 scr where sc: "syscall ?m1 (pid pcb) 17
          \<lparr>a1 = u64_of_int SYSMEM_INC_OP, a2 = u64_of_int vmaid, a3 = PAGING_PAGE_ALIGNSZ sz\<rparr> = Some (r2, m2, scr)"
        using al pcb Some mm g False by (auto simp: mm_alloc_def Let_def bind_Some_iff)
      have "R m ?m1" using R_mm [OF t] l1 by blast
      moreover have "procs ?m1 p = Some (pcb\<lparr>pcb_mm := Some mm1\<rparr>)" using pcb by (simp add: set_mm_def)
      then have "R ?m1 m2" by (rule R_grow) (use sc in simp)
      ultimately have i2: "R m m2" by (rule R_trans)
      have "m' = m2 \<or> (\<exists>mm2 mm3 rg. the_mm m2 p = Some mm2 \<and> set_symrg mm2 rgid rg = Some mm3 \<and> m' = set_mm m2 p (Some mm3))"
        using al pcb Some mm g False sc by (auto simp: mm_alloc_def Let_def bind_Some_iff split: if_splits)
      then show ?thesis using i2 mm_chain set_symrg_like by blast
    qed
  qed
qed

lemma liballoc_related: "outcome (liballoc m p sz r) (\<lambda>(x, m'). R m m')"
  unfolding liballoc_def
  by (intro outcome_intros; clarsimp; (erule dump_chain)?; (erule triple_chain [OF mm_alloc_related])?; simp)

end


section \<open>Writing\<close>

locale writing_relation = quiet_relation +
  assumes R_setval: "pg_setval m p addr v = Some (r, m') \<Longrightarrow> R m m'"
begin

lemma setval_chain: "pg_setval m1 p addr v = Some (r, m') \<Longrightarrow> R m m1 \<Longrightarrow> R m m'"
  using R_trans R_setval by blast

lemma mm_write_related: "outcome (mm_write m p rg off d) (\<lambda>(x, m'). R m m')"
  unfolding mm_write_def by (intro outcome_intros; (rule outcomeI)?; clarsimp; (erule setval_chain)?; simp)

lemma libwrite_related: "outcome (libwrite m p d rg off) (\<lambda>(x, m'). R m m')"
  unfolding libwrite_def
  by (intro outcome_intros; clarsimp; (erule dump_chain)?; (erule pair_chain [OF mm_write_related])?; simp)

lemma to_user_related: "outcome (to_user_loop n s d m p) (\<lambda>(x, m'). R m m')"
proof (induction n arbitrary: s d m)
  case (Suc n)
  note IH = pair_chain [OF Suc.IH]
  show ?case
    by (simp, intro outcome_intros; (rule outcomeI)?; clarsimp; (erule IH)?; (erule setval_chain)?; simp)
qed (simp add: outcome_def)

lemma libkmem_copy_to_user_related: "outcome (libkmem_copy_to_user m (Some p) s d off sz) (\<lambda>(x, m'). R m m')"
  unfolding libkmem_copy_to_user_def
  by (intro outcome_intros; (rule outcomeI)?; clarsimp; (erule pair_chain [OF to_user_related])?; simp)

end

locale library_relation = growing_relation + writing_relation
begin

lemmas library_related =
  liballoc_related libfree_related libwrite_related libkmem_malloc_related
  libkmem_cache_pool_create_related libkmem_cache_alloc_related libkmem_copy_from_user_related
  libkmem_copy_to_user_related

end

end
