(* ===== verification/Cpu.thy ===== *)
theory Cpu
  imports Library
begin

text \<open>
  The processor of src/cpu.c: one call of \<^verbatim>\<open>run\<close> executes one instruction of a process. The
  theorems say what an instruction can change: its own program counter and registers, memory
  descriptors, devices and the kernel pool, but no scheduler state and no code; and that a program
  of \<open>n\<close> instructions ends after \<open>n\<close> of them.
\<close>

section \<open>Operations\<close>

definition calc :: "pref \<Rightarrow> int" where
  "calc proc = 0"

text \<open>\<^verbatim>\<open>proc->regs[i] = v\<close> on the array of ten registers.\<close>

definition set_reg :: "machine \<Rightarrow> pref \<Rightarrow> addr_t \<Rightarrow> addr_t \<Rightarrow> machine option" where
  "set_reg m p i v =
     do {
       c \<leftarrow> procs m p;
       if unat i < length (regs c)
       then Some (m\<lparr>procs := (procs m)(p \<mapsto> c\<lparr>regs := (regs c)[unat i := v]\<rparr>)\<rparr>)
       else None
     }"

text \<open>The body of the switch in \<^verbatim>\<open>run\<close>, with \<^verbatim>\<open>MM_PAGING\<close>.\<close>

definition execute :: "machine \<Rightarrow> pref \<Rightarrow> inst_t \<Rightarrow> (int \<times> machine) option" where
  "execute m p ins =
     (case opcode ins of
        CALC \<Rightarrow> Some (calc p, m)
      | ALLOC \<Rightarrow> liballoc m p (arg_0 ins) (ucast (arg_1 ins))
      | KMALLOC \<Rightarrow> libkmem_malloc m (Some p) (ucast (arg_0 ins)) (ucast (arg_1 ins))
      | KMEM_CACHE_CREATE \<Rightarrow>
          libkmem_cache_pool_create m (Some p) (ucast (arg_0 ins)) (ucast (arg_1 ins)) (ucast (arg_2 ins))
      | KMEM_CACHE_ALLOC \<Rightarrow> libkmem_cache_alloc m (Some p) (ucast (arg_0 ins)) (ucast (arg_1 ins))
      | COPY_FROM_USER \<Rightarrow>
          libkmem_copy_from_user m (Some p) (ucast (arg_0 ins)) (ucast (arg_1 ins)) (ucast (arg_2 ins)) (ucast (arg_3 ins))
      | COPY_TO_USER \<Rightarrow>
          libkmem_copy_to_user m (Some p) (ucast (arg_0 ins)) (ucast (arg_1 ins)) (ucast (arg_2 ins)) (ucast (arg_3 ins))
      | FREE \<Rightarrow> libfree m p (ucast (arg_0 ins))
      | READ \<Rightarrow> do {
          (stat, data, m1) \<leftarrow> libread m p (ucast (arg_0 ins)) (arg_1 ins);
          if stat = 0 then do { m2 \<leftarrow> set_reg m1 p (arg_2 ins) (ucast data); Some (stat, m2) }
          else Some (stat, m1)
        }
      | WRITE \<Rightarrow> libwrite m p (byte_of_u64 (arg_0 ins)) (ucast (arg_1 ins)) (arg_2 ins)
      | SYSCALL \<Rightarrow> libsyscall m p (ucast (arg_0 ins)) (arg_1 ins) (arg_2 ins) (arg_3 ins))"

definition run :: "machine \<Rightarrow> pref \<Rightarrow> (int \<times> machine) option" where
  "run m p =
     do {
       proc \<leftarrow> procs m p;
       if pc proc \<ge> seg_size (code proc) then Some (1, m)
       else if length (seg_text (code proc)) \<le> unat (pc proc) then None
       else execute (m\<lparr>procs := (procs m)(p \<mapsto> proc\<lparr>pc := pc proc + 1\<rparr>)\<rparr>) p
              (seg_text (code proc) ! unat (pc proc))
     }"

section \<open>Relations kept by every instruction\<close>

text \<open>
  A relation that the library keeps and that the registers do not matter to is kept by every
  instruction but a system call.
\<close>

locale instruction_relation = library_relation +
  assumes R_reg: "set_reg m p i v = Some m' \<Longrightarrow> R m m'"
begin

lemma read_related:
  assumes "opcode ins = READ"
  shows "outcome (execute m p ins) (\<lambda>(r, m'). R m m')"
proof (rule outcomeI, clarify)
  fix r m' assume "execute m p ins = Some (r, m')"
  then obtain stat d m1 where l: "libread m p (ucast (arg_0 ins)) (arg_1 ins) = Some (stat, d, m1)"
      "m' = m1 \<or> set_reg m1 p (arg_2 ins) (ucast d) = Some m'"
    using assms by (auto simp: execute_def bind_Some_iff split: if_splits)
  have "R m m1" using outcomeD [OF libread_related l(1)] by simp
  then show "R m m'" using l(2) R_trans R_reg by blast
qed

lemma execute_related:
  assumes "opcode ins \<noteq> SYSCALL"
  shows "outcome (execute m p ins) (\<lambda>(r, m'). R m m')"
proof (cases "opcode ins")
  case READ then show ?thesis by (rule read_related)
qed (use assms in \<open>simp_all add: execute_def library_related outcome_def [of "Some (calc p, m)"]\<close>)

end

section \<open>What the library leaves alone\<close>

text \<open>
  \<open>mm_only m m'\<close>: from \<open>m\<close> to \<open>m'\<close> no PCB appeared or disappeared, no field of a PCB but its
  memory descriptor changed, the scheduler did not, and the arrays of swap devices and of slab caches
  kept their lengths.
\<close>

definition mm_only :: "machine \<Rightarrow> machine \<Rightarrow> bool" where
  "mm_only m m' \<longleftrightarrow> k_sched m' = k_sched m \<and>
     length (k_mswp m') = length (k_mswp m) \<and> length (kmem_pools m') = length (kmem_pools m) \<and>
     (\<forall>q. map_option (\<lambda>c. c\<lparr>pcb_mm := None\<rparr>) (procs m' q) = map_option (\<lambda>c. c\<lparr>pcb_mm := None\<rparr>) (procs m q))"

lemma mm_only_refl [simp]: "mm_only m m"
  by (simp add: mm_only_def)

lemma mm_only_trans [trans]: "mm_only m m1 \<Longrightarrow> mm_only m1 m2 \<Longrightarrow> mm_only m m2"
  by (simp add: mm_only_def)

lemma mm_only_set_mm [simp]: "mm_only m (set_mm m1 p x) \<longleftrightarrow> mm_only m m1"
  by (auto simp: mm_only_def set_mm_def option.map_comp comp_def split: if_splits)

lemma mm_only_update [simp]:
  "mm_only m (m1\<lparr>k_mram := a\<rparr>) \<longleftrightarrow> mm_only m m1" "mm_only m (m1\<lparr>kmem_storage := b\<rparr>) \<longleftrightarrow> mm_only m m1"
  "mm_only m (m1\<lparr>kmem_brk := c\<rparr>) \<longleftrightarrow> mm_only m m1"
  "length d = length (kmem_pools m1) \<Longrightarrow> mm_only m (m1\<lparr>kmem_pools := d\<rparr>) \<longleftrightarrow> mm_only m m1"
  "mm_only m (set_mswp m1 e) \<longleftrightarrow> mm_only m m1"
  by (auto simp: mm_only_def set_mswp_def split: option.splits)

lemma set_mm_mm_only: "mm_only m (set_mm m p x)"
  by simp

lemma mm_only_sym: "mm_only m m' \<Longrightarrow> mm_only m' m"
  by (simp add: mm_only_def)

lemma mm_only_left [simp]:
  "mm_only (set_mm m p x) m' \<longleftrightarrow> mm_only m m'" "mm_only (m\<lparr>k_mram := a\<rparr>) m' \<longleftrightarrow> mm_only m m'"
  "mm_only (m\<lparr>kmem_storage := b\<rparr>) m' \<longleftrightarrow> mm_only m m'" "mm_only (m\<lparr>kmem_brk := c\<rparr>) m' \<longleftrightarrow> mm_only m m'"
  "length d = length (kmem_pools m) \<Longrightarrow> mm_only (m\<lparr>kmem_pools := d\<rparr>) m' \<longleftrightarrow> mm_only m m'" "mm_only (set_mswp m e) m' \<longleftrightarrow> mm_only m m'"
  by (metis mm_only_sym mm_only_set_mm, metis mm_only_sym mm_only_update(1), metis mm_only_sym mm_only_update(2),
      metis mm_only_sym mm_only_update(3), metis mm_only_sym mm_only_update(4), metis mm_only_sym mm_only_update(5))

text \<open>
  One rule per operation, in a form that chains backwards: a frame fact about the result of a
  call is reduced to one about its argument.
\<close>

lemma mm_onlyI: "outcome x (\<lambda>y. mm_only m1 (f y)) \<Longrightarrow> x = Some y \<Longrightarrow> mm_only m m1 \<Longrightarrow> mm_only m (f y)"
  by (auto dest: outcomeD intro: mm_only_trans)

lemma mm_only_pair:
  assumes "outcome x (\<lambda>(r, m'). mm_only m1 m')"
  shows "x = Some (r, m') \<Longrightarrow> mm_only m m1 \<Longrightarrow> mm_only m m'"
  using mm_onlyI [of x m1 snd "(r, m')" m] assms by (simp add: case_prod_unfold)

lemma mm_only_triple:
  assumes "outcome x (\<lambda>(r, a, m'). mm_only m1 m')"
  shows "x = Some (r, a, m') \<Longrightarrow> mm_only m m1 \<Longrightarrow> mm_only m m'"
  using mm_onlyI [of x m1 "snd \<circ> snd" "(r, a, m')" m] assms by (simp add: case_prod_unfold)

lemma sys_memmap_outcome: "outcome (sys_memmap m n scr) (\<lambda>(r, m', scr'). mm_only m m')"
  unfolding sys_memmap_def by (intro outcome_intros) simp_all

lemma syscall_outcome: "outcome (syscall m n nr scr) (\<lambda>(r, m', scr'). mm_only m m')"
  unfolding syscall_def by (intro outcome_intros sys_memmap_outcome) simp_all

lemma syscall_mm: "syscall m1 n nr scr = Some (r, m', scr') \<Longrightarrow> mm_only m m1 \<Longrightarrow> mm_only m m'"
  using outcomeD [OF syscall_outcome] by (fastforce intro: mm_only_trans)

lemma on_mm_mm: "on_mm f m1 p = Some (x, m') \<Longrightarrow> mm_only m m1 \<Longrightarrow> mm_only m m'"
  by (auto simp: on_mm_def)

lemma dump_pgtbl_mm: "dump_pgtbl m1 p = Some m' \<Longrightarrow> mm_only m m1 \<Longrightarrow> mm_only m m'"
  by (auto simp: dump_pgtbl_def split: option.splits)

lemma libsyscall_outcome: "outcome (libsyscall m p n x1 x2 x3) (\<lambda>(r, m'). mm_only m m')"
  unfolding libsyscall_def by (intro outcome_intros; clarsimp; (erule syscall_mm)?; simp)

lemma swap_in_outcome: "outcome (swap_in m p pgn pte) (\<lambda>(r, f, m'). mm_only m m')"
  unfolding swap_in_def by (intro outcome_intros; clarsimp; ((erule syscall_mm on_mm_mm | simp only: mm_only_set_mm mm_only_update mm_only_refl)+)?)

lemmas swap_in_mm = mm_only_triple [OF swap_in_outcome]

lemma pg_getpage_outcome: "outcome (pg_getpage m p pgn) (\<lambda>(r, f, m'). mm_only m m')"
  unfolding pg_getpage_def by (intro outcome_intros; (rule outcomeI)?; clarsimp; (erule swap_in_mm)?; (erule on_mm_mm)?; simp)

lemmas pg_getpage_mm = mm_only_triple [OF pg_getpage_outcome]

lemma pg_getval_outcome: "outcome (pg_getval m p addr) (\<lambda>(r, f, m'). mm_only m m')"
  unfolding pg_getval_def by (intro outcome_intros; clarsimp; (erule syscall_mm)?; (erule pg_getpage_mm)?; simp)

lemmas pg_getval_mm = mm_only_triple [OF pg_getval_outcome]

lemma pg_setval_outcome: "outcome (pg_setval m p addr v) (\<lambda>(r, m'). mm_only m m')"
  unfolding pg_setval_def by (intro outcome_intros; clarsimp; (erule syscall_mm)?; (erule pg_getpage_mm)?; simp)

lemmas pg_setval_mm = mm_only_pair [OF pg_setval_outcome]

section \<open>One instruction\<close>

text \<open>What an instruction keeps of its own PCB: all but the values of the registers and the memory descriptor.\<close>

definition pcb_frame :: "pcb_t \<Rightarrow> pcb_t" where
  "pcb_frame c = c\<lparr>pcb_mm := None, regs := replicate (length (regs c)) 0\<rparr>"

definition steps_ok :: "machine \<Rightarrow> pref \<Rightarrow> machine \<Rightarrow> bool" where
  "steps_ok m p m' \<longleftrightarrow> k_sched m' = k_sched m \<and>
     length (k_mswp m') = length (k_mswp m) \<and> length (kmem_pools m') = length (kmem_pools m) \<and>
     (\<forall>q. q \<noteq> p \<longrightarrow> map_option (\<lambda>c. c\<lparr>pcb_mm := None\<rparr>) (procs m' q) = map_option (\<lambda>c. c\<lparr>pcb_mm := None\<rparr>) (procs m q)) \<and>
     map_option pcb_frame (procs m' p) = map_option pcb_frame (procs m p)"

lemma mm_only_steps_ok: "mm_only m m' \<Longrightarrow> steps_ok m p m'"
proof -
  assume m: "mm_only m m'"
  have "map_option pcb_frame (procs m' p) = map_option pcb_frame (procs m p)"
  proof -
    have *: "map_option pcb_frame x = map_option (\<lambda>c. c\<lparr>regs := replicate (length (regs c)) 0\<rparr>) (map_option (\<lambda>c. c\<lparr>pcb_mm := None\<rparr>) x)" for x
      by (simp add: option.map_comp comp_def pcb_frame_def [abs_def] insert_commute)
    show ?thesis unfolding * using m by (simp add: mm_only_def)
  qed
  then show ?thesis using m by (simp add: steps_ok_def mm_only_def)
qed

lemma steps_ok_trans: "steps_ok m p m1 \<Longrightarrow> steps_ok m1 p m2 \<Longrightarrow> steps_ok m p m2"
  by (simp add: steps_ok_def)

lemma set_reg_steps_ok:
  assumes "set_reg m p i v = Some m'"
  shows "steps_ok m p m'"
proof -
  from assms obtain c where c: "procs m p = Some c" "m' = m\<lparr>procs := (procs m)(p \<mapsto> c\<lparr>regs := (regs c)[unat i := v]\<rparr>)\<rparr>"
    by (auto simp: set_reg_def bind_Some_iff split: if_splits)
  have "pcb_frame (c\<lparr>regs := (regs c)[unat i := v]\<rparr>) = pcb_frame c" by (simp add: pcb_frame_def)
  then show ?thesis using c by (simp add: steps_ok_def)
qed

interpretation frame: instruction_relation "\<lambda>m. steps_ok m p" p for p
proof unfold_locales
  show "steps_ok m p m1 \<Longrightarrow> steps_ok m1 p m2 \<Longrightarrow> steps_ok m p m2" for m m1 m2 by (rule steps_ok_trans)
  show "set_reg m p i v = Some m' \<Longrightarrow> steps_ok m p m'" for m i v m' by (rule set_reg_steps_ok)
qed (auto intro!: mm_only_steps_ok elim: pg_getval_mm pg_setval_mm syscall_mm)

lemma execute_outcome: "outcome (execute m p ins) (\<lambda>(r, m'). steps_ok m p m')"
proof (cases "opcode ins = SYSCALL")
  case True
  then show ?thesis using outcomeD [OF libsyscall_outcome] by (fastforce simp: execute_def outcome_def intro: mm_only_steps_ok)
next
  case False then show ?thesis by (rule frame.execute_related)
qed

lemma run_outcome:
  assumes "procs m p = Some c"
  shows "outcome (run m p) (\<lambda>(r, m'). if pc c \<ge> seg_size (code c) then r = 1 \<and> m' = m
     else steps_ok (m\<lparr>procs := (procs m)(p \<mapsto> c\<lparr>pc := pc c + 1\<rparr>)\<rparr>) p m')"
proof (rule outcomeI)
  fix y assume y: "run m p = Some y"
  show "case y of (r, m') \<Rightarrow> if pc c \<ge> seg_size (code c) then r = 1 \<and> m' = m
     else steps_ok (m\<lparr>procs := (procs m)(p \<mapsto> c\<lparr>pc := pc c + 1\<rparr>)\<rparr>) p m'"
  proof (cases "pc c \<ge> seg_size (code c)")
    case True then show ?thesis using y assms by (auto simp: run_def)
  next
    case False
    then have "execute (m\<lparr>procs := (procs m)(p \<mapsto> c\<lparr>pc := pc c + 1\<rparr>)\<rparr>) p (seg_text (code c) ! unat (pc c)) = Some y"
      using y assms by (auto simp: run_def split: if_splits)
    then show ?thesis using False outcomeD [OF execute_outcome] by fastforce
  qed
qed

lemma run_pcb:
  assumes "procs m p = Some c" "run m p = Some (r, m')"
  shows "\<exists>c'. procs m' p = Some c' \<and> code c' = code c \<and> pid c' = pid c \<and> prio c' = prio c \<and>
    pc c' = (if pc c \<ge> seg_size (code c) then pc c else pc c + 1) \<and> k_sched m' = k_sched m"
proof (cases "pc c \<ge> seg_size (code c)")
  case True then show ?thesis using outcomeD [OF run_outcome [OF assms(1)] assms(2)] assms(1) by simp
next
  case False
  then have s: "steps_ok (m\<lparr>procs := (procs m)(p \<mapsto> c\<lparr>pc := pc c + 1\<rparr>)\<rparr>) p m'"
    using outcomeD [OF run_outcome [OF assms(1)] assms(2)] by simp
  then have "map_option pcb_frame (procs m' p) = Some (pcb_frame (c\<lparr>pc := pc c + 1\<rparr>))" by (simp add: steps_ok_def)
  then obtain c' where c': "procs m' p = Some c'" "pcb_frame c' = pcb_frame (c\<lparr>pc := pc c + 1\<rparr>)" by auto
  have "code c' = code (pcb_frame c')" "pid c' = pid (pcb_frame c')" "prio c' = prio (pcb_frame c')" "pc c' = pc (pcb_frame c')"
    by (simp_all add: pcb_frame_def)
  then have "code c' = code c" "pid c' = pid c" "prio c' = prio c" "pc c' = pc c + 1"
    unfolding c'(2) by (simp_all add: pcb_frame_def)
  then show ?thesis using s c'(1) False by (simp add: steps_ok_def)
qed

text \<open>
  What an instruction can change. A defined \<^verbatim>\<open>run\<close> of a process leaves the
  scheduler alone and creates and removes no PCB. Of every other PCB only the memory descriptor can
  change. Its own PCB keeps its code, PID and priority; the program counter advances by one, unless
  it is past the end: then the result is 1 and nothing changes.
\<close>

lemma run_frame:
  assumes "procs m p = Some c" "run m p = Some (r, m')"
  shows "k_sched m' = k_sched m \<and>
    (\<forall>q. q = p \<or> map_option (\<lambda>d. d\<lparr>pcb_mm := None\<rparr>) (procs m' q) = map_option (\<lambda>d. d\<lparr>pcb_mm := None\<rparr>) (procs m q)) \<and>
    (\<exists>c'. procs m' p = Some c' \<and> code c' = code c \<and> pid c' = pid c \<and> prio c' = prio c \<and>
       pc c' = (if pc c \<ge> seg_size (code c) then pc c else pc c + 1)) \<and>
    (pc c < seg_size (code c) \<or> r = 1 \<and> m' = m)"
proof -
  have o: "if pc c \<ge> seg_size (code c) then r = 1 \<and> m' = m
     else steps_ok (m\<lparr>procs := (procs m)(p \<mapsto> c\<lparr>pc := pc c + 1\<rparr>)\<rparr>) p m'"
    using outcomeD [OF run_outcome [OF assms(1)] assms(2)] by simp
  have "q = p \<or> map_option (\<lambda>d. d\<lparr>pcb_mm := None\<rparr>) (procs m' q) = map_option (\<lambda>d. d\<lparr>pcb_mm := None\<rparr>) (procs m q)" for q
    using o by (cases "q = p") (auto simp: steps_ok_def split: if_splits)
  then show ?thesis using run_pcb [OF assms] o by (auto simp: not_le)
qed

text \<open>Repeated execution, as the CPU loop does it slot by slot.\<close>

fun runs :: "nat \<Rightarrow> machine \<Rightarrow> pref \<Rightarrow> machine option" where
  "runs 0 m p = Some m"
| "runs (Suc n) m p = do { (_, m1) \<leftarrow> run m p; runs n m1 p }"

lemma unat_inc: "unat x < unat y \<Longrightarrow> unat (x + 1) = unat x + 1" for x y :: u32
proof -
  assume "unat x < unat y"
  moreover have "unat y < 2 ^ 32" by (rule order_less_le_trans [OF unsigned_less]) simp
  ultimately show ?thesis by (simp add: unat_word_ariths)
qed

lemma run_unat_pc:
  assumes "procs m p = Some c" "run m p = Some (r, m1)" "unat (pc c) \<le> unat (seg_size (code c))"
  shows "\<exists>c1. procs m1 p = Some c1 \<and> code c1 = code c \<and>
    unat (pc c1) = min (unat (pc c) + 1) (unat (seg_size (code c)))"
proof -
  obtain c1 where c1: "procs m1 p = Some c1" "code c1 = code c" "pc c1 = (if pc c \<ge> seg_size (code c) then pc c else pc c + 1)"
    using run_pcb [OF assms(1,2)] by auto
  then show ?thesis using assms(3) unat_inc [of "pc c" "seg_size (code c)"] by (auto simp: word_le_nat_alt)
qed

lemma runs_pc:
  assumes "procs m p = Some c" "runs n m p = Some m'" "unat (pc c) \<le> unat (seg_size (code c))"
  shows "\<exists>c'. procs m' p = Some c' \<and> code c' = code c \<and>
    unat (pc c') = min (unat (pc c) + n) (unat (seg_size (code c)))"
  using assms
proof (induction n arbitrary: m c)
  case 0 then show ?case by simp
next
  case (Suc n)
  then obtain r m1 where m1: "run m p = Some (r, m1)" "runs n m1 p = Some m'" by (auto simp: bind_Some_iff)
  obtain c1 where c1: "procs m1 p = Some c1" "code c1 = code c"
      "unat (pc c1) = min (unat (pc c) + 1) (unat (seg_size (code c)))"
    using run_unat_pc [OF Suc.prems(1) m1(1) Suc.prems(3)] by auto
  then obtain c' where "procs m' p = Some c'" "code c' = code c1"
      "unat (pc c') = min (unat (pc c1) + n) (unat (seg_size (code c1)))"
    using Suc.IH [OF c1(1) m1(2)] by auto
  then show ?case using c1 by auto
qed

text \<open>
  Property C40: a program of \<open>k\<close> instructions ends after \<open>k\<close> calls of \<^verbatim>\<open>run\<close>. Instructions have no
  jumps: after \<open>n\<close> defined calls from the start the program counter is the smaller of \<open>n\<close> and \<open>k\<close>,
  and from \<open>k\<close> on every further call returns 1 and changes nothing. So the test
  \<^verbatim>\<open>proc->pc == proc->code->size\<close> of the CPU loop becomes true, and not before.
\<close>

theorem program_ends:
  assumes "procs m p = Some c" "pc c = 0" "runs n m p = Some m'"
  shows "\<exists>c'. procs m' p = Some c' \<and> code c' = code c \<and> unat (pc c') = min n (unat (seg_size (code c))) \<and>
    (n < unat (seg_size (code c)) \<or> pc c' = seg_size (code c') \<and> run m' p = Some (1, m'))"
proof -
  obtain c' where c': "procs m' p = Some c'" "code c' = code c" "unat (pc c') = min n (unat (seg_size (code c)))"
    using runs_pc [OF assms(1,3)] assms(2) by auto
  have "n < unat (seg_size (code c)) \<or> pc c' = seg_size (code c') \<and> run m' p = Some (1, m')"
    using c' by (cases "n < unat (seg_size (code c))") (auto simp: run_def word_unat_eq_iff word_le_nat_alt)
  then show ?thesis using c' by blast
qed

definition demo_calc_pcb :: pcb_t where
  "demo_calc_pcb = demo_user_pcb\<lparr>code := \<lparr>seg_text = replicate 2
     \<lparr>opcode = CALC, arg_0 = 0, arg_1 = 0, arg_2 = 0, arg_3 = 0\<rparr>, seg_size = 2\<rparr>, pc := 0\<rparr>"

definition demo_calc_machine :: machine where
  "demo_calc_machine = demo_machine\<lparr>procs := [4 \<mapsto> demo_calc_pcb]\<rparr>"

lemma demo_calc_procs: "procs demo_calc_machine 4 = Some demo_calc_pcb"
  by (simp add: demo_calc_machine_def)

lemma demo_calc_run:
  "run (demo_calc_machine\<lparr>procs := [4 \<mapsto> demo_calc_pcb\<lparr>pc := k\<rparr>]\<rparr>) 4 =
     (if k < 2 then Some (0, demo_calc_machine\<lparr>procs := [4 \<mapsto> demo_calc_pcb\<lparr>pc := k + 1\<rparr>]\<rparr>)
      else Some (1, demo_calc_machine\<lparr>procs := [4 \<mapsto> demo_calc_pcb\<lparr>pc := k\<rparr>]\<rparr>))"
  by (auto simp: run_def demo_calc_pcb_def execute_def calc_def word_less_nat_alt word_le_nat_alt)

lemma demo_calc_start: "demo_calc_machine = demo_calc_machine\<lparr>procs := [4 \<mapsto> demo_calc_pcb\<lparr>pc := 0\<rparr>]\<rparr>"
  by (simp add: demo_calc_machine_def demo_calc_pcb_def)

theorem program_ends_witness:
  "\<exists>m' c'. runs 2 demo_calc_machine 4 = Some m' \<and> procs m' 4 = Some c' \<and> unat (pc c') = 2 \<and> run m' 4 = Some (1, m')"
proof -
  have r: "runs 2 demo_calc_machine 4 = Some (demo_calc_machine\<lparr>procs := [4 \<mapsto> demo_calc_pcb\<lparr>pc := 0 + 1 + 1\<rparr>]\<rparr>)"
    unfolding numeral_2_eq_2 runs.simps by (subst demo_calc_start) (simp add: demo_calc_run)
  show ?thesis using program_ends [OF demo_calc_procs _ r] r by (auto simp: demo_calc_pcb_def)
qed

end
