(* ===== verification/Scanf.thy ===== *)
theory Scanf
  imports Prelude
begin

text \<open>
  The part of the C input library the program uses to read its text files: the conversions \<^verbatim>\<open>%u\<close>,
  \<^verbatim>\<open>%d\<close>, \<^verbatim>\<open>%llu\<close>, \<^verbatim>\<open>%lu\<close> and \<^verbatim>\<open>%s\<close> of \<^verbatim>\<open>fscanf\<close> and \<^verbatim>\<open>sscanf\<close>, white space in a format, and
  \<^verbatim>\<open>fgets\<close>. An open file is the text not yet read.
\<close>

section \<open>Ends of a program\<close>

text \<open>
  The result of code that may call \<^verbatim>\<open>exit\<close>: undefined behaviour, the exit status, or a value.
\<close>

type_synonym 'a c_result = "(nat + 'a) option"

definition done_with :: "'a \<Rightarrow> 'a c_result" where
  "done_with x = Some (Inr x)"

definition exit_with :: "nat \<Rightarrow> 'a c_result" where
  "exit_with n = Some (Inl n)"

definition and_then :: "'a c_result \<Rightarrow> ('a \<Rightarrow> 'b c_result) \<Rightarrow> 'b c_result" where
  "and_then x f = (case x of None \<Rightarrow> None | Some (Inl n) \<Rightarrow> Some (Inl n) | Some (Inr y) \<Rightarrow> f y)"

lemma and_then_simps [simp]:
  "and_then (done_with x) f = f x" "and_then (exit_with n) f = exit_with n" "and_then None f = None"
  by (simp_all add: and_then_def done_with_def exit_with_def)

section \<open>Scanning\<close>

definition is_space :: "char \<Rightarrow> bool" where
  "is_space c \<longleftrightarrow> c \<in> {CHR '' '', CHR 0x09, CHR 0x0A, CHR 0x0B, CHR 0x0C, CHR 0x0D}"

definition is_digit :: "char \<Rightarrow> bool" where
  "is_digit c \<longleftrightarrow> 48 \<le> (of_char c :: nat) \<and> (of_char c :: nat) \<le> 57"

definition digit_val :: "char \<Rightarrow> nat" where
  "digit_val c = of_char c - 48"

definition skip_ws :: "string \<Rightarrow> string" where
  "skip_ws s = dropWhile is_space s"

definition digits_val :: "string \<Rightarrow> nat" where
  "digits_val ds = foldl (\<lambda>n c. 10 * n + digit_val c) 0 ds"

text \<open>
  An integer conversion: leading white space, an optional sign, digits. \<open>None\<close> is a matching
  failure (or end of input); the text left then starts behind the sign, if there was one.
\<close>

definition scan_int :: "string \<Rightarrow> int option \<times> string" where
  "scan_int s0 =
     (let s = skip_ws s0;
          neg = (s \<noteq> [] \<and> hd s = CHR ''-'');
          t = (if s \<noteq> [] \<and> (hd s = CHR ''-'' \<or> hd s = CHR ''+'') then tl s else s);
          ds = takeWhile is_digit t
      in if ds = [] then (None, t)
         else (Some (if neg then - int (digits_val ds) else int (digits_val ds)), dropWhile is_digit t))"

text \<open>
  A run of \<open>n\<close> integer conversions, as in the format \<^verbatim>\<open>"%llu %llu"\<close>: scanning stops at the first
  failure, and the conversions behind it assign nothing.
\<close>

fun scan_ints :: "nat \<Rightarrow> string \<Rightarrow> int list \<times> string" where
  "scan_ints 0 s = ([], s)"
| "scan_ints (Suc n) s =
     (case scan_int s of
        (None, r) \<Rightarrow> ([], r)
      | (Some v, r) \<Rightarrow> (case scan_ints n r of (vs, r') \<Rightarrow> (v # vs, r')))"

text \<open>The same with a closing \<^verbatim>\<open>"\n"\<close>, which skips white space if everything before it matched.\<close>

definition scan_ints_nl :: "nat \<Rightarrow> string \<Rightarrow> int list \<times> string" where
  "scan_ints_nl n s = (case scan_ints n s of (vs, r) \<Rightarrow> (vs, if length vs = n then skip_ws r else r))"

text \<open>A value stored by an unsigned conversion; one that does not fit is undefined behaviour.\<close>

definition store_unsigned :: "nat \<Rightarrow> int \<Rightarrow> int option" where
  "store_unsigned w v = (if - (2 ^ w) < v \<and> v < 2 ^ w then Some (v mod 2 ^ w) else None)"

text \<open>\<^verbatim>\<open>%s\<close>: white space is skipped; an empty word is an input failure.\<close>

definition scan_word :: "string \<Rightarrow> string option \<times> string" where
  "scan_word s0 =
     (let s = skip_ws s0; w = takeWhile (\<lambda>c. \<not> is_space c) s
      in (if w = [] then None else Some w, dropWhile (\<lambda>c. \<not> is_space c) s))"

text \<open>\<^verbatim>\<open>fgets(buf, n, file)\<close>: at most \<open>n - 1\<close> characters, up to and with a newline; \<open>None\<close> at the end.\<close>

definition newline :: char where
  "newline = CHR 0x0A"

definition fgets :: "nat \<Rightarrow> string \<Rightarrow> string option \<times> string" where
  "fgets n s =
     (if s = [] then (None, [])
      else let k = min (n - 1) (length (takeWhile (\<lambda>c. c \<noteq> newline) s) + 1)
           in (Some (take k s), drop k s))"

text \<open>The C string in a buffer.\<close>

definition c_str :: "string \<Rightarrow> string" where
  "c_str s = takeWhile (\<lambda>c. c \<noteq> CHR 0x00) s"

section \<open>Printing numbers\<close>

definition digit_char :: "nat \<Rightarrow> char" where
  "digit_char d = char_of (48 + d)"

fun show_nat :: "nat \<Rightarrow> string" where
  "show_nat n = (if n < 10 then [digit_char n] else show_nat (n div 10) @ [digit_char (n mod 10)])"

declare show_nat.simps [simp del]

lemma digit_char: "d < 10 \<Longrightarrow> is_digit (digit_char d)" "d < 10 \<Longrightarrow> digit_val (digit_char d) = d"
  by (simp_all add: is_digit_def digit_val_def digit_char_def)

lemma digits_val_snoc: "digits_val (ds @ [c]) = 10 * digits_val ds + digit_val c"
  by (simp add: digits_val_def)

lemma show_nat_digits: "list_all is_digit (show_nat n) \<and> show_nat n \<noteq> [] \<and> digits_val (show_nat n) = n"
proof (induction n rule: show_nat.induct)
  case (1 n)
  have small: "digits_val [digit_char n] = n" if "n < 10"
    using that digits_val_snoc [of "[]" "digit_char n"] by (simp add: digit_char digits_val_def)
  show ?case
    by (subst (1 2 3) show_nat.simps) (use 1 small in \<open>auto simp: digit_char digits_val_snoc\<close>)
qed

lemma digit_not_space: "is_digit c \<Longrightarrow> \<not> is_space c"
  by (auto simp: is_digit_def is_space_def)

lemma digit_not_sign: "is_digit c \<Longrightarrow> c \<noteq> CHR ''-'' \<and> c \<noteq> CHR ''+''"
  by (auto simp: is_digit_def)

lemma skip_ws_id: "s = [] \<or> \<not> is_space (hd s) \<Longrightarrow> skip_ws s = s"
  by (cases s) (auto simp: skip_ws_def)

lemma skip_ws_append: "list_all is_space ws \<Longrightarrow> skip_ws (ws @ s) = skip_ws s"
  by (induction ws) (auto simp: skip_ws_def)

text \<open>Reading back a printed number that is followed by a character that is no digit.\<close>

lemma scan_int_show:
  assumes ws: "list_all is_space ws" and r: "r = [] \<or> \<not> is_digit (hd r)"
  shows "scan_int (ws @ show_nat n @ r) = (Some (int n), r)"
proof -
  obtain c ds where c: "show_nat n = c # ds" using show_nat_digits [of n] by (cases "show_nat n") auto
  then have d: "is_digit c" "list_all is_digit ds" "digits_val (c # ds) = n" using show_nat_digits [of n] by auto
  have s: "skip_ws (ws @ show_nat n @ r) = c # ds @ r"
    using ws d(1) by (simp add: skip_ws_append c skip_ws_id digit_not_space)
  have t: "takeWhile is_digit (ds @ r) = ds" "dropWhile is_digit (ds @ r) = r"
    using d(2) r by (cases r; auto simp: list_all_iff takeWhile_append2 dropWhile_append2)+
  show ?thesis using d digit_not_sign [OF d(1)] by (simp add: scan_int_def Let_def s t)
qed

text \<open>Numbers, each behind a blank.\<close>

definition show_args :: "nat list \<Rightarrow> string" where
  "show_args ns = concat (map (\<lambda>n. '' '' @ show_nat n) ns)"

lemma hd_show_args: "r = [] \<or> \<not> is_digit (hd r) \<Longrightarrow> show_args ns @ r = [] \<or> \<not> is_digit (hd (show_args ns @ r))"
  by (cases ns) (auto simp: show_args_def is_digit_def)

lemma scan_ints_show:
  assumes "r = [] \<or> \<not> is_digit (hd r)"
  shows "scan_ints (length ns) (show_args ns @ r) = (map int ns, r)"
proof (induction ns)
  case Nil show ?case by (simp add: show_args_def)
next
  case (Cons n ns)
  have "scan_int (show_args (n # ns) @ r) = (Some (int n), show_args ns @ r)"
    using scan_int_show [of "'' ''" "show_args ns @ r" n] hd_show_args [OF assms] by (simp add: show_args_def is_space_def)
  then show ?case using Cons.IH by simp
qed

text \<open>With fewer numbers than conversions, scanning stops behind the last one.\<close>

lemma scan_ints_show_less:
  assumes "list_all is_space r" "length ns \<le> k"
  shows "fst (scan_ints k (show_args ns @ r)) = map int ns"
  using assms(2)
proof (induction ns arbitrary: k)
  case Nil
  have "skip_ws r = []" using skip_ws_append [OF assms(1), of "[]"] by (simp add: skip_ws_def)
  then show ?case by (cases k) (simp_all add: show_args_def scan_int_def)
next
  case (Cons n ns)
  then obtain j where k: "k = Suc j" "length ns \<le> j" by (cases k) auto
  have r: "r = [] \<or> \<not> is_digit (hd r)" using assms(1) by (cases r) (auto dest: digit_not_space)
  have "scan_int (show_args (n # ns) @ r) = (Some (int n), show_args ns @ r)"
    using scan_int_show [of "'' ''" "show_args ns @ r" n] hd_show_args [OF r] by (simp add: show_args_def is_space_def)
  then show ?case using Cons.IH [OF k(2)] k by (cases "scan_ints j (show_args ns @ r)") simp
qed

lemma scan_word_append:
  assumes "list_all is_space ws" "w \<noteq> []" "list_all (\<lambda>c. \<not> is_space c) w" "r = [] \<or> is_space (hd r)"
  shows "scan_word (ws @ w @ r) = (Some w, r)"
proof -
  have "skip_ws (ws @ w @ r) = w @ r" using assms by (cases w) (auto simp: skip_ws_append skip_ws_id)
  moreover have "takeWhile (\<lambda>c. \<not> is_space c) (w @ r) = w" "dropWhile (\<lambda>c. \<not> is_space c) (w @ r) = r"
    using assms by (cases r; auto simp: list_all_iff takeWhile_append2 dropWhile_append2)+
  ultimately show ?thesis using assms(2) by (simp add: scan_word_def Let_def)
qed

lemma fgets_line:
  assumes "newline \<notin> set l" "length l + 1 < n"
  shows "fgets n (l @ newline # s) = (Some (l @ [newline]), s)"
proof -
  have "takeWhile (\<lambda>c. c \<noteq> newline) (l @ newline # s) = l" using assms(1) by (induction l) auto
  moreover have "min (n - 1) (length l + 1) = length l + 1" using assms(2) by simp
  ultimately show ?thesis by (simp add: fgets_def Let_def)
qed

end
