(* ===== verification/Loader.thy ===== *)
theory Loader
  imports Scanf Common
begin

text \<open>
  The program loader src/loader.c: a text file with a priority, a number of instructions and one
  instruction per line becomes a new PCB.
\<close>

section \<open>Operations\<close>

definition get_opcode :: "string \<Rightarrow> ins_opcode_t c_result" where
  "get_opcode opt =
     (if opt = ''calc'' then done_with CALC
      else if opt = ''alloc'' then done_with ALLOC
      else if opt = ''free'' then done_with FREE
      else if opt = ''read'' then done_with READ
      else if opt = ''write'' then done_with WRITE
      else if opt = ''kmalloc'' then done_with KMALLOC
      else if opt = ''kmem_cache_create'' then done_with KMEM_CACHE_CREATE
      else if opt = ''kmem_cache_alloc'' then done_with KMEM_CACHE_ALLOC
      else if opt = ''copy_from_user'' then done_with COPY_FROM_USER
      else if opt = ''copy_to_user'' then done_with COPY_TO_USER
      else if opt = ''syscall'' then done_with SYSCALL
      else exit_with 1)"

text \<open>
  Storing what a scan matched into \<^verbatim>\<open>arg_0\<close>, \<^verbatim>\<open>arg_1\<close> and so on; the arguments behind a failure keep
  their old content.
\<close>

definition put_args :: "int list \<Rightarrow> inst_t \<Rightarrow> inst_t option" where
  "put_args vs ins =
     (if list_all (\<lambda>v. store_unsigned 64 v \<noteq> None) vs
      then (let a = map (\<lambda>v. word_of_int (the (store_unsigned 64 v))) vs;
                pick = (\<lambda>k old. if k < length a then a ! k else old)
            in Some (ins\<lparr>arg_0 := pick 0 (arg_0 ins), arg_1 := pick 1 (arg_1 ins),
                         arg_2 := pick 2 (arg_2 ins), arg_3 := pick 3 (arg_3 ins)\<rparr>))
      else None)"

text \<open>
  The buffers \<^verbatim>\<open>opcode[32]\<close> and \<^verbatim>\<open>buf[200]\<close>, which keep their content when a read fails; \<open>None\<close> as
  long as nothing was read into them. Reading them then is undefined, as is a word of more than 31
  characters.
\<close>

record load_bufs =
  opcode_buf :: "string option"
  line_buf :: "string option"

definition read_opcode :: "load_bufs \<Rightarrow> string \<Rightarrow> (load_bufs \<times> string) option" where
  "read_opcode b file =
     (case scan_word file of
        (None, r) \<Rightarrow> Some (b, r)
      | (Some w, r) \<Rightarrow> if 32 \<le> length w then None else Some (b\<lparr>opcode_buf := Some w\<rparr>, r))"

definition read_line :: "load_bufs \<Rightarrow> string \<Rightarrow> load_bufs \<times> string" where
  "read_line b file =
     (case fgets 200 file of (None, r) \<Rightarrow> (b, r) | (Some l, r) \<Rightarrow> (b\<lparr>line_buf := Some l\<rparr>, r))"

text \<open>The arguments of an instruction, by opcode.\<close>

definition load_args :: "inst_t \<Rightarrow> load_bufs \<Rightarrow> string \<Rightarrow> (inst_t \<times> load_bufs \<times> string) option" where
  "load_args ins b file =
     (case opcode ins of
        CALC \<Rightarrow> Some (ins, b, file)
      | KMEM_CACHE_ALLOC \<Rightarrow> (case scan_ints_nl 2 file of (vs, r) \<Rightarrow> do { i \<leftarrow> put_args vs ins; Some (i, b, r) })
      | KMALLOC \<Rightarrow> (case scan_ints_nl 2 file of (vs, r) \<Rightarrow> do { i \<leftarrow> put_args vs ins; Some (i, b, r) })
      | ALLOC \<Rightarrow> (case scan_ints_nl 2 file of (vs, r) \<Rightarrow> do { i \<leftarrow> put_args vs ins; Some (i, b, r) })
      | FREE \<Rightarrow> (case scan_ints_nl 1 file of (vs, r) \<Rightarrow> do { i \<leftarrow> put_args vs ins; Some (i, b, r) })
      | KMEM_CACHE_CREATE \<Rightarrow> (case scan_ints_nl 3 file of (vs, r) \<Rightarrow> do { i \<leftarrow> put_args vs ins; Some (i, b, r) })
      | READ \<Rightarrow> (case scan_ints_nl 3 file of (vs, r) \<Rightarrow> do { i \<leftarrow> put_args vs ins; Some (i, b, r) })
      | WRITE \<Rightarrow> (case scan_ints_nl 3 file of (vs, r) \<Rightarrow> do { i \<leftarrow> put_args vs ins; Some (i, b, r) })
      | _ \<Rightarrow> (case read_line b file of (b1, r) \<Rightarrow> do {
                l \<leftarrow> line_buf b1;
                i \<leftarrow> put_args (fst (scan_ints 4 (c_str l))) ins;
                Some (i, b1, r)
              }))"

text \<open>
  One round of the loop. \<open>junk\<close> is the content of the instruction in the memory just allocated:
  what no conversion assigns keeps it.
\<close>

definition load_inst :: "inst_t \<Rightarrow> load_bufs \<Rightarrow> string \<Rightarrow> (inst_t \<times> load_bufs \<times> string) c_result" where
  "load_inst junk b file =
     (case read_opcode b file of None \<Rightarrow> None
      | Some (b1, r) \<Rightarrow>
        (case opcode_buf b1 of None \<Rightarrow> None
         | Some w \<Rightarrow> and_then (get_opcode (c_str w)) (\<lambda>opc.
             (case load_args (junk\<lparr>opcode := opc\<rparr>) b1 r of None \<Rightarrow> None | Some x \<Rightarrow> done_with x))))"

fun load_loop :: "nat \<Rightarrow> nat \<Rightarrow> (nat \<Rightarrow> inst_t) \<Rightarrow> load_bufs \<Rightarrow> string \<Rightarrow> inst_t list c_result" where
  "load_loop 0 i junk b file = done_with []"
| "load_loop (Suc n) i junk b file =
     and_then (load_inst (junk i) b file) (\<lambda>(ins, b1, r).
       and_then (load_loop n (Suc i) junk b1 r) (\<lambda>text. done_with (ins # text)))"

text \<open>
  \<^verbatim>\<open>load\<close>. The memory of the new PCB, of its code segment and of the instructions is not
  initialised: \<open>junk\<close> and \<open>junk_text\<close>. \<open>avail_pid\<close> is the static counter, \<open>files\<close> the file system.
\<close>

definition PAGE_SIZE :: u32 where
  "PAGE_SIZE = 1024"

definition load :: "(string \<Rightarrow> string option) \<Rightarrow> pcb_t \<Rightarrow> (nat \<Rightarrow> inst_t) \<Rightarrow> u32 \<Rightarrow> string \<Rightarrow> (pcb_t \<times> u32) c_result" where
  "load files junk junk_text avail_pid file_path =
     (let proc = junk\<lparr>pid := avail_pid, bp := PAGE_SIZE, pc := 0\<rparr>
      in case files file_path of
           None \<Rightarrow> exit_with 1
         | Some file \<Rightarrow>
             (case scan_ints 2 file of (vs, r) \<Rightarrow>
                if list_all (\<lambda>v. store_unsigned 32 v \<noteq> None) vs
                then (let a = map (\<lambda>v. word_of_int (the (store_unsigned 32 v))) vs;
                          pr = (if 0 < length a then a ! 0 else priority junk);
                          sz = (if 1 < length a then a ! 1 else seg_size (code junk))
                      in and_then (load_loop (unat sz) 0 junk_text \<lparr>opcode_buf = None, line_buf = None\<rparr> r)
                           (\<lambda>text. done_with (proc\<lparr>path := take 99 file_path, priority := pr,
                                                code := \<lparr>seg_text = text, seg_size = sz\<rparr>\<rparr>, avail_pid + 1)))
                else None))"

section \<open>Printing programs\<close>

fun op_name :: "ins_opcode_t \<Rightarrow> string" where
  "op_name CALC = ''calc''" | "op_name ALLOC = ''alloc''" | "op_name FREE = ''free''"
| "op_name READ = ''read''" | "op_name WRITE = ''write''" | "op_name KMALLOC = ''kmalloc''"
| "op_name KMEM_CACHE_CREATE = ''kmem_cache_create''" | "op_name KMEM_CACHE_ALLOC = ''kmem_cache_alloc''"
| "op_name COPY_FROM_USER = ''copy_from_user''" | "op_name COPY_TO_USER = ''copy_to_user''"
| "op_name SYSCALL = ''syscall''"

fun arg_count :: "ins_opcode_t \<Rightarrow> nat" where
  "arg_count CALC = 0" | "arg_count ALLOC = 2" | "arg_count FREE = 1"
| "arg_count READ = 3" | "arg_count WRITE = 3" | "arg_count KMALLOC = 2"
| "arg_count KMEM_CACHE_CREATE = 3" | "arg_count KMEM_CACHE_ALLOC = 2"
| "arg_count COPY_FROM_USER = 4" | "arg_count COPY_TO_USER = 4" | "arg_count SYSCALL = 4"

definition inst_args :: "inst_t \<Rightarrow> nat list" where
  "inst_args ins = take (arg_count (opcode ins)) [unat (arg_0 ins), unat (arg_1 ins), unat (arg_2 ins), unat (arg_3 ins)]"

definition show_inst :: "inst_t \<Rightarrow> string" where
  "show_inst ins = op_name (opcode ins) @ show_args (inst_args ins) @ [newline]"

definition show_program :: "u32 \<Rightarrow> nat \<Rightarrow> inst_t list \<Rightarrow> string" where
  "show_program pr n insts = show_nat (unat pr) @ '' '' @ show_nat n @ [newline] @ concat (map show_inst insts)"

text \<open>An instruction read into memory with the content \<open>junk\<close>: the unused arguments keep it.\<close>

definition loaded :: "inst_t \<Rightarrow> inst_t \<Rightarrow> inst_t" where
  "loaded junk ins = (let k = arg_count (opcode ins) in
     junk\<lparr>opcode := opcode ins,
          arg_0 := if 0 < k then arg_0 ins else arg_0 junk, arg_1 := if 1 < k then arg_1 ins else arg_1 junk,
          arg_2 := if 2 < k then arg_2 ins else arg_2 junk, arg_3 := if 3 < k then arg_3 ins else arg_3 junk\<rparr>)"

section \<open>Reading a printed program\<close>

lemma get_opcode_name: "get_opcode (c_str (op_name opc)) = done_with opc"
  by (cases opc) (simp_all add: get_opcode_def c_str_def)

lemma op_name_word: "op_name opc \<noteq> []" "list_all (\<lambda>c. \<not> is_space c) (op_name opc)" "length (op_name opc) < 32"
  by (cases opc; simp add: is_space_def)+

lemma store_uint: "store_unsigned 64 (uint a) = Some (uint a)" for a :: addr_t
proof -
  have "uint a < 2 ^ 64" by (rule order_less_le_trans [OF unsigned_less]) simp
  moreover have "- (2 ^ 64) < uint a" by (rule less_le_trans [of _ 0]) simp_all
  ultimately show ?thesis by (simp add: store_unsigned_def)
qed

lemma put_inst_args: "put_args (map int (inst_args ins)) (junk\<lparr>opcode := opcode ins\<rparr>) = Some (loaded junk ins)"
proof -
  have "arg_count (opcode ins) \<in> {0, 1, 2, 3, 4}" by (cases "opcode ins") simp_all
  then show ?thesis
    by (auto simp: put_args_def inst_args_def loaded_def Let_def store_uint take_Cons' nth_Cons')
qed

lemma length_show_nat: "n < 10 ^ Suc k \<Longrightarrow> length (show_nat n) \<le> Suc k"
proof (induction k arbitrary: n)
  case 0 then show ?case by (subst show_nat.simps) simp
next
  case (Suc k)
  show ?case
  proof (cases "n < 10")
    case True then show ?thesis by (subst show_nat.simps) simp
  next
    case False
    have "n div 10 < 10 ^ Suc k" using Suc.prems by (simp add: less_mult_imp_div_less mult.commute)
    then show ?thesis using Suc.IH False by (subst show_nat.simps) simp
  qed
qed

lemma length_show_arg: "length (show_nat (unat a)) \<le> 20" for a :: addr_t
proof -
  have "unat a < 2 ^ 64" by (rule order_less_le_trans [OF unsigned_less]) simp
  then have "unat a < 10 ^ Suc 19" by simp
  then show ?thesis using length_show_nat [of "unat a" 19] by simp
qed

lemma show_nat_chars: "c \<in> set (show_nat n) \<Longrightarrow> is_digit c"
  using show_nat_digits [of n] by (simp add: list_all_iff)

lemma show_args_chars: "newline \<notin> set (show_args ns)" "CHR 0x00 \<notin> set (show_args ns)"
  by (induction ns) (auto simp: show_args_def newline_def is_digit_def dest: show_nat_chars)

lemma length_inst_args: "length (show_args (inst_args ins)) \<le> 84"
proof -
  have "length (show_args ns) \<le> 21 * length ns" if "\<forall>n \<in> set ns. length (show_nat n) \<le> 20" for ns
    using that by (induction ns) (auto simp: show_args_def)
  from this [of "inst_args ins"] show ?thesis
    by (fastforce simp: inst_args_def length_show_arg dest: in_set_takeD)
qed

lemma scan_inst_args:
  assumes "skip_ws r = r"
  shows "scan_ints_nl (length (inst_args ins)) (show_args (inst_args ins) @ newline # r) = (map int (inst_args ins), r)"
  using scan_ints_show [of "newline # r" "inst_args ins"] assms
  by (simp add: scan_ints_nl_def newline_def is_digit_def skip_ws_def is_space_def)

text \<open>The line buffer holds a line whose numbers can be stored.\<close>

definition line_ok :: "load_bufs \<Rightarrow> bool" where
  "line_ok b = (case line_buf b of None \<Rightarrow> False
     | Some l \<Rightarrow> list_all (\<lambda>v. store_unsigned 64 v \<noteq> None) (fst (scan_ints 4 (c_str l))))"

lemma load_args_shown:
  assumes r: "skip_ws r = r" and o: "opcode junk = opcode ins"
  shows "\<exists>b' ws. load_args junk b (show_args (inst_args ins) @ newline # r) = Some (loaded junk ins, b', ws @ r)
    \<and> list_all is_space ws \<and> opcode_buf b' = opcode_buf b \<and> (arg_count (opcode ins) = 4 \<longrightarrow> line_ok b')"
proof -
  have j: "junk\<lparr>opcode := opcode ins\<rparr> = junk" using o by simp
  have put: "put_args (map int (inst_args ins)) junk = Some (loaded junk ins)"
    using put_inst_args [of ins junk] unfolding j .
  have len: "length (inst_args ins) = arg_count (opcode ins)" by (cases "opcode ins") (simp_all add: inst_args_def)
  note scan = scan_inst_args [OF r, of ins, unfolded len]
  have line: "read_line b (show_args (inst_args ins) @ newline # r) = (b\<lparr>line_buf := Some (show_args (inst_args ins) @ [newline])\<rparr>, r)"
    using fgets_line [of "show_args (inst_args ins)" 200 r] length_inst_args [of ins] by (simp add: read_line_def show_args_chars)
  have str: "c_str (show_args (inst_args ins) @ [newline]) = show_args (inst_args ins) @ [newline]"
    unfolding c_str_def by (rule takeWhile_eq_all_conv [THEN iffD2]) (use show_args_chars(2) [of "inst_args ins"] in \<open>auto simp: newline_def\<close>)
  have four: "fst (scan_ints 4 (show_args (inst_args ins) @ [newline])) = map int (inst_args ins)" if "arg_count (opcode ins) = 4"
    using scan_ints_show [of "[newline]" "inst_args ins"] len that by (simp add: newline_def is_digit_def)
  have ok: "list_all (\<lambda>v. store_unsigned 64 v \<noteq> None) (map int (inst_args ins))"
    using put by (simp add: put_args_def split: if_splits)
  show ?thesis
  proof (cases "opcode ins")
    case CALC
    then have "inst_args ins = []" "loaded junk ins = junk" using o by (simp_all add: inst_args_def loaded_def)
    then show ?thesis using CALC o
      by (intro exI [of _ b] exI [of _ "[newline]"]) (simp add: load_args_def show_args_def is_space_def newline_def)
  next
    case COPY_FROM_USER then show ?thesis using o put line str four ok
      by (intro exI [of _ "b\<lparr>line_buf := Some (show_args (inst_args ins) @ [newline])\<rparr>"] exI [of _ "[]"]) (simp add: load_args_def line_ok_def)
  next
    case COPY_TO_USER then show ?thesis using o put line str four ok
      by (intro exI [of _ "b\<lparr>line_buf := Some (show_args (inst_args ins) @ [newline])\<rparr>"] exI [of _ "[]"]) (simp add: load_args_def line_ok_def)
  next
    case SYSCALL then show ?thesis using o put line str four ok
      by (intro exI [of _ "b\<lparr>line_buf := Some (show_args (inst_args ins) @ [newline])\<rparr>"] exI [of _ "[]"]) (simp add: load_args_def line_ok_def)
  qed (use o put scan in \<open>(intro exI [of _ b] exI [of _ "[]"], simp add: load_args_def)\<close>)+
qed

lemma op_name_start: "skip_ws (op_name opc @ r) = op_name opc @ r"
  using op_name_word [of opc] by (cases "op_name opc") (auto simp: skip_ws_id)

lemma show_insts_start: "skip_ws (concat (map show_inst insts)) = concat (map show_inst insts)"
  by (cases insts) (simp_all add: skip_ws_def [of "[]"] show_inst_def op_name_start)

lemma load_inst_shown:
  assumes "list_all is_space ws" "skip_ws r = r"
  shows "\<exists>b' ws'. load_inst junk b (ws @ show_inst ins @ r) = done_with (loaded junk ins, b', ws' @ r)
    \<and> list_all is_space ws' \<and> opcode_buf b' = Some (op_name (opcode ins)) \<and> (arg_count (opcode ins) = 4 \<longrightarrow> line_ok b')"
proof -
  have start: "show_args (inst_args ins) @ newline # r = [] \<or> is_space (hd (show_args (inst_args ins) @ newline # r))"
    by (cases "inst_args ins") (simp_all add: show_args_def is_space_def newline_def)
  have w: "scan_word (ws @ show_inst ins @ r) = (Some (op_name (opcode ins)), show_args (inst_args ins) @ newline # r)"
    using scan_word_append [OF assms(1) op_name_word(1,2) start] by (simp add: show_inst_def)
  let ?b = "b\<lparr>opcode_buf := Some (op_name (opcode ins))\<rparr>" and ?j = "junk\<lparr>opcode := opcode ins\<rparr>"
  obtain b' ws' where l: "load_args ?j ?b (show_args (inst_args ins) @ newline # r) = Some (loaded ?j ins, b', ws' @ r)"
      "list_all is_space ws'" "opcode_buf b' = opcode_buf ?b" "arg_count (opcode ins) = 4 \<longrightarrow> line_ok b'"
    using load_args_shown [OF assms(2), of ?j ins ?b] by auto
  have "loaded ?j ins = loaded junk ins" by (simp add: loaded_def Let_def)
  then show ?thesis using l op_name_word(3) [of "opcode ins"]
    by (intro exI [of _ b'] exI [of _ ws']) (simp add: load_inst_def read_opcode_def w get_opcode_name)
qed

text \<open>Past the end of the file the opcode of the last instruction is used again.\<close>

lemma load_inst_at_end:
  assumes "list_all is_space ws" "opcode_buf b = Some (op_name opc)" "arg_count opc = 4 \<longrightarrow> line_ok b"
  shows "\<exists>ins. load_inst junk b ws = done_with (ins, b, []) \<and> opcode ins = opc"
proof -
  have e: "skip_ws ws = []" using skip_ws_append [OF assms(1), of "[]"] by (simp add: skip_ws_def)
  have w: "scan_word ws = (None, [])" by (simp add: scan_word_def e)
  have s: "scan_ints_nl k [] = ([], [])" for k
    by (cases k) (simp_all add: scan_ints_nl_def scan_int_def skip_ws_def)
  have l: "read_line b [] = (b, [])" by (simp add: read_line_def fgets_def)
  have p0: "put_args [] ins = Some ins" for ins by (simp add: put_args_def Let_def)
  have p: "\<exists>i. put_args vs ins = Some i \<and> opcode i = opcode ins" if "list_all (\<lambda>v. store_unsigned 64 v \<noteq> None) vs" for vs ins
    using that by (simp add: put_args_def Let_def)
  have "\<exists>i. load_args (junk\<lparr>opcode := opc\<rparr>) b [] = Some (i, b, []) \<and> opcode i = opc"
    using assms(3) p [of "fst (scan_ints 4 (c_str (the (line_buf b))))" "junk\<lparr>opcode := opc\<rparr>"]
    by (cases opc) (auto simp: load_args_def s l p0 line_ok_def split: option.splits)
  then show ?thesis by (auto simp: load_inst_def read_opcode_def w assms(2) get_opcode_name)
qed

lemma load_loop_at_end:
  assumes "list_all is_space ws" "opcode_buf b = Some (op_name opc)" "arg_count opc = 4 \<longrightarrow> line_ok b"
  shows "\<exists>tx. load_loop k i junk b ws = done_with tx \<and> length tx = k \<and> (\<forall>ins \<in> set tx. opcode ins = opc)"
  using assms
proof (induction k arbitrary: i ws)
  case 0 then show ?case by simp
next
  case (Suc k)
  obtain ins where ins: "load_inst (junk i) b ws = done_with (ins, b, [])" "opcode ins = opc"
    using load_inst_at_end [OF Suc.prems] by blast
  obtain tx where "load_loop k (Suc i) junk b [] = done_with tx" "length tx = k" "\<forall>ins \<in> set tx. opcode ins = opc"
    using Suc.IH [of "[]" "Suc i"] Suc.prems(2,3) by auto
  then show ?case using ins by (intro exI [of _ "ins # tx"]) auto
qed

lemma load_loop_more:
  assumes "list_all is_space ws" "insts \<noteq> []"
  shows "\<exists>tx. load_loop (length insts + k) i junk b (ws @ concat (map show_inst insts)) =
      done_with (map (\<lambda>(k, ins). loaded (junk k) ins) (enumerate i insts) @ tx) \<and>
    length tx = k \<and> (\<forall>ins \<in> set tx. opcode ins = opcode (last insts))"
  using assms
proof (induction insts arbitrary: ws i b)
  case Nil then show ?case by simp
next
  case (Cons ins insts)
  obtain b' ws' where l: "load_inst (junk i) b (ws @ show_inst ins @ concat (map show_inst insts)) =
      done_with (loaded (junk i) ins, b', ws' @ concat (map show_inst insts))" "list_all is_space ws'"
      "opcode_buf b' = Some (op_name (opcode ins))" "arg_count (opcode ins) = 4 \<longrightarrow> line_ok b'"
    using load_inst_shown [OF Cons.prems(1) show_insts_start, of "junk i" b ins insts] by auto
  show ?case
  proof (cases "insts = []")
    case True
    obtain tx where "load_loop k (Suc i) junk b' ws' = done_with tx" "length tx = k" "\<forall>j \<in> set tx. opcode j = opcode ins"
      using load_loop_at_end [OF l(2,3,4)] by blast
    then show ?thesis using l True by auto
  next
    case False
    then show ?thesis using Cons.IH [OF l(2) False, of "Suc i" b'] l by auto
  qed
qed

lemma load_loop_shown:
  assumes "list_all is_space ws"
  shows "load_loop (length insts) i junk b (ws @ concat (map show_inst insts)) =
    done_with (map (\<lambda>(k, ins). loaded (junk k) ins) (enumerate i insts))"
  using load_loop_more [OF assms, of insts 0] by (cases "insts = []") auto

lemma scan_header: "scan_ints 2 (show_nat k @ '' '' @ show_nat n @ newline # r) = ([int k, int n], newline # r)"
  using scan_int_show [of "[]" "'' '' @ show_nat n @ newline # r" k] scan_int_show [of "'' ''" "newline # r" n]
  by (simp add: numeral_2_eq_2 is_digit_def is_space_def newline_def)

lemma store_uint32: "n < 2 ^ 32 \<Longrightarrow> store_unsigned 32 (int n) = Some (int n)"
  by (simp add: store_unsigned_def)

lemma unat_u32_less: "unat x < 2 ^ 32" for x :: u32
  by (rule order_less_le_trans [OF unsigned_less]) simp

lemma load_program:
  assumes "files p = Some (show_program pr (length insts + k) insts)" "length insts + k < 2 ^ 32" "k = 0 \<or> insts \<noteq> []"
  shows "\<exists>tx. load files junk junk_text n p = done_with
    (junk\<lparr>pid := n, bp := 1024, pc := 0, path := take 99 p, priority := pr,
          code := \<lparr>seg_text = map (\<lambda>(k, ins). loaded (junk_text k) ins) (enumerate 0 insts) @ tx,
                   seg_size = of_nat (length insts + k)\<rparr>\<rparr>, n + 1) \<and>
    length tx = k \<and> (\<forall>ins \<in> set tx. opcode ins = opcode (last insts))"
proof -
  let ?n = "length insts + k"
  have h: "scan_ints 2 (show_program pr ?n insts) = ([int (unat pr), int ?n], newline # concat (map show_inst insts))"
    using scan_header [of "unat pr" ?n "concat (map show_inst insts)"] by (simp add: show_program_def)
  obtain tx where l: "load_loop ?n 0 junk_text \<lparr>opcode_buf = None, line_buf = None\<rparr> (newline # concat (map show_inst insts)) =
      done_with (map (\<lambda>(k, ins). loaded (junk_text k) ins) (enumerate 0 insts) @ tx)"
      "length tx = k" "\<forall>ins \<in> set tx. opcode ins = opcode (last insts)"
  proof (cases "insts = []")
    case True
    then show ?thesis using that [of "[]"] assms(3) by simp
  next
    case False
    then show ?thesis
      using that load_loop_more [of "[newline]" insts k 0 junk_text "\<lparr>opcode_buf = None, line_buf = None\<rparr>"]
      by (auto simp: newline_def is_space_def)
  qed
  have st: "store_unsigned 32 (int (unat pr)) = Some (int (unat pr))" "store_unsigned 32 (int ?n) = Some (int ?n)"
    using store_uint32 [OF unat_u32_less] store_uint32 [OF assms(2)] by simp_all
  have "unat (of_nat ?n :: u32) = ?n" using assms(2) by (simp add: unsigned_of_nat take_bit_nat_eq_self del: of_nat_add)
  moreover have "(of_nat (unat pr) :: u32) = pr" by simp
  ultimately show ?thesis using st l
    by (intro exI [of _ tx]) (simp add: load_def assms(1) h Let_def PAGE_SIZE_def del: of_nat_unat of_nat_add)
qed

text \<open>
  Property C39: loading is the inverse of printing. For every program of less than \<open>2 ^ 32\<close>
  instructions, \<^verbatim>\<open>load\<close> of its text returns a PCB with the next PID, the program counter at 0, the
  priority and the instructions of the program, in order; the PID counter advances. Arguments an
  instruction does not use are not assigned: they keep what was in the memory just allocated.
\<close>

theorem load_show:
  assumes "files p = Some (show_program pr (length insts) insts)" "length insts < 2 ^ 32"
  shows "load files junk junk_text n p = done_with
    (junk\<lparr>pid := n, bp := 1024, pc := 0, path := take 99 p, priority := pr,
          code := \<lparr>seg_text = map (\<lambda>(k, ins). loaded (junk_text k) ins) (enumerate 0 insts),
                   seg_size = of_nat (length insts)\<rparr>\<rparr>, n + 1)"
  using load_program [of files p pr insts 0 junk junk_text n] assms by simp

text \<open>
  A file that ends early is not noticed. If the header announces \<open>k\<close> instructions more
  than the file holds (and it holds at least one), \<^verbatim>\<open>load\<close> succeeds all the same: no result of
  \<^verbatim>\<open>fscanf\<close> is checked, the opcode buffer keeps the last word, and the program ends with \<open>k\<close> further
  copies of its last opcode.
\<close>

lemma load_short_file:
  assumes "files p = Some (show_program pr (length insts + k) insts)" "length insts + k < 2 ^ 32" "insts \<noteq> []"
  shows "\<exists>c. load files junk junk_text n p = done_with (c, n + 1) \<and>
    unat (seg_size (code c)) = length insts + k \<and> length (seg_text (code c)) = length insts + k \<and>
    (\<forall>ins \<in> set (drop (length insts) (seg_text (code c))). opcode ins = opcode (last insts))"
proof -
  have "unat (of_nat (length insts + k) :: u32) = length insts + k"
    using assms(2) by (simp add: unsigned_of_nat take_bit_nat_eq_self del: of_nat_add)
  then show ?thesis using load_program [of files p pr insts k junk junk_text n] assms by (auto simp del: of_nat_add)
qed

text \<open>A program of two instructions, and its file.\<close>

definition demo_insts :: "inst_t list" where
  "demo_insts = [\<lparr>opcode = ALLOC, arg_0 = 300, arg_1 = 4, arg_2 = 0, arg_3 = 0\<rparr>,
                 \<lparr>opcode = CALC, arg_0 = 0, arg_1 = 0, arg_2 = 0, arg_3 = 0\<rparr>]"

definition demo_junk :: pcb_t where
  "demo_junk = \<lparr>pid = 0, priority = 0, path = [], code = \<lparr>seg_text = [], seg_size = 0\<rparr>, regs = replicate 10 0, pc = 0,
     prio = 0, pcb_mm = None, bp = 0\<rparr>"

lemma demo_program_text: "show_program 7 2 demo_insts = ''7 2'' @ [newline] @ ''alloc 300 4'' @ [newline] @ ''calc'' @ [newline]"
  by code_simp

lemma demo_insts_length: "length demo_insts = 2"
  by (simp add: demo_insts_def)

theorem load_show_witness:
  "\<exists>c. load (\<lambda>f. Some (''7 2'' @ [newline] @ ''alloc 300 4'' @ [newline] @ ''calc'' @ [newline])) demo_junk (\<lambda>_. demo_insts ! 1) 5 ''p''
     = done_with (c, 6) \<and> priority c = 7 \<and> map opcode (seg_text (code c)) = [ALLOC, CALC] \<and> arg_1 (hd (seg_text (code c))) = 4"
  unfolding demo_program_text [symmetric] demo_insts_length [symmetric]
  by (subst load_show [of _ _ 7 demo_insts]) (simp_all add: demo_insts_def loaded_def Let_def done_with_def)

lemma demo_insts_last: "demo_insts \<noteq> []" "opcode (last demo_insts) = CALC"
  by (simp_all add: demo_insts_def)

end
