(* ===== verification/Config.thy ===== *)
theory Config
  imports Loader
begin

text \<open>
  Reading the configuration file: \<^verbatim>\<open>read_config\<close> of src/os.c, and the theorem that it reads back what
  is printed in the format of the files under input/.
\<close>

section \<open>The configuration\<close>

text \<open>What \<^verbatim>\<open>read_config\<close> leaves in the file-scope variables of src/os.c.\<close>

record config =
  time_slot :: int
  num_cpus :: int
  num_processes :: int
  memramsz :: arg_t
  memswpsz :: "arg_t list"
  ld_path :: "string list"
  ld_start_time :: "64 word list"
  ld_prio :: "64 word list"

section \<open>Reading\<close>

text \<open>A \<^verbatim>\<open>%d\<close> conversion stores an \<^verbatim>\<open>int\<close>; one that does not fit is undefined.\<close>

definition store_int :: "int \<Rightarrow> int option" where
  "store_int v = (if in_int v then Some v else None)"

definition store_all :: "(int \<Rightarrow> int option) \<Rightarrow> int list \<Rightarrow> int list option" where
  "store_all store vs = (if list_all (\<lambda>v. store v \<noteq> None) vs then Some (map (\<lambda>v. the (store v)) vs) else None)"

text \<open>The variables are static, so one that no conversion assigns is zero.\<close>

definition val_or_0 :: "int list \<Rightarrow> nat \<Rightarrow> int" where
  "val_or_0 vs i = (if i < length vs then vs ! i else 0)"

fun read_swaps :: "nat \<Rightarrow> string \<Rightarrow> (arg_t list \<times> string) option" where
  "read_swaps 0 file = Some ([], file)"
| "read_swaps (Suc n) file =
     (case scan_ints 1 file of (vs, r) \<Rightarrow> do {
        a \<leftarrow> store_all (store_unsigned 64) vs;
        (sizes, r1) \<leftarrow> read_swaps n r;
        Some (word_of_int (val_or_0 a 0) # sizes, r1)
      })"

text \<open>
  One process: its arrival time, the path built in a buffer of 100 bytes, and its priority, which
  keeps the content \<open>junk\<close> of the new array if it is missing. Without a name the uninitialised buffer
  \<^verbatim>\<open>proc\<close> is appended, which is undefined, as is an overflow of either buffer.
\<close>

definition read_proc :: "64 word \<Rightarrow> string \<Rightarrow> ((64 word \<times> string \<times> 64 word) \<times> string) option" where
  "read_proc junk file =
     (case scan_ints 1 file of
        ([], r) \<Rightarrow> None
      | (v # _, r) \<Rightarrow> do {
          st \<leftarrow> store_unsigned 64 v;
          (case scan_word r of
             (None, r1) \<Rightarrow> None
           | (Some proc, r1) \<Rightarrow>
               if 100 \<le> length proc \<or> 100 \<le> length (''input/proc/'' @ c_str proc) then None
               else (case scan_ints_nl 1 r1 of (ps, r2) \<Rightarrow> do {
                 a \<leftarrow> store_all (store_unsigned 64) ps;
                 Some ((word_of_int st, ''input/proc/'' @ c_str proc, if a = [] then junk else word_of_int (a ! 0)), r2)
               }))
        })"

fun read_procs :: "nat \<Rightarrow> nat \<Rightarrow> (nat \<Rightarrow> 64 word) \<Rightarrow> string \<Rightarrow> (64 word \<times> string \<times> 64 word) list option" where
  "read_procs 0 i junk file = Some []"
| "read_procs (Suc n) i junk file =
     do { (p, r) \<leftarrow> read_proc (junk i) file; ps \<leftarrow> read_procs n (Suc i) junk r; Some (p # ps) }"

definition read_config :: "(string \<Rightarrow> string option) \<Rightarrow> (nat \<Rightarrow> 64 word) \<Rightarrow> string \<Rightarrow> config c_result" where
  "read_config files junk file_path =
     (case files file_path of
        None \<Rightarrow> exit_with 1
      | Some file \<Rightarrow> map_option Inr
          (case scan_ints_nl 3 file of (vs, r) \<Rightarrow> do {
             a \<leftarrow> store_all store_int vs;
             (case scan_ints_nl 1 r of (ram, r1) \<Rightarrow> do {
                b \<leftarrow> store_all (store_unsigned 64) ram;
                (swp, r2) \<leftarrow> read_swaps 4 r1;
                ps \<leftarrow> read_procs (nat (val_or_0 a 2)) 0 junk (skip_ws r2);
                Some \<lparr>time_slot = val_or_0 a 0, num_cpus = val_or_0 a 1, num_processes = val_or_0 a 2,
                      memramsz = word_of_int (val_or_0 b 0), memswpsz = swp,
                      ld_path = map (fst \<circ> snd) ps, ld_start_time = map fst ps, ld_prio = map (snd \<circ> snd) ps\<rparr>
              })
           }))"

text \<open>The start of \<^verbatim>\<open>main\<close>: the path is built in a buffer of 100 bytes.\<close>

definition main_config :: "(string \<Rightarrow> string option) \<Rightarrow> (nat \<Rightarrow> 64 word) \<Rightarrow> string list \<Rightarrow> config c_result" where
  "main_config files junk argv =
     (if length argv \<noteq> 2 then exit_with 1
      else if 100 \<le> length (''input/'' @ argv ! 1) then None
      else read_config files junk (''input/'' @ argv ! 1))"

section \<open>Reading a printed configuration\<close>

definition show_proc :: "64 word \<times> string \<times> 64 word \<Rightarrow> string" where
  "show_proc p = (case p of (st, name, pr) \<Rightarrow>
     show_nat (unat st) @ '' '' @ name @ '' '' @ show_nat (unat pr) @ [newline])"

definition show_config :: "nat \<Rightarrow> nat \<Rightarrow> arg_t \<Rightarrow> arg_t list \<Rightarrow> (64 word \<times> string \<times> 64 word) list \<Rightarrow> string" where
  "show_config ts nc ram swp ps =
     show_nat ts @ show_args [nc, length ps] @ newline #
     show_nat (unat ram) @ show_args (map unat swp) @ newline # concat (map show_proc ps)"

definition proc_ok :: "64 word \<times> string \<times> 64 word \<Rightarrow> bool" where
  "proc_ok p = (case p of (st, name, pr) \<Rightarrow>
     name \<noteq> [] \<and> list_all (\<lambda>c. \<not> is_space c \<and> c \<noteq> CHR 0x00) name \<and> length name \<le> 88)"

lemma show_nat_start: "skip_ws (show_nat n @ r) = show_nat n @ r"
  using show_nat_digits [of n] by (cases "show_nat n") (auto simp: skip_ws_id digit_not_space)

lemma store_all_uint: "store_all (store_unsigned 64) (map int (map unat ws)) = Some (map uint ws)" for ws :: "64 word list"
proof -
  have "store_unsigned 64 (int (unat w)) = Some (uint w)" for w :: "64 word" using store_uint [of w] by simp
  then show ?thesis by (simp add: store_all_def list_all_iff comp_def)
qed

lemma scan_first:
  assumes "r = [] \<or> \<not> is_digit (hd r)"
  shows "scan_ints (Suc (length ns)) (show_nat n @ show_args ns @ r) = (int n # map int ns, r)"
  using scan_int_show [of "[]", OF _ hd_show_args [OF assms]] scan_ints_show [OF assms] by simp

lemma show_args_Cons: "show_args (n # ns) = '' '' @ show_nat n @ show_args ns"
  by (simp add: show_args_def)

lemma read_swaps_shown:
  assumes "r = [] \<or> \<not> is_digit (hd r)"
  shows "read_swaps (length swp) (show_args (map unat swp) @ r) = Some (swp, r)"
proof (induction swp)
  case Nil show ?case by (simp add: show_args_def)
next
  case (Cons w ws)
  let ?r = "show_args (map unat ws) @ r"
  have "scan_ints 1 (show_args (map unat (w # ws)) @ r) = (map int (map unat [w]), ?r)"
  proof -
    have "show_args (map unat (w # ws)) @ r = show_args [unat w] @ ?r" by (simp add: show_args_def)
    moreover have "scan_ints (length [unat w]) (show_args [unat w] @ ?r) = (map int [unat w], ?r)"
      by (rule scan_ints_show [OF hd_show_args [OF assms]])
    ultimately show ?thesis by simp
  qed
  then show ?case using Cons.IH store_all_uint [of "[w]"] by (simp add: val_or_0_def)
qed

lemma read_swaps_skip: "read_swaps (Suc n) (skip_ws s) = read_swaps (Suc n) s"
proof -
  have "skip_ws (skip_ws s) = skip_ws s"
    unfolding skip_ws_def by (induction s) simp_all
  then have "scan_int (skip_ws s) = scan_int s" by (simp add: scan_int_def)
  then show ?thesis by (simp add: One_nat_def)
qed

lemma read_proc_shown:
  assumes "proc_ok (st, name, pr)" "skip_ws r = r"
  shows "read_proc junk (show_proc (st, name, pr) @ r) = Some ((st, ''input/proc/'' @ name, pr), r)"
proof -
  let ?t = "show_nat (unat pr) @ newline # r"
  have n: "name \<noteq> []" "list_all (\<lambda>c. \<not> is_space c) name" "CHR 0x00 \<notin> set name" "length name \<le> 88"
    using assms(1) by (auto simp: proc_ok_def list_all_iff)
  have c: "c_str name = name" unfolding c_str_def by (rule takeWhile_eq_all_conv [THEN iffD2]) (use n(3) in auto)
  have s1: "scan_ints 1 (show_proc (st, name, pr) @ r) = ([int (unat st)], '' '' @ name @ '' '' @ ?t)"
    using scan_int_show [of "[]" "'' '' @ name @ '' '' @ ?t" "unat st"] by (simp add: show_proc_def One_nat_def is_digit_def)
  have s2: "scan_word ('' '' @ name @ '' '' @ ?t) = (Some name, '' '' @ ?t)"
    using scan_word_append [of "'' ''" name "'' '' @ ?t"] n by (simp add: is_space_def)
  have s3: "scan_ints_nl 1 ('' '' @ ?t) = ([int (unat pr)], r)"
    using scan_int_show [of "'' ''" "newline # r" "unat pr"] assms(2)
    by (simp add: scan_ints_nl_def One_nat_def is_space_def is_digit_def newline_def skip_ws_def)
  have u: "store_unsigned 64 (int (unat st)) = Some (uint st)" using store_uint [of st] by simp
  show ?thesis
    using n(4) c s1 s2 s3 u store_all_uint [of "[pr]"] by (simp add: read_proc_def)
qed

lemma show_procs_start: "skip_ws (concat (map show_proc ps)) = concat (map show_proc ps)"
  by (cases ps) (auto simp: skip_ws_def [of "[]"] show_proc_def show_nat_start split: prod.splits)

lemma read_procs_shown:
  assumes "list_all proc_ok ps"
  shows "read_procs (length ps) i junk (concat (map show_proc ps)) =
    Some (map (\<lambda>(st, name, pr). (st, ''input/proc/'' @ name, pr)) ps)"
  using assms
proof (induction ps arbitrary: i)
  case (Cons p ps)
  obtain st name pr where p: "p = (st, name, pr)" by (cases p) auto
  have "read_proc (junk i) (show_proc p @ concat (map show_proc ps)) = Some ((st, ''input/proc/'' @ name, pr), concat (map show_proc ps))"
    unfolding p using Cons.prems p by (intro read_proc_shown show_procs_start) simp
  then show ?case using Cons p by simp
qed simp

text \<open>
  Property C38: \<^verbatim>\<open>read_config\<close> reads back every configuration printed in the format of the input files:
  time slice, CPUs, memory sizes, and for each process its arrival time, the path of its program and
  its priority, provided the names are words of at most 88 characters and the numbers fit.
\<close>

theorem config_show:
  assumes "files p = Some (show_config ts nc ram swp ps)" "length swp = 4" "list_all proc_ok ps"
    and "ts < 2 ^ 31" "nc < 2 ^ 31" "length ps < 2 ^ 31"
  shows "read_config files junk p = done_with
    \<lparr>time_slot = int ts, num_cpus = int nc, num_processes = int (length ps), memramsz = ram, memswpsz = swp,
     ld_path = map (\<lambda>(st, name, pr). ''input/proc/'' @ name) ps, ld_start_time = map fst ps, ld_prio = map (snd \<circ> snd) ps\<rparr>"
proof -
  let ?ps = "concat (map show_proc ps)"
  let ?r1 = "show_args (map unat swp) @ newline # ?ps" let ?r = "show_nat (unat ram) @ ?r1"
  have nl: "skip_ws (newline # x) = skip_ws x" for x by (simp add: skip_ws_def newline_def is_space_def)
  have nd: "newline # x = [] \<or> \<not> is_digit (hd (newline # x))" for x by (simp add: newline_def is_digit_def)
  have "scan_ints 3 (show_config ts nc ram swp ps) = ([int ts, int nc, int (length ps)], newline # ?r)"
    using scan_first [OF nd, of "[nc, length ps]" ts ?r] unfolding show_config_def by (simp add: numeral_3_eq_3)
  then have s3: "scan_ints_nl 3 (show_config ts nc ram swp ps) = ([int ts, int nc, int (length ps)], ?r)"
    by (simp add: scan_ints_nl_def nl show_nat_start)
  have "scan_ints 1 ?r = (map int (map unat [ram]), ?r1)"
    using scan_first [OF hd_show_args [OF nd], of "[]" "unat ram" "map unat swp" ?ps] by (simp add: show_args_def [of "[]"])
  then have s1: "scan_ints_nl 1 ?r = (map int (map unat [ram]), skip_ws ?r1)" by (simp add: scan_ints_nl_def)
  have s4: "read_swaps 4 (skip_ws ?r1) = Some (swp, newline # ?ps)"
    using read_swaps_shown [OF nd, of swp ?ps] read_swaps_skip [of 3 ?r1] assms(2) by simp
  have i: "store_all store_int [int ts, int nc, int (length ps)] = Some [int ts, int nc, int (length ps)]"
    using assms(4-6) by (simp add: store_all_def store_int_def in_int_def)
  have b: "store_all (store_unsigned 64) (map int (map unat [ram])) = Some [uint ram]" using store_all_uint [of "[ram]"] by simp
  have p: "skip_ws (newline # ?ps) = ?ps" by (simp add: nl show_procs_start)
  show ?thesis
    unfolding read_config_def assms(1) option.case s3 prod.case i Option.bind.simps s1 b s4 val_or_0_def
    by (simp add: p read_procs_shown [OF assms(3)] done_with_def comp_def case_prod_unfold)
qed

definition demo_procs :: "(64 word \<times> string \<times> 64 word) list" where
  "demo_procs = [(0, ''p0s'', 3), (5, ''s1'', 0)]"

definition demo_config_text :: string where
  "demo_config_text = ''2 1 2'' @ [newline] @ ''1024 4096 0 0 0'' @ [newline] @ ''0 p0s 3'' @ [newline] @ ''5 s1 0'' @ [newline]"

lemma demo_config_text: "show_config 2 1 1024 [4096, 0, 0, 0] demo_procs = demo_config_text"
  by (simp add: show_config_def show_proc_def show_args_def demo_procs_def demo_config_text_def show_nat.simps digit_char_def char_of_def bit_0)

theorem config_show_witness:
  "read_config (\<lambda>f. Some demo_config_text) (\<lambda>_. 9) ''c'' = done_with
    \<lparr>time_slot = 2, num_cpus = 1, num_processes = 2, memramsz = 1024, memswpsz = [4096, 0, 0, 0],
     ld_path = [''input/proc/p0s'', ''input/proc/s1''], ld_start_time = [0, 5], ld_prio = [3, 0]\<rparr>"
  unfolding demo_config_text [symmetric]
  by (subst config_show [of _ _ 2 1 1024 "[4096, 0, 0, 0]" demo_procs]) (simp_all add: demo_procs_def proc_ok_def is_space_def)

end
