(* ===== verification/Timer.thy ===== *)
theory Timer
  imports Prelude
begin

text \<open>
  The timer of src/timer.c: a barrier between the timer thread and the threads of the devices (the
  CPUs and the loader). A step of the relation is one block of code under one lock. The theorems say
  that devices never drift apart by more than one time slot, that the barrier does not deadlock, and
  that the timer thread ends only when every device has detached.
\<close>

section \<open>State\<close>

text \<open>The flags of \<^verbatim>\<open>struct timer_id_t\<close>; its locks and conditions have no state of their own here.\<close>

record timer_id =
  is_done :: bool
  fsh :: bool

text \<open>
  Where the timer thread is: at the test of its loop; before device \<open>i\<close> of the first loop over
  \<^verbatim>\<open>dev_list\<close> (with the rest of the list and the counters \<^verbatim>\<open>fsh\<close> and \<^verbatim>\<open>event\<close>); in the second loop; past
  \<^verbatim>\<open>pthread_exit\<close>.
\<close>

datatype timer_pc = TLoop | TCheck "nat list" nat nat | TClear "nat list" nat nat | TEnded

text \<open>A device is named by the number of devices attached before it.\<close>

record timer_state =
  ids :: "nat \<Rightarrow> timer_id"
  dev_list :: "nat list"
  timer_time :: "64 word"
  timer_started :: bool
  timer_stop :: bool
  tpc :: timer_pc

definition static_timer :: timer_state where
  "static_timer = \<lparr>ids = (\<lambda>_. \<lparr>is_done = False, fsh = False\<rparr>), dev_list = [], timer_time = 0,
     timer_started = False, timer_stop = False, tpc = TLoop\<rparr>"

section \<open>Operations\<close>

definition attach_event :: "timer_state \<Rightarrow> nat option \<times> timer_state" where
  "attach_event s =
     (if timer_started s then (None, s)
      else let i = length (dev_list s)
           in (Some i, s\<lparr>ids := (ids s)(i := \<lparr>is_done = False, fsh = False\<rparr>), dev_list := i # dev_list s\<rparr>))"

definition start_timer :: "timer_state \<Rightarrow> timer_state" where
  "start_timer s = s\<lparr>timer_started := True, tpc := TLoop\<rparr>"

definition current_time :: "timer_state \<Rightarrow> 64 word" where
  "current_time s = timer_time s"

definition detach_event :: "timer_state \<Rightarrow> nat \<Rightarrow> timer_state" where
  "detach_event s i = s\<lparr>ids := (ids s)(i := (ids s i)\<lparr>fsh := True\<rparr>)\<rparr>"

text \<open>\<^verbatim>\<open>next_slot\<close> up to its wait, and the condition under which the wait ends.\<close>

definition next_slot_arrive :: "timer_state \<Rightarrow> nat \<Rightarrow> timer_state" where
  "next_slot_arrive s i = s\<lparr>ids := (ids s)(i := (ids s i)\<lparr>is_done := True\<rparr>)\<rparr>"

definition next_slot_returns :: "timer_state \<Rightarrow> nat \<Rightarrow> bool" where
  "next_slot_returns s i \<longleftrightarrow> \<not> is_done (ids s i)"

text \<open>One step of \<^verbatim>\<open>timer_routine\<close>; \<open>None\<close> while it waits for a device, and after its end.\<close>

definition timer_step :: "timer_state \<Rightarrow> timer_state option" where
  "timer_step s =
     (case tpc s of
        TLoop \<Rightarrow> Some (s\<lparr>tpc := (if timer_stop s then TEnded else TCheck (dev_list s) 0 0)\<rparr>)
      | TCheck [] f e \<Rightarrow> Some (s\<lparr>timer_time := timer_time s + 1, tpc := TClear (dev_list s) f e\<rparr>)
      | TCheck (i # is) f e \<Rightarrow>
          (if \<not> is_done (ids s i) \<and> \<not> fsh (ids s i) then None
           else Some (s\<lparr>tpc := TCheck is (if fsh (ids s i) then f + 1 else f) (e + 1)\<rparr>))
      | TClear [] f e \<Rightarrow> Some (s\<lparr>tpc := (if f = e then TEnded else TLoop)\<rparr>)
      | TClear (i # is) f e \<Rightarrow>
          Some (s\<lparr>ids := (ids s)(i := (ids s i)\<lparr>is_done := False\<rparr>), tpc := TClear is f e\<rparr>)
      | TEnded \<Rightarrow> None)"

text \<open>\<^verbatim>\<open>stop_timer\<close>: the request, and what remains when the thread has been joined.\<close>

definition stop_timer :: "timer_state \<Rightarrow> timer_state" where
  "stop_timer s = s\<lparr>timer_stop := True\<rparr>"

definition timer_joined :: "timer_state \<Rightarrow> timer_state option" where
  "timer_joined s = (if tpc s = TEnded then Some (s\<lparr>dev_list := []\<rparr>) else None)"

section \<open>The barrier as a transition system\<close>

text \<open>
  A device thread works in its slot, waits in \<^verbatim>\<open>next_slot\<close>, or has detached. \<open>passed\<close> counts the
  calls of \<^verbatim>\<open>next_slot\<close> that have returned.
\<close>

datatype phase = Working | Waiting | Detached

record barrier =
  timer :: timer_state
  dev_phase :: "nat \<Rightarrow> phase"
  passed :: "nat \<Rightarrow> nat"

inductive bstep :: "barrier \<Rightarrow> barrier \<Rightarrow> bool" where
  tick: "timer_step (timer b) = Some t \<Longrightarrow> bstep b (b\<lparr>timer := t\<rparr>)"
| arrive: "i \<in> set (dev_list (timer b)) \<Longrightarrow> dev_phase b i = Working \<Longrightarrow>
    bstep b (b\<lparr>timer := next_slot_arrive (timer b) i, dev_phase := (dev_phase b)(i := Waiting)\<rparr>)"
| proceed: "i \<in> set (dev_list (timer b)) \<Longrightarrow> dev_phase b i = Waiting \<Longrightarrow> next_slot_returns (timer b) i \<Longrightarrow>
    bstep b (b\<lparr>dev_phase := (dev_phase b)(i := Working), passed := (passed b)(i := Suc (passed b i))\<rparr>)"
| leave: "i \<in> set (dev_list (timer b)) \<Longrightarrow> dev_phase b i = Working \<Longrightarrow>
    bstep b (b\<lparr>timer := detach_event (timer b) i, dev_phase := (dev_phase b)(i := Detached)\<rparr>)"

fun attach_all :: "nat \<Rightarrow> timer_state \<Rightarrow> timer_state" where
  "attach_all 0 s = s"
| "attach_all (Suc n) s = attach_all n (snd (attach_event s))"

definition start_barrier :: "nat \<Rightarrow> barrier" where
  "start_barrier n = \<lparr>timer = start_timer (attach_all n static_timer), dev_phase = (\<lambda>_. Working), passed = (\<lambda>_. 0)\<rparr>"

inductive breach :: "nat \<Rightarrow> barrier \<Rightarrow> bool" for n where
  start: "breach n (start_barrier n)"
| step: "breach n b \<Longrightarrow> bstep b b' \<Longrightarrow> breach n b'"

section \<open>The invariant\<close>

text \<open>
  The round a device is in: the slots it has passed, counting the one it may pass already because
  its flag has been cleared.
\<close>

definition slot_of :: "barrier \<Rightarrow> nat \<Rightarrow> nat" where
  "slot_of b i = passed b i + (if dev_phase b i = Waiting \<and> \<not> is_done (ids (timer b) i) then 1 else 0)"

definition live :: "barrier \<Rightarrow> nat set" where
  "live b = {i \<in> set (dev_list (timer b)). dev_phase b i \<noteq> Detached}"

definition arrived :: "barrier \<Rightarrow> nat \<Rightarrow> bool" where
  "arrived b i \<longleftrightarrow> dev_phase b i = Detached \<or> (dev_phase b i = Waiting \<and> is_done (ids (timer b) i))"

text \<open>
  What holds at round \<open>k\<close>, by the position of the timer: while it checks, every live device is in
  round \<open>k\<close>, and those already checked have arrived; while it clears, the devices still to be
  cleared have arrived and are in round \<open>k - 1\<close>, the others are in round \<open>k\<close>.
\<close>

fun stage_ok :: "timer_pc \<Rightarrow> barrier \<Rightarrow> nat \<Rightarrow> bool" where
  "stage_ok TLoop b k \<longleftrightarrow> (\<forall>i \<in> live b. slot_of b i = k)"
| "stage_ok (TCheck rem f e) b k \<longleftrightarrow> (\<forall>i \<in> live b. slot_of b i = k) \<and>
     (\<exists>don. dev_list (timer b) = don @ rem \<and> (\<forall>i \<in> set don. arrived b i) \<and> e = length don \<and>
        f = length (filter (\<lambda>i. dev_phase b i = Detached) don))"
| "stage_ok (TClear rem f e) b k \<longleftrightarrow> (\<exists>don. dev_list (timer b) = don @ rem) \<and>
     (\<forall>i \<in> set rem. arrived b i) \<and> (\<forall>i \<in> live b. slot_of b i + (if i \<in> set rem then 1 else 0) = k) \<and>
     (f = e \<longrightarrow> live b = {})"
| "stage_ok TEnded b k \<longleftrightarrow> live b = {}"

definition binv :: "barrier \<Rightarrow> bool" where
  "binv b \<longleftrightarrow> distinct (dev_list (timer b)) \<and> timer_started (timer b) \<and> \<not> timer_stop (timer b) \<and>
     (\<forall>i \<in> set (dev_list (timer b)). (fsh (ids (timer b) i) \<longleftrightarrow> dev_phase b i = Detached) \<and>
        (dev_phase b i = Working \<longrightarrow> \<not> is_done (ids (timer b) i))) \<and>
     (\<exists>k. timer_time (timer b) = of_nat k \<and> stage_ok (tpc (timer b)) b k)"

lemma timer_fields [simp]:
  "dev_list (next_slot_arrive s i) = dev_list s" "tpc (next_slot_arrive s i) = tpc s"
  "timer_time (next_slot_arrive s i) = timer_time s" "timer_stop (next_slot_arrive s i) = timer_stop s"
  "timer_started (next_slot_arrive s i) = timer_started s"
  "dev_list (detach_event s i) = dev_list s" "tpc (detach_event s i) = tpc s"
  "timer_time (detach_event s i) = timer_time s" "timer_stop (detach_event s i) = timer_stop s"
  "timer_started (detach_event s i) = timer_started s"
  by (simp_all add: next_slot_arrive_def detach_event_def)

lemmas binv_simps = binv_def slot_of_def live_def arrived_def

lemma attach_all_simps:
  "\<not> timer_started s \<Longrightarrow> distinct (dev_list s) \<Longrightarrow> set (dev_list s) = {..<length (dev_list s)} \<Longrightarrow>
   \<forall>i \<in> set (dev_list s). ids s i = \<lparr>is_done = False, fsh = False\<rparr> \<Longrightarrow>
   distinct (dev_list (attach_all n s)) \<and> set (dev_list (attach_all n s)) = {..<length (dev_list s) + n} \<and>
   timer_time (attach_all n s) = timer_time s \<and> timer_stop (attach_all n s) = timer_stop s \<and>
   (\<forall>i \<in> set (dev_list (attach_all n s)). ids (attach_all n s) i = \<lparr>is_done = False, fsh = False\<rparr>)"
proof (induction n arbitrary: s)
  case (Suc n)
  let ?s = "snd (attach_event s)"
  have s: "\<not> timer_started ?s" "distinct (dev_list ?s)" "set (dev_list ?s) = {..<length (dev_list ?s)}"
      "length (dev_list ?s) = Suc (length (dev_list s))" "timer_time ?s = timer_time s" "timer_stop ?s = timer_stop s"
      "\<forall>i \<in> set (dev_list ?s). ids ?s i = \<lparr>is_done = False, fsh = False\<rparr>"
    using Suc.prems by (auto simp: attach_event_def Let_def lessThan_Suc)
  then show ?case using Suc.IH [OF s(1,2,3,7)] by simp
qed simp

lemma start_devices: "set (dev_list (timer (start_barrier n))) = {..<n}" "distinct (dev_list (timer (start_barrier n)))"
  and start_ids: "i < n \<Longrightarrow> ids (timer (start_barrier n)) i = \<lparr>is_done = False, fsh = False\<rparr>"
  and start_time: "timer_time (timer (start_barrier n)) = 0" "\<not> timer_stop (timer (start_barrier n))"
  using attach_all_simps [of static_timer n] by (auto simp: start_barrier_def start_timer_def static_timer_def)

lemma binv_start: "binv (start_barrier n)"
proof -
  have "stage_ok (tpc (timer (start_barrier n))) (start_barrier n) 0"
    by (auto simp: start_barrier_def start_timer_def slot_of_def)
  then show ?thesis
    unfolding binv_def start_devices using start_devices start_ids start_time
    by (auto simp: start_barrier_def start_timer_def intro!: exI [of _ 0])
qed

lemma bstep_dev_list: "bstep b b' \<Longrightarrow> dev_list (timer b') = dev_list (timer b)"
  by (induction rule: bstep.induct)
     (auto simp: timer_step_def next_slot_arrive_def detach_event_def split: timer_pc.splits list.splits if_splits)

lemma binv_arrive:
  assumes "binv b" "i \<in> set (dev_list (timer b))" "dev_phase b i = Working"
  shows "binv (b\<lparr>timer := next_slot_arrive (timer b) i, dev_phase := (dev_phase b)(i := Waiting)\<rparr>)" (is "binv ?b")
proof -
  obtain k where k: "timer_time (timer b) = of_nat k" "stage_ok (tpc (timer b)) b k" using assms(1) by (auto simp: binv_def)
  have nd: "\<not> is_done (ids (timer b) i)" using assms by (auto simp: binv_def)
  have l: "live ?b = live b" using assms(3) by (auto simp: live_def next_slot_arrive_def)
  have s: "slot_of ?b j = slot_of b j" for j using assms(3) by (simp add: slot_of_def next_slot_arrive_def)
  have a: "arrived b j \<Longrightarrow> arrived ?b j" for j by (auto simp: arrived_def next_slot_arrive_def)
  have f: "filter (\<lambda>j. dev_phase ?b j = Detached) xs = filter (\<lambda>j. dev_phase b j = Detached) xs" for xs
    using assms(3) by (intro filter_cong) auto
  have "stage_ok (tpc (timer b)) ?b k"
    using k(2) a f by (cases "tpc (timer b)") (auto simp: l s)
  then show ?thesis using assms k(1) by (auto simp: binv_def next_slot_arrive_def)
qed

lemma binv_leave:
  assumes "binv b" "i \<in> set (dev_list (timer b))" "dev_phase b i = Working"
  shows "binv (b\<lparr>timer := detach_event (timer b) i, dev_phase := (dev_phase b)(i := Detached)\<rparr>)" (is "binv ?b")
proof -
  obtain k where k: "timer_time (timer b) = of_nat k" "stage_ok (tpc (timer b)) b k" using assms(1) by (auto simp: binv_def)
  have l: "live ?b = live b - {i}" by (auto simp: live_def detach_event_def)
  have s: "j \<noteq> i \<Longrightarrow> slot_of ?b j = slot_of b j" for j by (simp add: slot_of_def detach_event_def)
  have na: "\<not> arrived b i" using assms by (auto simp: binv_simps)
  have a: "arrived b j \<Longrightarrow> arrived ?b j" for j by (auto simp: arrived_def detach_event_def)
  have f: "filter (\<lambda>j. j \<noteq> i \<longrightarrow> dev_phase b j = Detached) xs = filter (\<lambda>j. dev_phase b j = Detached) xs"
    if "\<forall>j \<in> set xs. arrived b j" for xs
    using that na by (intro filter_cong) auto
  have "stage_ok (tpc (timer b)) ?b k"
    using k(2) a f by (cases "tpc (timer b)") (auto simp: l s)
  then show ?thesis using assms k(1) by (auto simp: binv_def detach_event_def)
qed

lemma binv_proceed:
  assumes "binv b" "i \<in> set (dev_list (timer b))" "dev_phase b i = Waiting" "next_slot_returns (timer b) i"
  shows "binv (b\<lparr>dev_phase := (dev_phase b)(i := Working), passed := (passed b)(i := Suc (passed b i))\<rparr>)" (is "binv ?b")
proof -
  obtain k where k: "timer_time (timer b) = of_nat k" "stage_ok (tpc (timer b)) b k" using assms(1) by (auto simp: binv_def)
  have nd: "\<not> is_done (ids (timer b) i)" using assms(4) by (simp add: next_slot_returns_def)
  have l: "live ?b = live b" using assms(3) by (auto simp: live_def)
  have s: "slot_of ?b j = slot_of b j" for j using assms(3) nd by (simp add: slot_of_def)
  have na: "\<not> arrived b i" using assms(3) nd by (simp add: arrived_def)
  have a: "arrived b j \<Longrightarrow> arrived ?b j" for j using na by (cases "j = i") (auto simp: arrived_def)
  have f: "filter (\<lambda>j. dev_phase ?b j = Detached) xs = filter (\<lambda>j. dev_phase b j = Detached) xs" for xs
    using assms(3) by (intro filter_cong) auto
  have "stage_ok (tpc (timer b)) ?b k"
    using k(2) a f by (cases "tpc (timer b)") (auto simp: l s)
  then show ?thesis using assms nd k(1) by (auto simp: binv_def)
qed

lemma binv_timerI:
  assumes "binv b" "dev_list t = dev_list (timer b)" "timer_started t" "\<not> timer_stop t"
    and "\<And>i. fsh (ids t i) = fsh (ids (timer b) i)" "\<And>i. is_done (ids t i) \<Longrightarrow> is_done (ids (timer b) i)"
    and "timer_time t = of_nat k" "stage_ok (tpc t) (b\<lparr>timer := t\<rparr>) k"
  shows "binv (b\<lparr>timer := t\<rparr>)"
  unfolding binv_def
proof (intro conjI)
  show "\<exists>k. timer_time (timer (b\<lparr>timer := t\<rparr>)) = word_of_nat k \<and> stage_ok (tpc (timer (b\<lparr>timer := t\<rparr>))) (b\<lparr>timer := t\<rparr>) k"
    using assms(7,8) by (intro exI [of _ k]) simp
  show "\<forall>i\<in>set (dev_list (timer (b\<lparr>timer := t\<rparr>))). (fsh (ids (timer (b\<lparr>timer := t\<rparr>)) i) \<longleftrightarrow> dev_phase (b\<lparr>timer := t\<rparr>) i = Detached) \<and>
      (dev_phase (b\<lparr>timer := t\<rparr>) i = Working \<longrightarrow> \<not> is_done (ids (timer (b\<lparr>timer := t\<rparr>)) i))"
    using assms(1,2,5,6) unfolding binv_def by fastforce
qed (use assms in \<open>simp_all add: binv_def\<close>)

lemma binv_tick:
  assumes "binv b" "timer_step (timer b) = Some t"
  shows "binv (b\<lparr>timer := t\<rparr>)"
proof -
  let ?b = "b\<lparr>timer := t\<rparr>"
  obtain k where k: "timer_time (timer b) = of_nat k" "stage_ok (tpc (timer b)) b k" using assms(1) by (auto simp: binv_def)
  note inv = assms(1) [unfolded binv_def]
  have run: "timer_started (timer b)" "\<not> timer_stop (timer b)" using inv by simp_all
  show ?thesis
  proof (cases "tpc (timer b)")
    case TLoop
    then have t: "t = (timer b)\<lparr>tpc := TCheck (dev_list (timer b)) 0 0\<rparr>" using assms(2) inv by (auto simp: timer_step_def)
    have same: "live ?b = live b" "slot_of ?b = slot_of b" by (auto simp: t live_def slot_of_def)
    have "stage_ok (tpc t) ?b k" using k(2) same TLoop by (simp add: t)
    then show ?thesis using run k(1) by (intro binv_timerI [OF assms(1), where k = k]) (simp_all add: t)
  next
    case (TCheck rem f e)
    show ?thesis
    proof (cases rem)
      case Nil
      then have t: "t = (timer b)\<lparr>timer_time := timer_time (timer b) + 1, tpc := TClear (dev_list (timer b)) f e\<rparr>"
        using assms(2) TCheck by (auto simp: timer_step_def)
      have same: "live ?b = live b" "slot_of ?b = slot_of b" "arrived ?b = arrived b"
        by (auto simp: t live_def slot_of_def arrived_def)
      have all: "\<forall>i \<in> set (dev_list (timer b)). arrived b i" "e = length (dev_list (timer b))"
          "f = length (filter (\<lambda>i. dev_phase b i = Detached) (dev_list (timer b)))" "\<forall>i \<in> live b. slot_of b i = k"
        using k(2) TCheck Nil by auto
      have "live b = {}" if "f = e"
      proof (rule ccontr)
        assume "live b \<noteq> {}"
        then obtain i where "i \<in> set (dev_list (timer b))" "dev_phase b i \<noteq> Detached" by (auto simp: live_def)
        then have "length (filter (\<lambda>i. dev_phase b i = Detached) (dev_list (timer b))) < length (dev_list (timer b))"
          by (rule length_filter_less)
        then show False using all(2,3) that by simp
      qed
      moreover have "i \<in> set (dev_list (timer b))" if "i \<in> live b" for i using that by (simp add: live_def)
      moreover have "tpc t = TClear (dev_list (timer b)) f e" "dev_list (timer ?b) = dev_list (timer b)" by (simp_all add: t)
      ultimately have "stage_ok (tpc t) ?b (Suc k)" using all(1,4) by (simp only: stage_ok.simps same) auto
      then show ?thesis using run k(1) by (intro binv_timerI [OF assms(1), where k = "Suc k"]) (simp_all add: t)
    next
      case (Cons i js)
      then have a: "is_done (ids (timer b) i) \<or> fsh (ids (timer b) i)"
        and t: "t = (timer b)\<lparr>tpc := TCheck js (if fsh (ids (timer b) i) then f + 1 else f) (e + 1)\<rparr>"
        using assms(2) TCheck by (auto simp: timer_step_def split: if_splits)
      have same: "live ?b = live b" "slot_of ?b = slot_of b" "arrived ?b = arrived b"
        by (auto simp: t live_def slot_of_def arrived_def)
      obtain don where d: "dev_list (timer b) = don @ rem" "\<forall>j \<in> set don. arrived b j" "e = length don"
          "f = length (filter (\<lambda>j. dev_phase b j = Detached) don)" "\<forall>j \<in> live b. slot_of b j = k"
        using k(2) TCheck by auto
      have i: "i \<in> set (dev_list (timer b))" using d(1) Cons by simp
      have "arrived b i" using inv i a by (cases "dev_phase b i") (auto simp: arrived_def)
      moreover have "fsh (ids (timer b) i) \<longleftrightarrow> dev_phase b i = Detached" using inv i by auto
      ultimately have "stage_ok (tpc t) ?b k" using d same Cons by (auto simp: t intro!: exI [of _ "don @ [i]"])
      then show ?thesis using run k(1) by (intro binv_timerI [OF assms(1), where k = k]) (simp_all add: t)
    qed
  next
    case (TClear rem f e)
    show ?thesis
    proof (cases rem)
      case Nil
      then have t: "t = (timer b)\<lparr>tpc := (if f = e then TEnded else TLoop)\<rparr>" using assms(2) TClear by (auto simp: timer_step_def)
      have same: "live ?b = live b" "slot_of ?b = slot_of b" by (auto simp: t live_def slot_of_def)
      have "stage_ok (tpc t) ?b k" using k(2) TClear Nil same by (auto simp: t)
      then show ?thesis using run k(1) by (intro binv_timerI [OF assms(1), where k = k]) (simp_all add: t)
    next
      case (Cons i js)
      then have t: "t = (timer b)\<lparr>ids := (ids (timer b))(i := (ids (timer b) i)\<lparr>is_done := False\<rparr>), tpc := TClear js f e\<rparr>"
        using assms(2) TClear by (auto simp: timer_step_def)
      obtain don where d: "dev_list (timer b) = don @ rem" "\<forall>j \<in> set rem. arrived b j"
          "\<forall>j \<in> live b. slot_of b j + (if j \<in> set rem then 1 else 0) = k" "f = e \<longrightarrow> live b = {}"
        using k(2) TClear by auto
      have dist: "i \<notin> set js" using inv d(1) Cons by auto
      have l: "live ?b = live b" by (auto simp: t live_def)
      have s: "slot_of ?b j = slot_of b j" if "j \<noteq> i" for j using that by (simp add: t slot_of_def)
      have si: "slot_of ?b i = Suc (slot_of b i)" if "i \<in> live b" using that d(2) Cons by (auto simp: t slot_of_def live_def arrived_def)
      have ar: "arrived ?b j \<longleftrightarrow> arrived b j" if "j \<noteq> i" for j using that by (simp add: t arrived_def)
      have slots: "\<forall>j \<in> live ?b. slot_of ?b j + (if j \<in> set js then 1 else 0) = k"
      proof
        fix j assume j: "j \<in> live ?b"
        show "slot_of ?b j + (if j \<in> set js then 1 else 0) = k"
          using j d(3) l s [of j] si dist Cons by (cases "j = i") auto
      qed
      have "\<forall>j \<in> set js. arrived ?b j"
      proof
        fix j assume j: "j \<in> set js"
        then have "j \<noteq> i" using dist by auto
        then show "arrived ?b j" using ar [of j] d(2) j Cons by simp
      qed
      then have "stage_ok (tpc t) ?b k" using d slots l Cons by (auto simp: t intro!: exI [of _ "don @ [i]"])
      then show ?thesis using run k(1) by (intro binv_timerI [OF assms(1), where k = k]) (auto simp: t split: if_splits)
    qed
  next
    case TEnded then show ?thesis using assms(2) by (simp add: timer_step_def)
  qed
qed

lemma binv_step: "bstep b b' \<Longrightarrow> binv b \<Longrightarrow> binv b'"
  by (induction rule: bstep.induct) (auto intro: binv_tick binv_arrive binv_proceed binv_leave)

lemma breach_binv: "breach n b \<Longrightarrow> binv b"
  by (induction rule: breach.induct) (auto intro: binv_start binv_step)

lemma breach_devices: "breach n b \<Longrightarrow> set (dev_list (timer b)) = {..<n}"
  by (induction rule: breach.induct) (simp_all add: start_devices bstep_dev_list)

section \<open>Properties\<close>

text \<open>
  Property C36: the barrier. In every reachable state there is a slot number \<open>k\<close>, the time, such that
  each device that has not detached has returned from \<^verbatim>\<open>next_slot\<close> exactly \<open>k\<close> or \<open>k - 1\<close> times: no
  two devices are ever more than one slot apart. And the timer advances the time only when every
  device has detached or waits in \<^verbatim>\<open>next_slot\<close> with its work of the slot done.
\<close>

theorem barrier_sync:
  assumes "breach n b"
  shows "\<exists>k. current_time (timer b) = of_nat k \<and> (\<forall>i. n \<le> i \<or> dev_phase b i = Detached \<or> passed b i = k \<or> passed b i + 1 = k) \<and>
    (\<forall>t. timer_step (timer b) \<noteq> Some t \<or> current_time t = current_time (timer b) \<or>
       (\<forall>i. n \<le> i \<or> dev_phase b i = Detached \<or> (dev_phase b i = Waiting \<and> is_done (ids (timer b) i))))"
proof -
  note inv = breach_binv [OF assms] and devs = breach_devices [OF assms]
  obtain k where k: "timer_time (timer b) = of_nat k" "stage_ok (tpc (timer b)) b k" using inv by (auto simp: binv_def)
  have slots: "passed b i = k \<or> passed b i + 1 = k" if "i < n" "dev_phase b i \<noteq> Detached" for i
  proof -
    have i: "i \<in> live b" using that devs by (simp add: live_def)
    then show ?thesis using k(2) that(2)
      by (cases "tpc (timer b)") (auto simp: slot_of_def arrived_def split: if_splits)
  qed
  have tick: "arrived b i" if t: "timer_step (timer b) = Some t" "current_time t \<noteq> current_time (timer b)" and i: "i < n" for t i
  proof -
    obtain f e where "tpc (timer b) = TCheck [] f e"
      using t by (auto simp: timer_step_def current_time_def split: timer_pc.splits list.splits if_splits)
    then show ?thesis using k(2) i devs by auto
  qed
  show ?thesis using k(1) slots tick unfolding arrived_def current_time_def
    by (intro exI [of _ k]) (metis not_le)
qed

text \<open>
  The barrier does not deadlock. As long as the timer thread has not ended, the timer can
  take a step, or some device is at work in its slot, or some device may return from \<^verbatim>\<open>next_slot\<close>. The
  timer thread ends only when all devices have detached, so no device is left waiting for it.
\<close>

lemma barrier_no_deadlock:
  assumes "breach n b"
  shows "if tpc (timer b) = TEnded then \<forall>i < n. dev_phase b i = Detached
    else timer_step (timer b) \<noteq> None \<or>
      (\<exists>i < n. dev_phase b i = Working \<or> (dev_phase b i = Waiting \<and> next_slot_returns (timer b) i))"
proof -
  note inv = breach_binv [OF assms] and devs = breach_devices [OF assms]
  obtain k where k: "timer_time (timer b) = of_nat k" "stage_ok (tpc (timer b)) b k" using inv by (auto simp: binv_def)
  show ?thesis
  proof (cases "tpc (timer b) = TEnded")
    case True then show ?thesis using k(2) devs by (auto simp: live_def)
  next
    case False
    have "\<exists>i < n. dev_phase b i = Working \<or> (dev_phase b i = Waiting \<and> next_slot_returns (timer b) i)"
      if "timer_step (timer b) = None"
    proof -
      from that False obtain i js f e where c: "tpc (timer b) = TCheck (i # js) f e"
          "\<not> is_done (ids (timer b) i)" "\<not> fsh (ids (timer b) i)"
        by (auto simp: timer_step_def split: timer_pc.splits list.splits if_splits)
      then have i: "i \<in> set (dev_list (timer b))" using k(2) by auto
      then have "dev_phase b i \<noteq> Detached" using inv c(3) by (auto simp: binv_def)
      then show ?thesis using i devs c(2) by (cases "dev_phase b i") (auto simp: next_slot_returns_def)
    qed
    then show ?thesis using False by auto
  qed
qed

fun timer_runs :: "nat \<Rightarrow> timer_state \<Rightarrow> timer_state option" where
  "timer_runs 0 s = Some s"
| "timer_runs (Suc n) s = do { s1 \<leftarrow> timer_step s; timer_runs n s1 }"

lemma timer_runs_step: "timer_step s = Some s1 \<Longrightarrow> timer_runs l s1 = r \<Longrightarrow> timer_runs (Suc l) s = r"
  by simp

lemma timer_runs_add: "timer_runs k s = Some s1 \<Longrightarrow> timer_runs l s1 = r \<Longrightarrow> timer_runs (k + l) s = r"
  by (induction k arbitrary: s) (auto simp: bind_Some_iff)

lemma timer_runs_check:
  "\<forall>i \<in> set is. is_done (ids s i) \<or> fsh (ids s i) \<Longrightarrow> tpc s = TCheck is f e \<Longrightarrow>
   timer_runs (length is) s = Some (s\<lparr>tpc := TCheck [] (f + length (filter (\<lambda>i. fsh (ids s i)) is)) (e + length is)\<rparr>)"
proof (induction "is" arbitrary: s f e)
  case Nil then show ?case by simp
next
  case (Cons i js)
  let ?s = "s\<lparr>tpc := TCheck js (if fsh (ids s i) then f + 1 else f) (e + 1)\<rparr>"
  have "timer_step s = Some ?s" using Cons.prems by (simp add: timer_step_def)
  then show ?case using Cons.IH [of ?s "if fsh (ids s i) then f + 1 else f" "e + 1"] Cons.prems(1) by simp
qed

lemma timer_runs_clear:
  "tpc s = TClear is f e \<Longrightarrow> timer_runs (length is) s =
     Some (s\<lparr>ids := (\<lambda>i. if i \<in> set is then (ids s i)\<lparr>is_done := False\<rparr> else ids s i), tpc := TClear [] f e\<rparr>)"
proof (induction "is" arbitrary: s)
  case Nil then show ?case by simp
next
  case (Cons i js)
  let ?s = "s\<lparr>ids := (ids s)(i := (ids s i)\<lparr>is_done := False\<rparr>), tpc := TClear js f e\<rparr>"
  have "timer_step s = Some ?s" using Cons.prems by (simp add: timer_step_def)
  moreover have "(\<lambda>j. if j \<in> set js then (ids ?s j)\<lparr>is_done := False\<rparr> else ids ?s j) =
      (\<lambda>j. if j \<in> set (i # js) then (ids s j)\<lparr>is_done := False\<rparr> else ids s j)" by auto
  ultimately show ?case using Cons.IH [of ?s] by simp
qed

lemma filter_all_length: "length (filter P xs) = length xs \<longleftrightarrow> (\<forall>x \<in> set xs. P x)"
  by (metis filter_True length_filter_less less_irrefl)

text \<open>
  A round. When the timer is at its loop and every device has arrived or detached, its
  next \<open>2 n + 3\<close> steps need no device: they advance the time by one and clear the flag of every
  device, so that all waiting ones may proceed. The timer is then at its loop again, or has ended if
  all devices had detached.
\<close>

lemma timer_round:
  assumes "breach n b" "tpc (timer b) = TLoop" "\<forall>i < n. arrived b i"
  shows "\<exists>t. timer_runs (2 * n + 3) (timer b) = Some t \<and> current_time t = current_time (timer b) + 1 \<and>
    (\<forall>i < n. next_slot_returns t i) \<and> tpc t = (if \<forall>i < n. dev_phase b i = Detached then TEnded else TLoop)"
proof -
  note inv = breach_binv [OF assms(1)] and devs = breach_devices [OF assms(1)]
  let ?s = "timer b" and ?l = "dev_list (timer b)"
  have len: "length ?l = n" using inv devs distinct_card [of ?l] by (simp add: binv_def)
  have fsh: "fsh (ids ?s i) \<longleftrightarrow> dev_phase b i = Detached" if "i \<in> set ?l" for i using inv that by (simp add: binv_def)
  let ?f = "length (filter (\<lambda>i. fsh (ids ?s i)) ?l)"
  let ?s1 = "?s\<lparr>tpc := TCheck ?l 0 0\<rparr>" and ?s2 = "?s\<lparr>tpc := TCheck [] ?f n\<rparr>"
  let ?s3 = "?s\<lparr>timer_time := timer_time ?s + 1, tpc := TClear ?l ?f n\<rparr>"
  let ?s4 = "?s3\<lparr>ids := (\<lambda>i. if i \<in> set ?l then (ids ?s i)\<lparr>is_done := False\<rparr> else ids ?s i), tpc := TClear [] ?f n\<rparr>"
  let ?s5 = "?s4\<lparr>tpc := if ?f = n then TEnded else TLoop\<rparr>"
  have 1: "timer_step ?s = Some ?s1" using assms(2) inv by (simp add: timer_step_def binv_def)
  have "\<forall>i \<in> set ?l. is_done (ids ?s i) \<or> fsh (ids ?s i)"
    using assms(3) devs fsh by (auto simp: arrived_def)
  then have 2: "timer_runs n ?s1 = Some ?s2" using timer_runs_check [of ?l ?s1 0 0] len by simp
  have 3: "timer_step ?s2 = Some ?s3" by (simp add: timer_step_def)
  have 4: "timer_runs n ?s3 = Some ?s4" using timer_runs_clear [of ?s3 ?l ?f n] len by (simp cong: if_cong)
  have 5: "timer_step ?s4 = Some ?s5" by (simp add: timer_step_def)
  have "timer_runs (2 * n + 3) ?s = timer_runs (Suc (n + Suc (n + 1))) ?s" by (rule arg_cong [where f = "\<lambda>k. timer_runs k ?s"]) simp
  also have "\<dots> = Some ?s5"
    by (rule timer_runs_step [OF 1], rule timer_runs_add [OF 2], rule timer_runs_step [OF 3], rule timer_runs_add [OF 4], unfold One_nat_def, rule timer_runs_step [OF 5]) simp
  finally have "timer_runs (2 * n + 3) ?s = Some ?s5" .
  moreover have "?f = n \<longleftrightarrow> (\<forall>i < n. dev_phase b i = Detached)"
    using filter_all_length [of "\<lambda>i. fsh (ids ?s i)" ?l] len fsh devs by auto
  ultimately show ?thesis using devs
    by (intro exI [of _ ?s5]) (simp add: current_time_def next_slot_returns_def)
qed

text \<open>Two devices, both arrived; then one round.\<close>

definition demo_barrier :: barrier where
  "demo_barrier = (start_barrier 2)\<lparr>
     timer := next_slot_arrive (next_slot_arrive (timer (start_barrier 2)) 0) 1,
     dev_phase := (\<lambda>_. Working)(0 := Waiting, 1 := Waiting)\<rparr>"

lemma demo_barrier_reach: "breach 2 demo_barrier"
proof -
  let ?b0 = "start_barrier 2"
  let ?b1 = "?b0\<lparr>timer := next_slot_arrive (timer ?b0) 0, dev_phase := (dev_phase ?b0)(0 := Waiting)\<rparr>"
  let ?b2 = "?b1\<lparr>timer := next_slot_arrive (timer ?b1) 1, dev_phase := (dev_phase ?b1)(1 := Waiting)\<rparr>"
  have "bstep ?b0 ?b1" by (rule bstep.arrive) (simp_all add: start_devices, simp add: start_barrier_def)
  then have 1: "breach 2 ?b1" by (rule breach.step [OF breach.start])
  have "bstep ?b1 ?b2" by (rule bstep.arrive) (simp_all add: start_devices, simp add: start_barrier_def)
  then have "breach 2 ?b2" by (rule breach.step [OF 1])
  moreover have "?b2 = demo_barrier" by (simp add: demo_barrier_def start_barrier_def)
  ultimately show ?thesis by simp
qed

lemma demo_barrier_arrived: "tpc (timer demo_barrier) = TLoop" "\<forall>i < 2. arrived demo_barrier i"
  by (auto simp: demo_barrier_def start_barrier_def start_timer_def arrived_def next_slot_arrive_def)

theorem barrier_sync_witness:
  "\<exists>k. current_time (timer demo_barrier) = of_nat k \<and> (passed demo_barrier 0 = k \<or> passed demo_barrier 0 + 1 = k)"
  using barrier_sync [OF demo_barrier_reach] by (fastforce simp: demo_barrier_def)

end
