(* ===== verification/Threads.thy ===== *)
theory Threads
  imports Cpu Config Timer
begin

text \<open>
  The threads of src/os.c: the CPUs, the loader and the timer, as a step relation on the state of
  the whole simulator. A step is what a thread does up to its next access to state it shares: one call
  of the scheduler, one instruction, one block of the barrier. The theorems say that no PCB is used
  after it was freed or by two CPUs at once, that the threads use the timer as devices of the barrier,
  that a time slice is bounded, and when the simulator cannot end.
\<close>

section \<open>State\<close>

text \<open>
  Where a CPU thread is: at the top of its loop; before \<^verbatim>\<open>remove_proc\<close>, \<^verbatim>\<open>free_pcb\<close> and \<^verbatim>\<open>put_proc\<close>;
  before the \<^verbatim>\<open>get_proc\<close> behind them; at the recheck of its process; before and in \<^verbatim>\<open>next_slot\<close>; before
  \<^verbatim>\<open>detach_event\<close>; past its end.
\<close>

datatype cpu_pc = CTop | CRemove | CFree | CPut | CGet | CCheck | CNext | CWait | CStop | CStopped

record cpu_state =
  cpu_pc :: cpu_pc
  cpu_proc :: "pref option"
  time_left :: int

text \<open>
  Where the loader is: at the test of its loop; at the test of the arrival time, before and in the
  \<^verbatim>\<open>next_slot\<close> under it; before \<^verbatim>\<open>init_mm\<close> and \<^verbatim>\<open>add_proc\<close>; before and in the \<^verbatim>\<open>next_slot\<close> at the end of the
  body; before \<^verbatim>\<open>done = 1\<close> and \<^verbatim>\<open>detach_event\<close>; past its end.
\<close>

datatype ld_pc = LTop | LTime | LTimeNext | LTimeWait | LInit | LAdd | LNext | LWait | LDone | LStop | LEnded

record loader_state =
  ld_pc :: ld_pc
  ld_i :: nat
  ld_proc :: "pref option"

record os_state =
  mach :: machine
  tm :: timer_state
  os_done :: bool
  avail_pid :: u32
  cpus :: "nat \<Rightarrow> cpu_state"
  loader :: loader_state

text \<open>The CPUs attach to the timer first, so CPU \<open>i\<close> is device \<open>i\<close> and the loader the next one.\<close>

definition n_cpus :: "config \<Rightarrow> nat" where
  "n_cpus cfg = nat (num_cpus cfg)"

definition n_procs :: "config \<Rightarrow> nat" where
  "n_procs cfg = nat (num_processes cfg)"

section \<open>The CPU thread\<close>

text \<open>
  The steps of \<^verbatim>\<open>cpu_routine\<close>; \<open>None\<close> is undefined behaviour: a dangling process pointer, an
  undefined instruction, or an overflow of \<^verbatim>\<open>time_left\<close>.
\<close>

definition cpu_top :: "machine \<Rightarrow> cpu_state \<Rightarrow> (machine \<times> cpu_state) option" where
  "cpu_top m c =
     (case cpu_proc c of
        None \<Rightarrow> (case get_proc (k_sched m) of (r, sch) \<Rightarrow>
          Some (m\<lparr>k_sched := sch\<rparr>, c\<lparr>cpu_proc := r, cpu_pc := (if r = None then CNext else CCheck)\<rparr>))
      | Some p \<Rightarrow> do {
          pcb \<leftarrow> procs m p;
          Some (m, c\<lparr>cpu_pc := (if pc pcb = seg_size (code pcb) then CRemove
                              else if time_left c = 0 then CPut else CCheck)\<rparr>)
        })"

definition cpu_check :: "config \<Rightarrow> bool \<Rightarrow> machine \<Rightarrow> cpu_state \<Rightarrow> (machine \<times> cpu_state) option" where
  "cpu_check cfg don m c =
     (case cpu_proc c of
        None \<Rightarrow> Some (m, c\<lparr>cpu_pc := (if don then CStop else CNext)\<rparr>)
      | Some p \<Rightarrow> do {
          let t = (if time_left c = 0 then time_slot cfg else time_left c);
          (_, m1) \<leftarrow> run m p;
          if in_int (t - 1) then Some (m1, c\<lparr>time_left := t - 1, cpu_pc := CNext\<rparr>) else None
        })"

text \<open>The steps that touch only the machine and the CPU's own variables.\<close>

definition cpu_local :: "config \<Rightarrow> bool \<Rightarrow> machine \<Rightarrow> cpu_state \<Rightarrow> (machine \<times> cpu_state) option" where
  "cpu_local cfg don m c =
     (case cpu_pc c of
        CTop \<Rightarrow> cpu_top m c
      | CRemove \<Rightarrow> Some (m\<lparr>k_sched := remove_proc (k_sched m) (cpu_proc c)\<rparr>, c\<lparr>cpu_pc := CFree\<rparr>)
      | CFree \<Rightarrow> do { (_, m1) \<leftarrow> free_pcb m (cpu_proc c); Some (m1, c\<lparr>cpu_pc := CGet, time_left := 0\<rparr>) }
      | CPut \<Rightarrow> do {
          (sch, pcbs) \<leftarrow> put_proc (k_sched m, procs m) (cpu_proc c);
          Some (m\<lparr>k_sched := sch, procs := pcbs\<rparr>, c\<lparr>cpu_pc := CGet\<rparr>)
        }
      | CGet \<Rightarrow> (case get_proc (k_sched m) of (r, sch) \<Rightarrow>
          Some (m\<lparr>k_sched := sch\<rparr>, c\<lparr>cpu_proc := r, cpu_pc := CCheck\<rparr>))
      | _ \<Rightarrow> cpu_check cfg don m c)"

definition cpu_step :: "config \<Rightarrow> nat \<Rightarrow> os_state \<Rightarrow> os_state option" where
  "cpu_step cfg i s =
     (let c = cpus s i in
      case cpu_pc c of
        CNext \<Rightarrow> Some (s\<lparr>tm := next_slot_arrive (tm s) i, cpus := (cpus s)(i := c\<lparr>cpu_pc := CWait\<rparr>)\<rparr>)
      | CWait \<Rightarrow> Some (s\<lparr>cpus := (cpus s)(i := c\<lparr>cpu_pc := CTop\<rparr>)\<rparr>)
      | CStop \<Rightarrow> Some (s\<lparr>tm := detach_event (tm s) i, cpus := (cpus s)(i := c\<lparr>cpu_pc := CStopped\<rparr>)\<rparr>)
      | CStopped \<Rightarrow> None
      | _ \<Rightarrow> map_option (\<lambda>(m, c1). s\<lparr>mach := m, cpus := (cpus s)(i := c1)\<rparr>) (cpu_local cfg (os_done s) (mach s) c))"

text \<open>A thread in \<^verbatim>\<open>next_slot\<close> goes on when its flag has been cleared; a thread that ended never does.\<close>

definition cpu_ready :: "os_state \<Rightarrow> nat \<Rightarrow> bool" where
  "cpu_ready s i \<longleftrightarrow> cpu_pc (cpus s i) \<noteq> CStopped \<and> (cpu_pc (cpus s i) = CWait \<longrightarrow> next_slot_returns (tm s) i)"

section \<open>The loader thread\<close>

text \<open>What the calls of \<^verbatim>\<open>malloc\<close> in one round return: a free address, and memory of any content.\<close>

record ld_memory =
  new_ref :: pref
  new_pcb :: pcb_t
  new_text :: "nat \<Rightarrow> inst_t"
  new_mm :: mm_struct
  new_frees :: "vm_rg_struct list"
  new_mode :: "64 word"

definition set_loader :: "os_state \<Rightarrow> ld_pc \<Rightarrow> os_state" where
  "set_loader s l = s\<lparr>loader := (loader s)\<lparr>ld_pc := l\<rparr>\<rparr>"

definition ld_step :: "(string \<Rightarrow> string option) \<Rightarrow> config \<Rightarrow> ld_memory \<Rightarrow> os_state \<Rightarrow> os_state c_result" where
  "ld_step files cfg j s =
     (let l = loader s; m = mach s; dev = n_cpus cfg in
      case ld_pc l of
        LTop \<Rightarrow>
          (if ld_i l < n_procs cfg then
             and_then (load files (new_pcb j) (new_text j) (avail_pid s) (ld_path cfg ! ld_i l)) (\<lambda>(proc, a).
               done_with (s\<lparr>mach := m\<lparr>procs := (procs m)(new_ref j \<mapsto> proc\<lparr>prio := ucast (ld_prio cfg ! ld_i l)\<rparr>)\<rparr>,
                            avail_pid := a, loader := l\<lparr>ld_pc := LTime, ld_proc := Some (new_ref j)\<rparr>\<rparr>))
           else done_with (set_loader s LDone))
      | LTime \<Rightarrow> done_with (set_loader s
          (if current_time (tm s) < ld_start_time cfg ! ld_i l then LTimeNext else LInit))
      | LTimeNext \<Rightarrow> done_with ((set_loader s LTimeWait)\<lparr>tm := next_slot_arrive (tm s) dev\<rparr>)
      | LTimeWait \<Rightarrow> done_with (set_loader s LTime)
      | LInit \<Rightarrow>
          (case ld_proc l of None \<Rightarrow> None
           | Some r \<Rightarrow> (case procs m r of None \<Rightarrow> None
              | Some pcb \<Rightarrow> done_with ((set_loader s LAdd)\<lparr>mach :=
                  set_mm m r (Some (snd (init_mm (new_frees j) (new_mode j) (new_mm j))))\<rparr>)))
      | LAdd \<Rightarrow>
          (case add_proc (k_sched m, procs m) (ld_proc l) of None \<Rightarrow> None
           | Some (sch, pcbs) \<Rightarrow> done_with (s\<lparr>mach := m\<lparr>k_sched := sch, procs := pcbs\<rparr>,
               loader := \<lparr>ld_pc = LNext, ld_i = Suc (ld_i l), ld_proc = None\<rparr>\<rparr>))
      | LNext \<Rightarrow> done_with ((set_loader s LWait)\<lparr>tm := next_slot_arrive (tm s) dev\<rparr>)
      | LWait \<Rightarrow> done_with (set_loader s LTop)
      | LDone \<Rightarrow> done_with ((set_loader s LStop)\<lparr>os_done := True\<rparr>)
      | LStop \<Rightarrow> done_with ((set_loader s LEnded)\<lparr>tm := detach_event (tm s) dev\<rparr>)
      | LEnded \<Rightarrow> None)"

definition ld_ready :: "config \<Rightarrow> os_state \<Rightarrow> bool" where
  "ld_ready cfg s \<longleftrightarrow> ld_pc (loader s) \<noteq> LEnded \<and>
     (ld_pc (loader s) \<in> {LTimeWait, LWait} \<longrightarrow> next_slot_returns (tm s) (n_cpus cfg))"

section \<open>The simulator\<close>

text \<open>
  \<^verbatim>\<open>main\<close> up to the creation of the threads. \<open>dev\<close> is the content of the uninitialised
  \<^verbatim>\<open>struct memphy_struct\<close> variables; the kernel's own variables are static, hence zero.
\<close>

definition start_machine :: "config \<Rightarrow> memphy_struct \<Rightarrow> machine" where
  "start_machine cfg dev =
     \<lparr>k_sched = init_scheduler static_sched, procs = Map.empty,
      k_mram = snd (init_memphy dev (memramsz cfg) 1),
      k_mswp = map (\<lambda>sit. snd (init_memphy dev (memswpsz cfg ! sit) 1)) [0..<PAGING_MAX_MMSWP],
      active_swp = Some 0, active_mswp_id = 0, kmem_storage = (\<lambda>_. 0), kmem_brk = 0,
      kmem_pools = replicate KMEM_MAX_POOLS
        \<lparr>pool_used = 0, pool_size = 0, pool_align = 0, pool_storage = 0, next_slot = 0\<rparr>\<rparr>"

definition os_start :: "config \<Rightarrow> memphy_struct \<Rightarrow> os_state" where
  "os_start cfg dev =
     \<lparr>mach = start_machine cfg dev,
      tm = start_timer (attach_all (Suc (n_cpus cfg)) static_timer),
      os_done = False, avail_pid = 1,
      cpus = (\<lambda>_. \<lparr>cpu_pc = CTop, cpu_proc = None, time_left = 0\<rparr>),
      loader = \<lparr>ld_pc = LTop, ld_i = 0, ld_proc = None\<rparr>\<rparr>"

definition main_start :: "(string \<Rightarrow> string option) \<Rightarrow> (nat \<Rightarrow> 64 word) \<Rightarrow> memphy_struct \<Rightarrow> string list \<Rightarrow>
    (config \<times> os_state) c_result" where
  "main_start files junk dev argv =
     and_then (main_config files junk argv) (\<lambda>cfg. done_with (cfg, os_start cfg dev))"

inductive os_step :: "(string \<Rightarrow> string option) \<Rightarrow> config \<Rightarrow> os_state \<Rightarrow> os_state \<Rightarrow> bool" for files cfg where
  cpu: "i < n_cpus cfg \<Longrightarrow> cpu_ready s i \<Longrightarrow> cpu_step cfg i s = Some s' \<Longrightarrow> os_step files cfg s s'"
| ld: "ld_ready cfg s \<Longrightarrow> procs (mach s) (new_ref j) = None \<Longrightarrow> length (regs (new_pcb j)) = 10 \<Longrightarrow>
    ld_step files cfg j s = done_with s' \<Longrightarrow> os_step files cfg s s'"
| tick: "timer_step (tm s) = Some t \<Longrightarrow> os_step files cfg s (s\<lparr>tm := t\<rparr>)"

inductive os_reach :: "(string \<Rightarrow> string option) \<Rightarrow> config \<Rightarrow> os_state \<Rightarrow> bool" for files cfg where
  start: "os_reach files cfg (os_start cfg dev)"
| step: "os_reach files cfg s \<Longrightarrow> os_step files cfg s s' \<Longrightarrow> os_reach files cfg s'"

text \<open>
  \<^verbatim>\<open>main\<close> after the threads: it joins them, stops the timer and releases the devices.
\<close>

definition all_joined :: "config \<Rightarrow> os_state \<Rightarrow> bool" where
  "all_joined cfg s \<longleftrightarrow> (\<forall>i < n_cpus cfg. cpu_pc (cpus s i) = CStopped) \<and> ld_pc (loader s) = LEnded"

definition main_finish :: "os_state \<Rightarrow> os_state option" where
  "main_finish s =
     do {
       t \<leftarrow> timer_joined (stop_timer (tm s));
       Some (s\<lparr>tm := t, mach := (mach s)\<lparr>
         k_mram := the (finish_memphy (Some (k_mram (mach s)))),
         k_mswp := map (\<lambda>d. the (finish_memphy (Some d))) (k_mswp (mach s))\<rparr>\<rparr>)
     }"

end
