(* ===== verification/Ownership.thy ===== *)
theory Ownership
  imports Threads
begin

text \<open>
  Who owns a process of the simulator: the invariant of the step relation of \<^verbatim>\<open>Threads\<close> that rules out
  the use of a PCB after \<^verbatim>\<open>free_pcb\<close>, by a second CPU, or through the running list.
\<close>

section \<open>Frame facts\<close>

lemma free_frames_outcome: "outcome (free_frames pgs m p) (\<lambda>m'. mm_only m m')"
proof (induction pgs arbitrary: m)
  case Nil then show ?case by (simp add: outcome_def)
next
  case (Cons a pgs)
  have IH: "free_frames pgs m1 p = Some m' \<Longrightarrow> mm_only m m1 \<Longrightarrow> mm_only m m'" for m1 m'
    using outcomeD [OF Cons.IH] mm_only_trans by blast
  show ?case unfolding free_frames.simps
    by (intro outcome_intros; (rule outcomeI)?; clarsimp; (erule IH)?; (erule on_mm_mm)?; simp; (erule on_mm_mm)?; simp)
qed

lemma mm_only_dom: "mm_only m m' \<Longrightarrow> (procs m' q = None) = (procs m q = None)"
  unfolding mm_only_def by (metis map_option_is_None)

text \<open>The release of a process changes memory descriptors, then removes the PCB.\<close>

lemma free_pcb_shape:
  assumes "free_pcb m (Some p) = Some (n, m')"
  shows "\<exists>m1. mm_only m m1 \<and> m' = m1\<lparr>procs := (procs m1)(p := None)\<rparr>"
proof -
  obtain mmp where mmp: "caller_mm m p = Some mmp" using assms by (auto simp: free_pcb_def bind_Some_iff)
  show ?thesis
  proof (cases mmp)
    case None then show ?thesis using assms mmp by (intro exI [of _ m]) (auto simp: free_pcb_def split: if_splits)
  next
    case (Some mm)
    then obtain x m1 where m1: "free_pcb_memph m p = Some (x, m1)" "m' = m1\<lparr>procs := (procs m1)(p := None)\<rparr>"
      using assms mmp Some by (auto simp: free_pcb_def bind_Some_iff case_prod_unfold)
    then have "mm_only m m1" using outcomeD [OF free_frames_outcome] by (auto simp: free_pcb_memph_def)
    then show ?thesis using m1(2) by blast
  qed
qed

lemma free_pcb_effect:
  assumes "free_pcb m (Some p) = Some (n, m')"
  shows "k_sched m' = k_sched m \<and> (\<forall>q. (procs m' q = None) = (q = p \<or> procs m q = None))"
proof -
  obtain m1 where m1: "mm_only m m1" "m' = m1\<lparr>procs := (procs m1)(p := None)\<rparr>" using free_pcb_shape [OF assms] by blast
  then show ?thesis using mm_only_dom by (auto simp: mm_only_def)
qed

lemma run_effect:
  assumes "run m p = Some (r, m')"
  shows "k_sched m' = k_sched m \<and> (\<forall>q. (procs m' q = None) = (procs m q = None))"
proof -
  obtain c where c: "procs m p = Some c" using assms by (auto simp: run_def bind_Some_iff)
  have o: "if pc c \<ge> seg_size (code c) then r = 1 \<and> m' = m
     else steps_ok (m\<lparr>procs := (procs m)(p \<mapsto> c\<lparr>pc := pc c + 1\<rparr>)\<rparr>) p m'"
    using outcomeD [OF run_outcome [OF c] assms] by simp
  show ?thesis
  proof (cases "pc c \<ge> seg_size (code c)")
    case True then show ?thesis using o by simp
  next
    case False
    then have s: "steps_ok (m\<lparr>procs := (procs m)(p \<mapsto> c\<lparr>pc := pc c + 1\<rparr>)\<rparr>) p m'" using o by simp
    have "(procs m' q = None) = (procs m q = None)" for q
    proof (cases "q = p")
      case True then show ?thesis using s c by (auto simp: steps_ok_def)
    next
      case False
      then have "map_option (\<lambda>c. c\<lparr>pcb_mm := None\<rparr>) (procs m' q) = map_option (\<lambda>c. c\<lparr>pcb_mm := None\<rparr>) (procs m q)"
        using s by (simp add: steps_ok_def)
      then show ?thesis by (metis map_option_is_None)
    qed
    then show ?thesis using s by (simp add: steps_ok_def)
  qed
qed

section \<open>Who owns a PCB\<close>

text \<open>
  A PCB is owned by the ready queue it waits in, by the CPU that runs it, or by the loader. A CPU
  that has put its process back or freed it still has the pointer until its next \<^verbatim>\<open>get_proc\<close>, but does
  not own it. \<open>owners\<close> counts the owners.
\<close>

definition cpu_holds :: "cpu_state \<Rightarrow> pref option" where
  "cpu_holds c = (if cpu_pc c = CGet then None else cpu_proc c)"

definition waiting :: "sched_state \<Rightarrow> pref \<Rightarrow> nat" where
  "waiting sch r = (\<Sum>p < MAX_PRIO. count_list (mlq_procs sch p) r)"

definition running :: "nat \<Rightarrow> (nat \<Rightarrow> cpu_state) \<Rightarrow> pref \<Rightarrow> nat" where
  "running n cs r = (\<Sum>i < n. if cpu_holds (cs i) = Some r then 1 else 0)"

definition owners :: "nat \<Rightarrow> os_state \<Rightarrow> pref \<Rightarrow> nat" where
  "owners n s r = waiting (k_sched (mach s)) r + running n (cpus s) r + (if ld_proc (loader s) = Some r then 1 else 0)"

lemma sum_change:
  fixes f g :: "nat \<Rightarrow> nat"
  assumes "k < n" "\<And>i. i < n \<Longrightarrow> i \<noteq> k \<Longrightarrow> g i = f i"
  shows "(\<Sum>i < n. g i) + f k = (\<Sum>i < n. f i) + g k"
proof -
  have "(\<Sum>i < n. g i) = g k + (\<Sum>i \<in> {..<n} - {k}. g i)" "(\<Sum>i < n. f i) = f k + (\<Sum>i \<in> {..<n} - {k}. f i)"
    using assms(1) by (simp_all add: sum.remove)
  moreover have "(\<Sum>i \<in> {..<n} - {k}. g i) = (\<Sum>i \<in> {..<n} - {k}. f i)" using assms(2) by (intro sum.cong) auto
  ultimately show ?thesis by simp
qed

lemma running_update:
  "i < n \<Longrightarrow> running n (cs(i := c)) r + (if cpu_holds (cs i) = Some r then 1 else 0) =
     running n cs r + (if cpu_holds c = Some r then 1 else 0)"
  unfolding running_def by (rule sum_change [of i n, THEN trans]) auto

lemma waiting_get:
  assumes wf: "wf_sched sch" and g: "get_proc sch = (x, sch')"
  shows "wf_sched sch' \<and> running_list sch' = running_list sch \<and>
    waiting sch r = waiting sch' r + (if x = Some r then 1 else 0)"
proof -
  have wf': "wf_sched sch'" "running_list sch' = running_list sch"
    using wf_get_mlq_proc [OF wf] get_mlq_proc_running [OF wf] g by (simp_all add: get_proc_def)
  from get_mlq_proc_shape [OF wf] g consider "x = None" "sch' = sch"
    | p where "p < MAX_PRIO" "mlq_procs sch p \<noteq> []" "x = Some (hd (mlq_procs sch p))"
        "\<forall>q < MAX_PRIO. mlq_procs sch' q = (if q = p then tl (mlq_procs sch q) else mlq_procs sch q)"
    unfolding get_proc_def by auto
  then show ?thesis
  proof cases
    case 1 then show ?thesis using wf' by simp
  next
    case 2
    have "waiting sch' r + count_list (mlq_procs sch p) r = waiting sch r + count_list (mlq_procs sch' p) r"
      unfolding waiting_def by (rule sum_change [OF 2(1)]) (simp add: 2(4))
    moreover have "count_list (mlq_procs sch p) r = count_list (mlq_procs sch' p) r + (if x = Some r then 1 else 0)"
      using 2 by (cases "mlq_procs sch p") auto
    ultimately show ?thesis using wf' by simp
  qed
qed

lemma count_take_snoc: "count_list (take k (xs @ [y])) r \<le> count_list xs r + (if y = r then 1 else 0)"
proof -
  have "count_list (take k (xs @ [y])) r + count_list (drop k (xs @ [y])) r = count_list (xs @ [y]) r"
    by (subst count_list_append [symmetric]) (simp only: append_take_drop_id)
  then have "count_list (take k (xs @ [y])) r \<le> count_list (xs @ [y]) r" by linarith
  also have "\<dots> = count_list xs r + (if y = r then 1 else 0)" by simp
  finally show ?thesis .
qed

text \<open>Putting or adding a process: one more owner, unless the queue of its level is full.\<close>

lemma waiting_put:
  assumes wf: "wf_sched sch" and e: "put_proc (sch, pcbs) (Some x) = Some (sch', pcbs') \<or> add_proc (sch, pcbs) (Some x) = Some (sch', pcbs')"
  shows "wf_sched sch' \<and> waiting sch' r \<le> waiting sch r + (if x = r then 1 else 0) \<and>
    ((\<forall>p < MAX_PRIO. length (mlq_procs sch p) < MAX_QUEUE_SIZE) \<longrightarrow> waiting sch' r = waiting sch r + (if x = r then 1 else 0)) \<and>
    (\<forall>q. (pcbs' q = None) = (pcbs q = None))"
proof -
  obtain pcb where pcb: "pcbs x = Some pcb" and wf': "wf_sched sch'" and m:
      "\<forall>q < MAX_PRIO. mlq_procs sch' q = (if q = normalize_prio (prio pcb)
         then take MAX_QUEUE_SIZE (mlq_procs sch q @ [x]) else mlq_procs sch q)"
    using put_proc_shape [OF wf e] by auto
  let ?p = "normalize_prio (prio pcb)"
  have p: "?p < MAX_PRIO" by (rule normalize_prio_less)
  have s: "waiting sch' r + count_list (mlq_procs sch ?p) r = waiting sch r + count_list (mlq_procs sch' ?p) r"
    unfolding waiting_def by (rule sum_change [OF p]) (simp add: m)
  have c: "mlq_procs sch' ?p = take MAX_QUEUE_SIZE (mlq_procs sch ?p @ [x])" using m p by simp
  have "length (mlq_procs sch ?p) < MAX_QUEUE_SIZE \<Longrightarrow> count_list (mlq_procs sch' ?p) r = count_list (mlq_procs sch ?p) r + (if x = r then 1 else 0)"
    by (simp add: c)
  moreover have "count_list (mlq_procs sch' ?p) r \<le> count_list (mlq_procs sch ?p) r + (if x = r then 1 else 0)"
    unfolding c by (rule count_take_snoc)
  moreover have "(pcbs' q = None) = (pcbs q = None)" for q
    using e pcb by (auto simp: put_proc_def add_proc_def put_mlq_proc_def add_mlq_proc_def Let_def split: if_splits)
  ultimately show ?thesis using wf' s p by auto
qed

section \<open>The invariant\<close>

definition cpu_ok :: "cpu_state \<Rightarrow> bool" where
  "cpu_ok c \<longleftrightarrow> (cpu_pc c \<in> {CRemove, CFree, CPut} \<longrightarrow> cpu_proc c \<noteq> None) \<and>
     (cpu_pc c \<in> {CStop, CStopped} \<longrightarrow> cpu_proc c = None)"

definition held :: "cpu_state \<Rightarrow> pref \<Rightarrow> nat" where
  "held c r = (if cpu_holds c = Some r then 1 else 0)"

abbreviation freeing :: "cpu_state \<Rightarrow> pref \<Rightarrow> bool" where
  "freeing c r \<equiv> cpu_pc c = CFree \<and> cpu_proc c = Some r"

abbreviation local_pc :: "cpu_state \<Rightarrow> bool" where
  "local_pc c \<equiv> cpu_pc c \<in> {CTop, CRemove, CFree, CPut, CGet, CCheck}"

text \<open>The four kinds of local steps of a CPU.\<close>

lemma cpu_local_cases:
  assumes st: "cpu_local cfg don m c = Some (m1, c1)" and lp: "local_pc c" and ok: "cpu_ok c"
  obtains (schedule) sch where "m1 = m\<lparr>k_sched := sch\<rparr>"
      "sch \<in> {k_sched m, snd (get_proc (k_sched m)), remove_proc (k_sched m) (cpu_proc c)}"
      "cpu_pc c \<notin> {CFree, CCheck} \<or> cpu_proc c = None"
  | (release) p k where "cpu_pc c = CFree" "cpu_proc c = Some p" "free_pcb m (Some p) = Some (k, m1)"
  | (put) sch pcbs where "cpu_pc c = CPut" "put_proc (k_sched m, procs m) (cpu_proc c) = Some (sch, pcbs)"
      "m1 = m\<lparr>k_sched := sch, procs := pcbs\<rparr>"
  | (execute) p r where "cpu_pc c = CCheck" "cpu_proc c = Some p" "run m p = Some (r, m1)"
proof -
  have idle: ?thesis if "m1 = m" "cpu_pc c \<notin> {CFree, CCheck} \<or> cpu_proc c = None"
    using schedule [of "k_sched m"] that by simp
  from lp consider "cpu_pc c = CTop" | "cpu_pc c = CRemove" | "cpu_pc c = CFree" | "cpu_pc c = CPut" | "cpu_pc c = CGet"
    | "cpu_pc c = CCheck" by auto
  then show ?thesis
  proof cases
    case 1
    show ?thesis
    proof (cases "cpu_proc c")
      case None
      then show ?thesis using st 1 by (intro schedule) (auto simp: cpu_local_def cpu_top_def case_prod_unfold)
    next
      case (Some p)
      then show ?thesis using st 1 by (intro idle) (auto simp: cpu_local_def cpu_top_def bind_Some_iff)
    qed
  next
    case 2 then show ?thesis using st by (intro schedule) (auto simp: cpu_local_def)
  next
    case 3 then show ?thesis using st ok release by (auto simp: cpu_local_def cpu_ok_def bind_Some_iff)
  next
    case 4 then show ?thesis using st put by (auto simp: cpu_local_def bind_Some_iff)
  next
    case 5 then show ?thesis using st by (intro schedule) (auto simp: cpu_local_def case_prod_unfold)
  next
    case 6
    show ?thesis
    proof (cases "cpu_proc c")
      case None then show ?thesis using st 6 by (intro idle) (auto simp: cpu_local_def cpu_check_def)
    next
      case (Some p)
      then show ?thesis using st 6 execute by (auto simp: cpu_local_def cpu_check_def bind_Some_iff Let_def split: if_splits)
    qed
  qed
qed

text \<open>What a step of a CPU does to the owners, the set of PCBs and the running list.\<close>

definition local_effect :: "machine \<Rightarrow> cpu_state \<Rightarrow> machine \<Rightarrow> cpu_state \<Rightarrow> bool" where
  "local_effect m c m1 c1 \<longleftrightarrow> wf_sched (k_sched m1) \<and> cpu_ok c1 \<and>
     (\<forall>r. waiting (k_sched m1) r + held c1 r \<le> waiting (k_sched m) r + held c r) \<and>
     (\<forall>r. freeing c r \<or> (cpu_pc c = CPut \<and> \<not> (\<forall>p < MAX_PRIO. length (mlq_procs (k_sched m) p) < MAX_QUEUE_SIZE)) \<or>
        waiting (k_sched m1) r + held c1 r = waiting (k_sched m) r + held c r) \<and>
     (\<forall>r. freeing c r \<longrightarrow> held c1 r = 0 \<and> k_sched m1 = k_sched m) \<and>
     (\<forall>r. (procs m1 r = None) = (procs m r = None \<or> freeing c r)) \<and>
     running_list (k_sched m1) = (if cpu_pc c = CRemove then purge (the (cpu_proc c)) (running_list (k_sched m))
        else running_list (k_sched m)) \<and>
     (\<forall>r. freeing c1 r \<longrightarrow> cpu_pc c = CRemove \<and> cpu_proc c = Some r)"

lemma put_proc_running: "put_proc (sch, pcbs) x = Some (sch', pcbs') \<Longrightarrow> running_list sch' = running_list sch"
  by (auto simp: put_proc_def put_mlq_proc_def Let_def bind_Some_iff split: if_splits option.splits)

lemma remove_effect:
  "wf_sched sch \<Longrightarrow> wf_sched (remove_proc sch x) \<and> waiting (remove_proc sch x) r = waiting sch r \<and>
     running_list (remove_proc sch (Some y)) = purge y (running_list sch)"
  using remove_wait_same [of sch x] by (simp add: waiting_def remove_proc_def remove_from_running_list_def)

lemma cpu_local_effect:
  assumes wf: "wf_sched (k_sched m)" and ok: "cpu_ok c" and lp: "local_pc c" and st: "cpu_local cfg don m c = Some (m1, c1)"
  shows "local_effect m c m1 c1"
proof -
  from lp consider "cpu_pc c = CTop" | "cpu_pc c = CRemove" | "cpu_pc c = CFree" | "cpu_pc c = CPut" | "cpu_pc c = CGet"
    | "cpu_pc c = CCheck" by auto
  then show ?thesis
  proof cases
    case 1
    show ?thesis
    proof (cases "cpu_proc c")
      case None
      obtain x sch where g: "get_proc (k_sched m) = (x, sch)" by fastforce
      then have "m1 = m\<lparr>k_sched := sch\<rparr>" "c1 = c\<lparr>cpu_proc := x, cpu_pc := if x = None then CNext else CCheck\<rparr>"
        using st 1 None by (auto simp: cpu_local_def cpu_top_def)
      then show ?thesis using 1 None waiting_get [OF wf g]
        by (auto simp: local_effect_def cpu_ok_def held_def cpu_holds_def)
    next
      case (Some p)
      then show ?thesis using st 1 wf
        by (auto simp: cpu_local_def cpu_top_def bind_Some_iff local_effect_def cpu_ok_def held_def cpu_holds_def split: if_splits)
    qed
  next
    case 2
    obtain y where y: "cpu_proc c = Some y" using ok 2 by (auto simp: cpu_ok_def)
    show ?thesis using st 2 y remove_effect [OF wf, of "Some y" _ y]
      by (auto simp: cpu_local_def local_effect_def cpu_ok_def held_def cpu_holds_def)
  next
    case 3
    obtain y where y: "cpu_proc c = Some y" using ok 3 by (auto simp: cpu_ok_def)
    obtain n m' where f: "free_pcb m (Some y) = Some (n, m')" "m1 = m'" "c1 = c\<lparr>cpu_pc := CGet, time_left := 0\<rparr>"
      using st 3 y by (auto simp: cpu_local_def bind_Some_iff)
    show ?thesis using free_pcb_effect [OF f(1)] f(2,3) wf 3 y
      by (auto simp: local_effect_def cpu_ok_def held_def cpu_holds_def)
  next
    case 4
    obtain y where y: "cpu_proc c = Some y" using ok 4 by (auto simp: cpu_ok_def)
    obtain sch pcbs where f: "put_proc (k_sched m, procs m) (Some y) = Some (sch, pcbs)"
        "m1 = m\<lparr>k_sched := sch, procs := pcbs\<rparr>" "c1 = c\<lparr>cpu_pc := CGet\<rparr>"
      using st 4 y by (auto simp: cpu_local_def bind_Some_iff)
    show ?thesis using waiting_put [OF wf disjI1 [OF f(1)]] put_proc_running [OF f(1)] f(2,3) 4 y
      by (auto simp: local_effect_def cpu_ok_def held_def cpu_holds_def)
  next
    case 5
    obtain x sch where g: "get_proc (k_sched m) = (x, sch)" by fastforce
    then have "m1 = m\<lparr>k_sched := sch\<rparr>" "c1 = c\<lparr>cpu_proc := x, cpu_pc := CCheck\<rparr>"
      using st 5 by (auto simp: cpu_local_def)
    then show ?thesis using 5 waiting_get [OF wf g]
      by (auto simp: local_effect_def cpu_ok_def held_def cpu_holds_def)
  next
    case 6
    show ?thesis
    proof (cases "cpu_proc c")
      case None then show ?thesis using st 6 wf
        by (auto simp: cpu_local_def cpu_check_def local_effect_def cpu_ok_def held_def cpu_holds_def split: if_splits)
    next
      case (Some p)
      obtain r m' t where f: "run m p = Some (r, m')" "m1 = m'" "c1 = c\<lparr>time_left := t, cpu_pc := CNext\<rparr>"
        using st 6 Some by (auto simp: cpu_local_def cpu_check_def bind_Some_iff Let_def split: if_splits)
      show ?thesis using run_effect [OF f(1)] f(2,3) wf 6 Some
        by (auto simp: local_effect_def cpu_ok_def held_def cpu_holds_def)
    qed
  qed
qed

text \<open>
  The invariant, for \<open>n\<close> CPUs and \<open>N\<close> processes: every PCB has at most one owner, an owned one is
  live, the entries of the running list are live and belong neither to the loader nor to a CPU about
  to free them; and as long as no queue can overflow, every live PCB has an owner.
\<close>

abbreviation loading :: "ld_pc \<Rightarrow> bool" where
  "loading l \<equiv> l \<in> {LTime, LTimeNext, LTimeWait, LInit, LAdd}"

definition own_inv :: "nat \<Rightarrow> os_state \<Rightarrow> bool" where
  "own_inv n s \<longleftrightarrow> wf_sched (k_sched (mach s)) \<and> (\<forall>i < n. cpu_ok (cpus s i)) \<and>
     (\<forall>r. owners n s r \<le> 1) \<and> (\<forall>r. 0 < owners n s r \<longrightarrow> r \<in> dom (procs (mach s)))"

definition list_inv :: "nat \<Rightarrow> os_state \<Rightarrow> bool" where
  "list_inv n s \<longleftrightarrow> distinct (q_list (running_list (k_sched (mach s)))) \<and>
     (\<forall>r \<in> set (q_list (running_list (k_sched (mach s)))).
        r \<in> dom (procs (mach s)) \<and> ld_proc (loader s) \<noteq> Some r \<and> (\<forall>i < n. \<not> freeing (cpus s i) r))"

definition load_inv :: "nat \<Rightarrow> os_state \<Rightarrow> bool" where
  "load_inv N s \<longleftrightarrow> (ld_proc (loader s) \<noteq> None \<longleftrightarrow> loading (ld_pc (loader s))) \<and>
     ld_i (loader s) + (if ld_proc (loader s) = None then 0 else 1) \<le> N \<and> finite (dom (procs (mach s))) \<and>
     card (dom (procs (mach s))) \<le> ld_i (loader s) + (if ld_proc (loader s) = None then 0 else 1)"

definition kept_inv :: "nat \<Rightarrow> nat \<Rightarrow> os_state \<Rightarrow> bool" where
  "kept_inv n N s \<longleftrightarrow> (N \<le> MAX_QUEUE_SIZE \<longrightarrow> (\<forall>r \<in> dom (procs (mach s)). owners n s r = 1))"

definition os_inv :: "nat \<Rightarrow> nat \<Rightarrow> os_state \<Rightarrow> bool" where
  "os_inv n N s \<longleftrightarrow> own_inv n s \<and> list_inv n s \<and> load_inv N s \<and> kept_inv n N s"

lemmas os_inv_parts = own_inv_def list_inv_def load_inv_def kept_inv_def

text \<open>Steps that only move a thread along, or the timer, change nothing the invariant speaks of.\<close>

lemma os_inv_cong:
  assumes "os_inv n N s" "k_sched (mach s') = k_sched (mach s)" "dom (procs (mach s')) = dom (procs (mach s))"
    and "\<forall>i < n. cpu_holds (cpus s' i) = cpu_holds (cpus s i) \<and> cpu_ok (cpus s' i) \<and> (\<forall>r. freeing (cpus s' i) r \<longrightarrow> freeing (cpus s i) r)"
    and "ld_proc (loader s') = ld_proc (loader s)" "ld_i (loader s') = ld_i (loader s)"
    and "loading (ld_pc (loader s')) = loading (ld_pc (loader s))"
  shows "os_inv n N s'"
proof -
  have "running n (cpus s') r = running n (cpus s) r" for r
    unfolding running_def using assms(4) by (intro sum.cong) auto
  then have o: "owners n s' r = owners n s r" for r by (simp add: owners_def assms)
  have "own_inv n s'" "load_inv N s'" "kept_inv n N s'"
    using assms(1) assms(4) o unfolding os_inv_def os_inv_parts assms(2,3,5,6,7) by simp_all
  moreover have "list_inv n s'"
    using assms(1) assms(4) unfolding os_inv_def list_inv_def assms(2,3,5) by blast
  ultimately show ?thesis by (simp add: os_inv_def)
qed

lemma waiting_member: "p < MAX_PRIO \<Longrightarrow> count_list (mlq_procs sch p) r \<le> waiting sch r"
  unfolding waiting_def by (rule member_le_sum) auto

lemma count_distinct: "(\<And>r. count_list xs r \<le> 1) \<Longrightarrow> distinct xs"
proof (induction xs)
  case (Cons x xs)
  have c: "count_list xs r \<le> 1" for r using Cons.prems [of r] by (auto split: if_splits)
  have "count_list xs x = 0" using Cons.prems [of x] by simp
  then show ?case using Cons.IH [OF c] by (simp add: count_list_0_iff)
qed simp

text \<open>No queue is full when a process is about to be queued and at most 50 exist.\<close>

lemma queues_have_room:
  assumes inv: "own_inv n s" "load_inv N s" and N: "N \<le> MAX_QUEUE_SIZE"
    and x: "waiting (k_sched (mach s)) x < owners n s x" and p: "p < MAX_PRIO"
  shows "length (mlq_procs (k_sched (mach s)) p) < MAX_QUEUE_SIZE"
proof -
  let ?xs = "mlq_procs (k_sched (mach s)) p" and ?D = "dom (procs (mach s))"
  have le: "count_list ?xs r \<le> owners n s r" for r
    using waiting_member [OF p, of "k_sched (mach s)" r] unfolding owners_def by linarith
  have one: "owners n s r \<le> 1" "0 < owners n s r \<Longrightarrow> r \<in> ?D" for r using inv(1) by (auto simp: own_inv_def)
  have "distinct ?xs" by (rule count_distinct) (metis le one(1) order_trans)
  moreover have "set ?xs \<subseteq> ?D - {x}"
  proof
    fix r assume r: "r \<in> set ?xs"
    then have c: "0 < count_list ?xs r" by (metis count_list_0_iff gr0I)
    then have "0 < owners n s r" using le [of r] by linarith
    then have "r \<in> ?D" by (rule one(2))
    moreover have "r \<noteq> x"
    proof
      assume "r = x"
      then have "0 < waiting (k_sched (mach s)) x" using c waiting_member [OF p, of "k_sched (mach s)" x] by simp
      then show False using x one(1) [of x] by linarith
    qed
    ultimately show "r \<in> ?D - {x}" by simp
  qed
  moreover have "x \<in> ?D" "finite ?D" "card ?D \<le> N" using x one(2) inv(2) by (auto simp: load_inv_def)
  ultimately have "length ?xs \<le> card (?D - {x})" using distinct_card [of ?xs] card_mono [of "?D - {x}" "set ?xs"] by simp
  also have "\<dots> < card ?D" using \<open>x \<in> ?D\<close> \<open>finite ?D\<close> by (rule card_Diff1_less [rotated])
  finally show ?thesis using \<open>card ?D \<le> N\<close> N by simp
qed

lemma held_running: "i < n \<Longrightarrow> held (cs i) r \<le> running n cs r"
  unfolding held_def running_def by (rule member_le_sum) auto

text \<open>A step of a CPU on the machine.\<close>

lemma os_inv_local:
  assumes inv: "os_inv n N s" and i: "i < n" and lp: "local_pc (cpus s i)"
    and st: "cpu_local cfg don (mach s) (cpus s i) = Some (m1, c1)"
  shows "os_inv n N (s\<lparr>mach := m1, cpus := (cpus s)(i := c1)\<rparr>)" (is "os_inv n N ?s")
proof -
  let ?c = "cpus s i" and ?m = "mach s"
  have own: "own_inv n s" and lst: "list_inv n s" and ldi: "load_inv N s" and kept: "kept_inv n N s"
    using inv by (simp_all add: os_inv_def)
  have wf: "wf_sched (k_sched ?m)" "cpu_ok ?c" using own i by (auto simp: own_inv_def)
  note eff = cpu_local_effect [OF wf lp st, unfolded local_effect_def]
  have o: "owners n ?s r + (waiting (k_sched ?m) r + held ?c r) = owners n s r + (waiting (k_sched m1) r + held c1 r)" for r
    using running_update [OF i, of "cpus s" c1 r] by (simp add: owners_def held_def)
  have le: "owners n ?s r \<le> owners n s r" for r using o [of r] eff by (metis add_le_cancel_right add_le_mono le_refl)
  have hold: "held ?c r \<le> running n (cpus s) r" for r
    by (rule held_running [OF i])
  have owned: "owners n s r = 1" "waiting (k_sched ?m) r = 0" "ld_proc (loader s) \<noteq> Some r" if "held ?c r = 1" for r
  proof -
    have "owners n s r \<le> 1" using own by (simp add: own_inv_def)
    then show "owners n s r = 1" "waiting (k_sched ?m) r = 0" "ld_proc (loader s) \<noteq> Some r"
      using hold [of r] that by (auto simp: owners_def split: if_splits)
  qed
  have fr: "held ?c r = 1" if "freeing ?c r" for r using that by (simp add: held_def cpu_holds_def)
  have gone: "owners n ?s r = 0" if "freeing ?c r" for r
    using o [of r] owned [OF fr [OF that]] fr [OF that] eff that by simp
  have D: "dom (procs m1) = dom (procs ?m) - {r. freeing ?c r}"
  proof -
    have dm: "(procs m1 r = None) = (procs ?m r = None \<or> freeing ?c r)" for r using eff by blast
    show ?thesis by (rule set_eqI) (simp only: domIff Diff_iff mem_Collect_eq dm de_Morgan_disj)
  qed
  have "own_inv n ?s"
  proof -
    have "owners n ?s r \<le> 1" for r using le [of r] own by (auto simp: own_inv_def intro: order_trans)
    moreover have "r \<in> dom (procs m1)" if pos: "0 < owners n ?s r" for r
    proof -
      have "0 < owners n s r" using pos le [of r] by linarith
      then have "r \<in> dom (procs ?m)" using own unfolding own_inv_def by blast
      moreover have "\<not> freeing ?c r" using pos gone [of r] by linarith
      ultimately show ?thesis unfolding D by blast
    qed
    ultimately show ?thesis using eff own by (simp add: own_inv_def)
  qed
  moreover have "list_inv n ?s"
  proof -
    let ?l = "q_list (running_list (k_sched ?m))" and ?l1 = "q_list (running_list (k_sched m1))"
    have wq: "wf_queue (running_list (k_sched ?m))" using wf by (simp add: wf_sched_def)
    have l1: "?l1 = (if cpu_pc ?c = CRemove then remove1 (the (cpu_proc ?c)) ?l else ?l)"
      using eff purge_list(1) [OF wq] by simp
    have d: "distinct ?l" using lst by (simp add: list_inv_def)
    have "\<not> freeing c1 r" if "r \<in> set ?l1" for r
      using that eff l1 d by (auto simp: set_remove1_eq)
    then show ?thesis using lst d unfolding list_inv_def
      by (auto simp: l1 D set_remove1_eq distinct_remove1 i)
  qed
  moreover have "load_inv N ?s"
  proof -
    have "finite (dom (procs m1))" "card (dom (procs m1)) \<le> card (dom (procs ?m))"
      using ldi unfolding D load_inv_def by (auto intro: card_mono)
    then show ?thesis using ldi by (auto simp: load_inv_def)
  qed
  moreover have "kept_inv n N ?s"
    unfolding kept_inv_def
  proof (intro impI ballI)
    fix r assume N: "N \<le> MAX_QUEUE_SIZE" and r: "r \<in> dom (procs (mach ?s))"
    then have r': "r \<in> dom (procs ?m)" "\<not> freeing ?c r" unfolding D by (simp_all add: D)
    have "waiting (k_sched m1) r + held c1 r = waiting (k_sched ?m) r + held ?c r"
    proof (cases "cpu_pc ?c = CPut")
      case True
      then obtain x where x: "cpu_proc ?c = Some x" using wf(2) by (auto simp: cpu_ok_def)
      then have h: "held ?c x = 1" using True by (simp add: held_def cpu_holds_def)
      have "waiting (k_sched ?m) x < owners n s x" using owned [OF h] by simp
      then have "\<forall>p < MAX_PRIO. length (mlq_procs (k_sched ?m) p) < MAX_QUEUE_SIZE"
        using queues_have_room [OF own ldi N] by blast
      then show ?thesis using eff r' by blast
    next
      case False then show ?thesis using eff r' by blast
    qed
    then show "owners n ?s r = 1" using o [of r] kept N r' by (simp add: kept_inv_def)
  qed
  ultimately show ?thesis by (simp add: os_inv_def)
qed

lemma os_inv_cpu:
  assumes inv: "os_inv n N s" and i: "i < n" and st: "cpu_step cfg i s = Some s'"
  shows "os_inv n N s'"
proof (cases "local_pc (cpus s i)")
  case True
  then obtain m1 c1 where "cpu_local cfg (os_done s) (mach s) (cpus s i) = Some (m1, c1)" "s' = s\<lparr>mach := m1, cpus := (cpus s)(i := c1)\<rparr>"
    using st by (auto simp: cpu_step_def)
  then show ?thesis using os_inv_local [OF inv i True] by simp
next
  case False
  have ok: "\<forall>j < n. cpu_ok (cpus s j)" using inv by (simp add: os_inv_def own_inv_def)
  obtain pc' where s': "mach s' = mach s" "loader s' = loader s" "cpus s' = (cpus s)(i := (cpus s i)\<lparr>cpu_pc := pc'\<rparr>)"
      "(cpu_pc (cpus s i), pc') \<in> {(CNext, CWait), (CWait, CTop), (CStop, CStopped)}"
    using False st by (cases "cpu_pc (cpus s i)") (auto simp: cpu_step_def)
  show ?thesis
    by (rule os_inv_cong [OF inv]) (use ok s' in \<open>auto simp: cpu_ok_def cpu_holds_def\<close>)
qed

lemma add_proc_running: "add_proc (sch, pcbs) (Some x) = Some (sch', pcbs') \<Longrightarrow> running_list sch' = enq x (running_list sch)"
  by (auto simp: add_proc_def add_mlq_proc_def Let_def bind_Some_iff)

lemma os_inv_add:
  assumes inv: "os_inv n N s" and x: "ld_proc (loader s) = Some x"
    and e: "add_proc (k_sched (mach s), procs (mach s)) (Some x) = Some (sch, pcbs)"
  shows "os_inv n N (s\<lparr>mach := (mach s)\<lparr>k_sched := sch, procs := pcbs\<rparr>,
    loader := \<lparr>ld_pc = LNext, ld_i = Suc (ld_i (loader s)), ld_proc = None\<rparr>\<rparr>)" (is "os_inv n N ?s")
proof -
  have own: "own_inv n s" and lst: "list_inv n s" and ldi: "load_inv N s" and kept: "kept_inv n N s"
    using inv by (simp_all add: os_inv_def)
  have wf: "wf_sched (k_sched (mach s))" using own by (simp add: own_inv_def)
  note put = waiting_put [OF wf disjI2 [OF e]]
  have D: "dom pcbs = dom (procs (mach s))" using put by (auto simp: dom_def)
  have ox: "owners n s x = 1" "waiting (k_sched (mach s)) x < owners n s x" "running n (cpus s) x = 0" "x \<in> dom (procs (mach s))"
  proof -
    have "owners n s x \<le> 1" using own by (simp add: own_inv_def)
    moreover have "0 < owners n s x" using x by (simp add: owners_def)
    ultimately show "owners n s x = 1" "waiting (k_sched (mach s)) x < owners n s x" "running n (cpus s) x = 0" "x \<in> dom (procs (mach s))"
      using x own by (auto simp: owners_def own_inv_def)
  qed
  have le: "owners n ?s r \<le> owners n s r" for r using put x by (auto simp: owners_def)
  have "own_inv n ?s"
  proof -
    have "owners n ?s r \<le> 1" for r using le [of r] own unfolding own_inv_def by (meson order_trans)
    moreover have "r \<in> dom pcbs" if "0 < owners n ?s r" for r
      using that le [of r] own unfolding own_inv_def D by (meson less_le_trans)
    ultimately show ?thesis using own put by (simp add: own_inv_def)
  qed
  moreover have "list_inv n ?s"
  proof -
    have wq: "wf_queue (running_list (k_sched (mach s)))" using wf by (simp add: wf_sched_def)
    let ?l = "q_list (running_list (k_sched (mach s)))"
    have l: "q_list (running_list sch) = take MAX_QUEUE_SIZE (?l @ [x])"
      using add_proc_running [OF e] wq q_list_bound [OF wq] by (simp add: enq_list)
    have nf: "\<not> freeing (cpus s i) x" if "i < n" for i
    proof
      assume "freeing (cpus s i) x"
      then have "held (cpus s i) x = 1" by (simp add: held_def cpu_holds_def)
      then show False using held_running [OF that, of "cpus s" x] ox(3) by simp
    qed
    have "set (q_list (running_list sch)) \<subseteq> insert x (set ?l)" unfolding l by (auto dest: in_set_takeD)
    moreover have "distinct (?l @ [x])" using lst x by (auto simp: list_inv_def)
    then have "distinct (q_list (running_list sch))" unfolding l by (rule distinct_take)
    ultimately show ?thesis using lst nf ox(4) unfolding list_inv_def by (auto simp: D)
  qed
  moreover have "load_inv N ?s" using ldi x by (auto simp: load_inv_def D)
  moreover have "kept_inv n N ?s" unfolding kept_inv_def
  proof (intro impI ballI)
    fix r assume N: "N \<le> MAX_QUEUE_SIZE" and r: "r \<in> dom (procs (mach ?s))"
    have "\<forall>p < MAX_PRIO. length (mlq_procs (k_sched (mach s)) p) < MAX_QUEUE_SIZE"
      using queues_have_room [OF own ldi N ox(2)] by blast
    then have "waiting sch r = waiting (k_sched (mach s)) r + (if x = r then 1 else 0)" using put by blast
    then have "owners n ?s r = owners n s r" using x by (auto simp: owners_def)
    then show "owners n ?s r = 1" using kept N r by (simp add: kept_inv_def D)
  qed
  ultimately show ?thesis by (simp add: os_inv_def)
qed

lemma os_inv_new:
  assumes inv: "os_inv n N s" and x: "procs (mach s) x = None" and l: "ld_proc (loader s) = None" "ld_i (loader s) < N"
  shows "os_inv n N (s\<lparr>mach := (mach s)\<lparr>procs := (procs (mach s))(x \<mapsto> pcb)\<rparr>, avail_pid := a,
     loader := (loader s)\<lparr>ld_pc := LTime, ld_proc := Some x\<rparr>\<rparr>)" (is "os_inv n N ?s")
proof -
  have own: "own_inv n s" and lst: "list_inv n s" and ldi: "load_inv N s" and kept: "kept_inv n N s"
    using inv by (simp_all add: os_inv_def)
  have x0: "owners n s x = 0" using own x by (fastforce simp: own_inv_def)
  have o: "owners n ?s r = owners n s r + (if r = x then 1 else 0)" for r using l by (auto simp: owners_def)
  have D: "dom (procs (mach ?s)) = insert x (dom (procs (mach s)))" by simp
  have "own_inv n ?s" using own x0 unfolding own_inv_def o D by auto
  moreover have "list_inv n ?s"
  proof -
    have "x \<notin> set (q_list (running_list (k_sched (mach s))))" using lst x unfolding list_inv_def by fastforce
    then show ?thesis using lst unfolding list_inv_def D by auto
  qed
  moreover have "load_inv N ?s"
    using ldi l by (auto simp: load_inv_def intro: le_trans [OF card_insert_le_m1])
  moreover have "kept_inv n N ?s" using kept x0 x unfolding kept_inv_def o D by auto
  ultimately show ?thesis by (simp add: os_inv_def)
qed

lemma done_with_inject [simp]: "done_with x = done_with y \<longleftrightarrow> x = y" "exit_with k \<noteq> done_with y" "done_with y \<noteq> exit_with k"
    "None \<noteq> done_with y" "done_with y \<noteq> None"
  by (auto simp: done_with_def exit_with_def)

lemma and_then_done: "and_then x f = done_with y \<longleftrightarrow> (\<exists>z. x = done_with z \<and> f z = done_with y)"
  by (auto simp: and_then_def done_with_def split: option.splits sum.splits)

lemma set_loader_simps [simp]:
  "mach (set_loader s l) = mach s" "tm (set_loader s l) = tm s" "cpus (set_loader s l) = cpus s" "os_done (set_loader s l) = os_done s"
  "loader (set_loader s l) = (loader s)\<lparr>ld_pc := l\<rparr>" "avail_pid (set_loader s l) = avail_pid s"
  by (simp_all add: set_loader_def)

text \<open>The steps of the loader that only move it along.\<close>

lemma ld_step_cases:
  assumes "ld_step files cfg j s = done_with s'"
  obtains (load) proc a where "ld_pc (loader s) = LTop" "ld_i (loader s) < n_procs cfg"
      "s' = s\<lparr>mach := (mach s)\<lparr>procs := (procs (mach s))(new_ref j \<mapsto> proc\<lparr>prio := ucast (ld_prio cfg ! ld_i (loader s))\<rparr>)\<rparr>,
         avail_pid := a, loader := (loader s)\<lparr>ld_pc := LTime, ld_proc := Some (new_ref j)\<rparr>\<rparr>"
      "load files (new_pcb j) (new_text j) (avail_pid s) (ld_path cfg ! ld_i (loader s)) = done_with (proc, a)"
  | (init) r mm where "ld_pc (loader s) = LInit" "ld_proc (loader s) = Some r"
      "s' = (set_loader s LAdd)\<lparr>mach := set_mm (mach s) r mm\<rparr>"
      "mm = Some (snd (init_mm (new_frees j) (new_mode j) (new_mm j)))"
  | (add) sch pcbs where "ld_pc (loader s) = LAdd" "add_proc (k_sched (mach s), procs (mach s)) (ld_proc (loader s)) = Some (sch, pcbs)"
      "s' = s\<lparr>mach := (mach s)\<lparr>k_sched := sch, procs := pcbs\<rparr>,
         loader := \<lparr>ld_pc = LNext, ld_i = Suc (ld_i (loader s)), ld_proc = None\<rparr>\<rparr>"
  | (move) l' where "(ld_pc (loader s), l') \<in> {(LTop, LDone), (LTime, LTimeNext), (LTime, LInit), (LTimeNext, LTimeWait), (LTimeWait, LTime),
         (LNext, LWait), (LWait, LTop), (LDone, LStop), (LStop, LEnded)}"
      "mach s' = mach s" "cpus s' = cpus s" "loader s' = (loader s)\<lparr>ld_pc := l'\<rparr>" "os_done s' = (os_done s \<or> ld_pc (loader s) = LDone)"
      "ld_pc (loader s) = LTop \<longrightarrow> n_procs cfg \<le> ld_i (loader s)"
proof (cases "ld_pc (loader s)")
  case LTop
  show ?thesis
  proof (cases "ld_i (loader s) < n_procs cfg")
    case True
    then obtain proc a where "s' = s\<lparr>mach := (mach s)\<lparr>procs := (procs (mach s))(new_ref j \<mapsto> proc\<lparr>prio := ucast (ld_prio cfg ! ld_i (loader s))\<rparr>)\<rparr>,
         avail_pid := a, loader := (loader s)\<lparr>ld_pc := LTime, ld_proc := Some (new_ref j)\<rparr>\<rparr>"
      "load files (new_pcb j) (new_text j) (avail_pid s) (ld_path cfg ! ld_i (loader s)) = done_with (proc, a)"
      using assms LTop by (auto simp: ld_step_def and_then_done Let_def)
    then show ?thesis using load LTop True by blast
  next
    case False then show ?thesis using assms LTop by (intro move [of LDone]) (auto simp: ld_step_def)
  qed
next
  case LTime then show ?thesis
    using assms by (intro move [of "if current_time (tm s) < ld_start_time cfg ! ld_i (loader s) then LTimeNext else LInit"]) (auto simp: ld_step_def)
next
  case LTimeNext then show ?thesis using assms by (intro move [of LTimeWait]) (auto simp: ld_step_def)
next
  case LTimeWait then show ?thesis using assms by (intro move [of LTime]) (auto simp: ld_step_def)
next
  case LInit then show ?thesis using assms init by (auto simp: ld_step_def Let_def split: option.splits)
next
  case LAdd then show ?thesis using assms add by (auto simp: ld_step_def Let_def split: option.splits)
next
  case LNext then show ?thesis using assms by (intro move [of LWait]) (auto simp: ld_step_def)
next
  case LWait then show ?thesis using assms by (intro move [of LTop]) (auto simp: ld_step_def)
next
  case LDone then show ?thesis using assms by (intro move [of LStop]) (auto simp: ld_step_def)
next
  case LStop then show ?thesis using assms by (intro move [of LEnded]) (auto simp: ld_step_def)
next
  case LEnded then show ?thesis using assms by (simp add: ld_step_def)
qed

lemma os_inv_ld:
  assumes inv: "os_inv n (n_procs cfg) s" and st: "ld_step files cfg j s = done_with s'"
    and fresh: "procs (mach s) (new_ref j) = None"
  shows "os_inv n (n_procs cfg) s'"
proof -
  have ok: "\<forall>j < n. cpu_ok (cpus s j)" using inv by (simp add: os_inv_def own_inv_def)
  have lp: "ld_proc (loader s) \<noteq> None \<longleftrightarrow> loading (ld_pc (loader s))" using inv by (simp add: os_inv_def load_inv_def)
  from st show ?thesis
  proof (cases rule: ld_step_cases)
    case (load proc a)
    then show ?thesis using os_inv_new [OF inv fresh] lp by simp
  next
    case (init r mm)
    have "dom (procs (set_mm (mach s) r mm)) = dom (procs (mach s))" by (auto simp: set_mm_def dom_def)
    then show ?thesis
      by (intro os_inv_cong [OF inv]) (use ok init in \<open>auto simp: set_mm_def\<close>)
  next
    case (add sch pcbs)
    obtain x where "ld_proc (loader s) = Some x" using lp add(1) by auto
    then show ?thesis using os_inv_add [OF inv] add by simp
  next
    case (move l')
    have "loading l' = loading (ld_pc (loader s))" using move(1) by auto
    then show ?thesis by (intro os_inv_cong [OF inv]) (simp_all add: move ok)
  qed
qed

lemma os_inv_start: "os_inv n (n_procs cfg) (os_start cfg dev)"
proof -
  have w: "wf_sched (init_scheduler static_sched)" by (rule wf_init_scheduler)
  have r: "q_list (running_list (init_scheduler static_sched)) = []"
    by (simp add: init_scheduler_def static_sched_def q_list_def)
  have o: "owners n (os_start cfg dev) x = 0" for x
    by (simp add: owners_def os_start_def start_machine_def waiting_def running_def cpu_holds_def procs_init)
  show ?thesis unfolding os_inv_def own_inv_def list_inv_def load_inv_def kept_inv_def o
    using w r by (simp add: os_start_def start_machine_def cpu_ok_def)
qed

lemma os_reach_inv: "os_reach files cfg s \<Longrightarrow> os_inv (n_cpus cfg) (n_procs cfg) s"
proof (induction rule: os_reach.induct)
  case (start dev) show ?case by (rule os_inv_start)
next
  case (step s s')
  from step.hyps(2) step.IH show ?case
  proof (cases rule: os_step.cases)
    case (cpu i) then show ?thesis using os_inv_cpu step.IH by blast
  next
    case (ld j) then show ?thesis using os_inv_ld [OF step.IH] by blast
  next
    case (tick t) then show ?thesis using step.IH by (intro os_inv_cong [OF step.IH]) (auto simp: os_inv_def own_inv_def)
  qed
qed

section \<open>Properties\<close>

lemma owned_once:
  assumes "own_inv n s" "i < n" "cpu_holds (cpus s i) = Some p"
  shows "p \<in> dom (procs (mach s))" "waiting (k_sched (mach s)) p = 0" "ld_proc (loader s) \<noteq> Some p"
    and "j < n \<Longrightarrow> j \<noteq> i \<Longrightarrow> cpu_holds (cpus s j) \<noteq> Some p"
proof -
  have h: "held (cpus s i) p = 1" using assms(3) by (simp add: held_def)
  have r1: "1 \<le> running n (cpus s) p" using held_running [OF assms(2), of "cpus s" p] h by simp
  have le: "owners n s p \<le> 1" using assms(1) by (simp add: own_inv_def)
  then have run: "running n (cpus s) p = 1" using r1 by (simp add: owners_def)
  have "0 < owners n s p" using r1 by (simp add: owners_def)
  then show "p \<in> dom (procs (mach s))" using assms(1) by (simp add: own_inv_def)
  show "waiting (k_sched (mach s)) p = 0" "ld_proc (loader s) \<noteq> Some p"
    using le run by (auto simp: owners_def split: if_splits)
  show "cpu_holds (cpus s j) \<noteq> Some p" if "j < n" "j \<noteq> i"
  proof
    assume j: "cpu_holds (cpus s j) = Some p"
    have "running n ((cpus s)(i := (cpus s i)\<lparr>cpu_proc := None\<rparr>)) p = 0"
      using running_update [OF assms(2), of "cpus s" "(cpus s i)\<lparr>cpu_proc := None\<rparr>" p] run assms(3) by (simp add: cpu_holds_def)
    moreover have "held (((cpus s)(i := (cpus s i)\<lparr>cpu_proc := None\<rparr>)) j) p = 1" using j that by (simp add: held_def)
    ultimately show False
      using held_running [OF that(1), of "(cpus s)(i := (cpus s i)\<lparr>cpu_proc := None\<rparr>)" p] by simp
  qed
qed

lemma waiting_iff: "0 < waiting sch r \<longleftrightarrow> (\<exists>p < MAX_PRIO. r \<in> set (mlq_procs sch p))"
  unfolding waiting_def by (auto simp: neq0_conv [symmetric] sum_eq_0_iff count_list_0_iff simp del: neq0_conv)

lemma running_iff: "0 < running n cs r \<longleftrightarrow> (\<exists>i < n. cpu_holds (cs i) = Some r)"
  unfolding running_def by (auto simp: neq0_conv [symmetric] sum_eq_0_iff simp del: neq0_conv)

text \<open>
  Property C8: no process is used after it was freed, nor by two CPUs at once. In every reachable
  state of the simulator, whatever the interleaving of the threads: a CPU that has a process, and is
  not between giving it up and \<^verbatim>\<open>get_proc\<close>, has a live one, which is in no ready queue, not the loader's
  and no other CPU's; the queues and the running list hold only live PCBs, so the search by PID that
  every system call makes is always defined.
\<close>

theorem no_dangling_process:
  assumes "os_reach files cfg s"
  shows "(\<forall>i p. i < n_cpus cfg \<and> cpu_pc (cpus s i) \<noteq> CGet \<and> cpu_proc (cpus s i) = Some p \<longrightarrow>
      (procs (mach s) p \<noteq> None \<and> ld_proc (loader s) \<noteq> Some p \<and>
       (\<forall>q < MAX_PRIO. p \<notin> set (mlq_procs (k_sched (mach s)) q)) \<and>
       (\<forall>j < n_cpus cfg. j = i \<or> cpu_pc (cpus s j) = CGet \<or> cpu_proc (cpus s j) \<noteq> Some p))) \<and>
    (\<forall>q < MAX_PRIO. \<forall>p \<in> set (mlq_procs (k_sched (mach s)) q). procs (mach s) p \<noteq> None) \<and>
    (\<forall>p \<in> set (q_list (running_list (k_sched (mach s)))). procs (mach s) p \<noteq> None) \<and>
    (\<forall>k. sched_find_proc_by_pid (k_sched (mach s), procs (mach s)) k \<noteq> None)"
proof -
  have own: "own_inv (n_cpus cfg) s" and lst: "list_inv (n_cpus cfg) s"
    using os_reach_inv [OF assms] by (simp_all add: os_inv_def)
  have wf: "wf_sched (k_sched (mach s))" using own by (simp add: own_inv_def)
  have 1: "procs (mach s) p \<noteq> None \<and> ld_proc (loader s) \<noteq> Some p \<and>
       (\<forall>q < MAX_PRIO. p \<notin> set (mlq_procs (k_sched (mach s)) q)) \<and>
       (\<forall>j < n_cpus cfg. j = i \<or> cpu_pc (cpus s j) = CGet \<or> cpu_proc (cpus s j) \<noteq> Some p)"
    if "i < n_cpus cfg" "cpu_pc (cpus s i) \<noteq> CGet" "cpu_proc (cpus s i) = Some p" for i p
  proof -
    have h: "cpu_holds (cpus s i) = Some p" using that by (simp add: cpu_holds_def)
    note o = owned_once [OF own that(1) h]
    have "\<forall>q < MAX_PRIO. p \<notin> set (mlq_procs (k_sched (mach s)) q)" using o(2) waiting_iff [of "k_sched (mach s)" p] by auto
    moreover have "j = i \<or> cpu_pc (cpus s j) = CGet \<or> cpu_proc (cpus s j) \<noteq> Some p" if "j < n_cpus cfg" for j
      using o(4) [OF that] by (cases "j = i") (auto simp: cpu_holds_def split: if_splits)
    ultimately show ?thesis using o(1,3) by blast
  qed
  have 2: "\<forall>q < MAX_PRIO. \<forall>p \<in> set (mlq_procs (k_sched (mach s)) q). procs (mach s) p \<noteq> None"
  proof (intro allI impI ballI)
    fix q p assume "q < MAX_PRIO" "p \<in> set (mlq_procs (k_sched (mach s)) q)"
    then have "0 < waiting (k_sched (mach s)) p" using waiting_iff by blast
    then have "0 < owners (n_cpus cfg) s p" by (simp add: owners_def)
    then show "procs (mach s) p \<noteq> None" using own by (auto simp: own_inv_def)
  qed
  have 3: "\<forall>p \<in> set (q_list (running_list (k_sched (mach s)))). procs (mach s) p \<noteq> None"
    using lst by (auto simp: list_inv_def)
  have "sched_find_proc_by_pid (k_sched (mach s), procs (mach s)) k \<noteq> None" for k
    using 3 wf find_proc_by_pid_find [of "k_sched (mach s)" "procs (mach s)" k] by (auto simp: sched_find_proc_by_pid_def)
  with 1 2 3 show ?thesis by blast
qed

text \<open>
  Property C11: no process is lost. With at most 50 processes, the size of a queue, every live PCB is
  at every moment in a ready queue, with a CPU, or with the loader. (With more a full queue drops the
  process it is given.)
\<close>

theorem no_process_lost:
  assumes "os_reach files cfg s" "num_processes cfg \<le> 50" "procs (mach s) p = Some pcb"
  shows "(\<exists>q < MAX_PRIO. p \<in> set (mlq_procs (k_sched (mach s)) q)) \<or>
    (\<exists>i < n_cpus cfg. cpu_proc (cpus s i) = Some p \<and> cpu_pc (cpus s i) \<noteq> CGet) \<or> ld_proc (loader s) = Some p"
proof -
  have "kept_inv (n_cpus cfg) (n_procs cfg) s" using os_reach_inv [OF assms(1)] by (simp add: os_inv_def)
  then have "owners (n_cpus cfg) s p = 1" using assms(2,3) by (auto simp: kept_inv_def n_procs_def MAX_QUEUE_SIZE_def)
  then have "0 < waiting (k_sched (mach s)) p \<or> 0 < running (n_cpus cfg) (cpus s) p \<or> ld_proc (loader s) = Some p"
    by (auto simp: owners_def split: if_splits)
  then show ?thesis unfolding waiting_iff running_iff by (auto simp: cpu_holds_def split: if_splits)
qed

text \<open>A configuration of one CPU and one process of no instructions, and the first step of its loader.\<close>

definition demo_cfg :: config where
  "demo_cfg = \<lparr>time_slot = 2, num_cpus = 1, num_processes = 1, memramsz = 1024, memswpsz = [1024, 0, 0, 0],
     ld_path = [''p''], ld_start_time = [0], ld_prio = [3]\<rparr>"

definition demo_memory :: ld_memory where
  "demo_memory = \<lparr>new_ref = 7, new_pcb = demo_junk, new_text = (\<lambda>_. \<lparr>opcode = CALC, arg_0 = 0, arg_1 = 0, arg_2 = 0, arg_3 = 0\<rparr>),
     new_mm = demo_user_mm, new_frees = [], new_mode = 0\<rparr>"

definition demo_files :: "string \<Rightarrow> string option" where
  "demo_files = [''p'' \<mapsto> ''0 0'']"

lemma demo_load: "\<exists>pcb. load demo_files demo_junk tx 1 ''p'' = done_with (pcb, 2)"
proof -
  have "scan_ints 2 ''0 0'' = ([0, 0], [])" by code_simp
  then show ?thesis by (simp add: load_def demo_files_def store_unsigned_def)
qed

lemma demo_loaded:
  "\<exists>s pcb. os_reach demo_files demo_cfg s \<and> procs (mach s) 7 = Some pcb"
proof -
  let ?s = "os_start demo_cfg blank_dev"
  obtain pcb where l: "load demo_files demo_junk (new_text demo_memory) 1 ''p'' = done_with (pcb, 2)" using demo_load by blast
  have p: "procs (mach ?s) = Map.empty" by (simp add: os_start_def start_machine_def)
  have r: "ld_ready demo_cfg ?s" by (simp add: ld_ready_def os_start_def)
  have "\<exists>s'. ld_step demo_files demo_cfg demo_memory ?s = done_with s' \<and> (\<exists>c. procs (mach s') 7 = Some c)"
    using l by (simp add: ld_step_def os_start_def demo_cfg_def n_procs_def demo_memory_def Let_def)
  then obtain s' c where s': "ld_step demo_files demo_cfg demo_memory ?s = done_with s'" "procs (mach s') 7 = Some c" by blast
  have "os_step demo_files demo_cfg ?s s'"
    by (rule os_step.ld [OF r _ _ s'(1)]) (simp_all add: p demo_memory_def demo_junk_def)
  then have "os_reach demo_files demo_cfg s'" by (rule os_reach.step [OF os_reach.start])
  then show ?thesis using s'(2) by blast
qed

theorem no_dangling_process_witness:
  "\<exists>s. os_reach demo_files demo_cfg s \<and> procs (mach s) 7 \<noteq> None \<and>
     sched_find_proc_by_pid (k_sched (mach s), procs (mach s)) 1 \<noteq> None"
proof -
  obtain s pcb where s: "os_reach demo_files demo_cfg s" "procs (mach s) 7 = Some pcb" using demo_loaded by blast
  have "sched_find_proc_by_pid (k_sched (mach s), procs (mach s)) 1 \<noteq> None" using no_dangling_process [OF s(1)] by blast
  then show ?thesis using s by blast
qed

theorem no_process_lost_witness:
  "\<exists>s. os_reach demo_files demo_cfg s \<and> ((\<exists>q < MAX_PRIO. 7 \<in> set (mlq_procs (k_sched (mach s)) q)) \<or>
    (\<exists>i < n_cpus demo_cfg. cpu_proc (cpus s i) = Some 7 \<and> cpu_pc (cpus s i) \<noteq> CGet) \<or> ld_proc (loader s) = Some 7)"
proof -
  obtain s pcb where s: "os_reach demo_files demo_cfg s" "procs (mach s) 7 = Some pcb" using demo_loaded by blast
  have "num_processes demo_cfg \<le> 50" by (simp add: demo_cfg_def)
  then show ?thesis using no_process_lost [OF s(1) _ s(2)] s(1) by blast
qed

end
