(* ===== verification/Simulator.thy ===== *)
theory Simulator
  imports Ownership
begin

text \<open>
  The threads of the simulator together: they use the timer as devices of the barrier of \<^verbatim>\<open>Timer\<close>, so
  they run in step and do not deadlock; a time slice is bounded; and a CPU that is idle when the last
  process has ended never stops.
\<close>

section \<open>The threads are devices of the barrier\<close>

fun cpu_phase :: "cpu_pc \<Rightarrow> phase" where
  "cpu_phase CWait = Waiting"
| "cpu_phase CStopped = Detached"
| "cpu_phase _ = Working"

fun ld_phase :: "ld_pc \<Rightarrow> phase" where
  "ld_phase LTimeWait = Waiting"
| "ld_phase LWait = Waiting"
| "ld_phase LEnded = Detached"
| "ld_phase _ = Working"

definition os_phase :: "config \<Rightarrow> os_state \<Rightarrow> nat \<Rightarrow> phase" where
  "os_phase cfg s i = (if i < n_cpus cfg then cpu_phase (cpu_pc (cpus s i)) else ld_phase (ld_pc (loader s)))"

text \<open>\<open>s\<close> looks to the timer as \<open>b\<close> does.\<close>

definition refines :: "config \<Rightarrow> os_state \<Rightarrow> barrier \<Rightarrow> bool" where
  "refines cfg s b \<longleftrightarrow> breach (Suc (n_cpus cfg)) b \<and> timer b = tm s \<and> (\<forall>i \<le> n_cpus cfg. dev_phase b i = os_phase cfg s i)"

lemma cpu_local_pc:
  assumes "local_pc c" "cpu_local cfg don m c = Some (m1, c1)"
  shows "cpu_phase (cpu_pc c1) = Working"
  using assms
  by (cases "cpu_pc c")
     (auto simp: cpu_local_def cpu_top_def cpu_check_def bind_Some_iff Let_def split: option.splits if_splits prod.splits)

lemma refines_same:
  "refines cfg s b \<Longrightarrow> tm s' = tm s \<Longrightarrow> \<forall>i \<le> n_cpus cfg. os_phase cfg s' i = os_phase cfg s i \<Longrightarrow> refines cfg s' b"
  by (simp add: refines_def)

lemma refines_step:
  assumes "refines cfg s b" "bstep b b'" "timer b' = tm s'" "\<forall>i \<le> n_cpus cfg. dev_phase b' i = os_phase cfg s' i"
  shows "refines cfg s' b'"
  using assms breach.step by (auto simp: refines_def)

lemma refines_dev: "refines cfg s b \<Longrightarrow> i \<le> n_cpus cfg \<Longrightarrow> i \<in> set (dev_list (timer b))"
  unfolding refines_def using breach_devices by fastforce

text \<open>The three moves of a device, whichever thread makes them.\<close>

lemma refines_arrive:
  assumes r: "refines cfg s b" and i: "i \<le> n_cpus cfg" "os_phase cfg s i = Working" "tm s' = next_slot_arrive (tm s) i"
    "\<forall>j \<le> n_cpus cfg. os_phase cfg s' j = (if j = i then Waiting else os_phase cfg s j)"
  shows "\<exists>b'. refines cfg s' b'"
proof -
  have "bstep b (b\<lparr>timer := next_slot_arrive (timer b) i, dev_phase := (dev_phase b)(i := Waiting)\<rparr>)"
    using r i by (intro bstep.arrive refines_dev [OF r]) (auto simp: refines_def)
  then show ?thesis using r i by (intro exI) (erule refines_step [OF r], auto simp: refines_def)
qed

lemma refines_leave:
  assumes r: "refines cfg s b" and i: "i \<le> n_cpus cfg" "os_phase cfg s i = Working" "tm s' = detach_event (tm s) i"
    "\<forall>j \<le> n_cpus cfg. os_phase cfg s' j = (if j = i then Detached else os_phase cfg s j)"
  shows "\<exists>b'. refines cfg s' b'"
proof -
  have "bstep b (b\<lparr>timer := detach_event (timer b) i, dev_phase := (dev_phase b)(i := Detached)\<rparr>)"
    using r i by (intro bstep.leave refines_dev [OF r]) (auto simp: refines_def)
  then show ?thesis using r i by (intro exI) (erule refines_step [OF r], auto simp: refines_def)
qed

lemma refines_proceed:
  assumes r: "refines cfg s b" and i: "i \<le> n_cpus cfg" "os_phase cfg s i = Waiting" "tm s' = tm s" "next_slot_returns (tm s) i"
    "\<forall>j \<le> n_cpus cfg. os_phase cfg s' j = (if j = i then Working else os_phase cfg s j)"
  shows "\<exists>b'. refines cfg s' b'"
proof -
  have "bstep b (b\<lparr>dev_phase := (dev_phase b)(i := Working), passed := (passed b)(i := Suc (passed b i))\<rparr>)"
    using r i by (intro bstep.proceed refines_dev [OF r]) (auto simp: refines_def)
  then show ?thesis using r i by (intro exI) (erule refines_step [OF r], auto simp: refines_def)
qed

lemma refines_cpu:
  assumes r: "refines cfg s b" and i: "i < n_cpus cfg" and rd: "cpu_ready s i" and st: "cpu_step cfg i s = Some s'"
  shows "\<exists>b'. refines cfg s' b'"
proof -
  have ph: "os_phase cfg s i = cpu_phase (cpu_pc (cpus s i))" using i by (simp add: os_phase_def)
  have other: "os_phase cfg s' j = (if j = i then cpu_phase (cpu_pc (cpus s' i)) else os_phase cfg s j)"
    if "cpus s' = (cpus s)(i := c)" "loader s' = loader s" for c j
    using i that by (simp add: os_phase_def)
  consider "cpu_pc (cpus s i) = CNext" | "cpu_pc (cpus s i) = CWait" | "cpu_pc (cpus s i) = CStop" | "local_pc (cpus s i)"
    using rd by (cases "cpu_pc (cpus s i)") (auto simp: cpu_ready_def)
  then show ?thesis
  proof cases
    case 1
    then have s': "tm s' = next_slot_arrive (tm s) i" "cpus s' = (cpus s)(i := (cpus s i)\<lparr>cpu_pc := CWait\<rparr>)" "loader s' = loader s"
      using st by (auto simp: cpu_step_def)
    show ?thesis by (rule refines_arrive [OF r, of i]) (use i 1 ph s' other [OF s'(2,3)] in auto)
  next
    case 2
    then have s': "tm s' = tm s" "cpus s' = (cpus s)(i := (cpus s i)\<lparr>cpu_pc := CTop\<rparr>)" "loader s' = loader s"
      using st by (auto simp: cpu_step_def)
    show ?thesis by (rule refines_proceed [OF r, of i]) (use i 2 rd ph s' other [OF s'(2,3)] in \<open>auto simp: cpu_ready_def\<close>)
  next
    case 3
    then have s': "tm s' = detach_event (tm s) i" "cpus s' = (cpus s)(i := (cpus s i)\<lparr>cpu_pc := CStopped\<rparr>)" "loader s' = loader s"
      using st by (auto simp: cpu_step_def)
    show ?thesis by (rule refines_leave [OF r, of i]) (use i 3 ph s' other [OF s'(2,3)] in auto)
  next
    case 4
    then obtain m1 c1 where l: "cpu_local cfg (os_done s) (mach s) (cpus s i) = Some (m1, c1)" "s' = s\<lparr>mach := m1, cpus := (cpus s)(i := c1)\<rparr>"
      using st by (auto simp: cpu_step_def)
    have w: "cpu_phase (cpu_pc (cpus s i)) = Working" using 4 by auto
    have "os_phase cfg s' j = os_phase cfg s j" for j
      using other [of c1 j] l(2) cpu_local_pc [OF 4 l(1)] w ph by simp
    then have "refines cfg s' b" using l(2) by (intro refines_same [OF r]) auto
    then show ?thesis by blast
  qed
qed

lemma refines_ld:
  assumes r: "refines cfg s b" and rd: "ld_ready cfg s" and st: "ld_step files cfg j s = done_with s'"
  shows "\<exists>b'. refines cfg s' b'"
proof -
  let ?n = "n_cpus cfg"
  have ph: "os_phase cfg s ?n = ld_phase (ld_pc (loader s))" by (simp add: os_phase_def)
  have other: "\<forall>k \<le> ?n. os_phase cfg s' k = (if k = ?n then ld_phase (ld_pc (loader s')) else os_phase cfg s k)" if "cpus s' = cpus s"
    using that by (auto simp: os_phase_def)
  have same: "\<exists>b'. refines cfg s' b'" if "cpus s' = cpus s" "tm s' = tm s" "ld_phase (ld_pc (loader s')) = ld_phase (ld_pc (loader s))"
    using refines_same [OF r that(2)] other [OF that(1)] that(3) ph by (metis (no_types, lifting))
  from st show ?thesis
  proof (cases rule: ld_step_cases)
    case (load proc a) then show ?thesis by (intro same) auto
  next
    case (init r mm) then show ?thesis by (intro same) auto
  next
    case (add sch pcbs) then show ?thesis by (intro same) auto
  next
    case (move l')
    have t: "tm s' = (if ld_pc (loader s) \<in> {LTimeNext, LNext} then next_slot_arrive (tm s) ?n
        else if ld_pc (loader s) = LStop then detach_event (tm s) ?n else tm s)"
      using st move(1) move(6) by (auto simp: ld_step_def)
    consider "ld_pc (loader s) \<in> {LTimeNext, LNext}" | "ld_pc (loader s) \<in> {LTimeWait, LWait}" | "ld_pc (loader s) = LStop"
      | "ld_pc (loader s) \<in> {LTop, LTime, LDone}" using move(1) by auto
    then show ?thesis
    proof cases
      case 1
      then have "tm s' = next_slot_arrive (tm s) ?n" "os_phase cfg s ?n = Working" "ld_phase (ld_pc (loader s')) = Waiting"
        using t ph move(1,4) by auto
      then show ?thesis using refines_arrive [OF r le_refl] other [OF move(3)] by simp
    next
      case 2
      then have "tm s' = tm s" "os_phase cfg s ?n = Waiting" "ld_phase (ld_pc (loader s')) = Working" "next_slot_returns (tm s) ?n"
        using t ph move(1,4) rd by (auto simp: ld_ready_def)
      then show ?thesis using refines_proceed [OF r le_refl] other [OF move(3)] by simp
    next
      case 3
      then have "tm s' = detach_event (tm s) ?n" "os_phase cfg s ?n = Working" "ld_phase (ld_pc (loader s')) = Detached"
        using t ph move(1,4) by auto
      then show ?thesis using refines_leave [OF r le_refl] other [OF move(3)] by simp
    next
      case 4 show ?thesis by (rule same) (use 4 t move in auto)
    qed
  qed
qed

lemma refines_start: "refines cfg (os_start cfg dev) (start_barrier (Suc (n_cpus cfg)))"
proof -
  have "timer (start_barrier (Suc (n_cpus cfg))) = tm (os_start cfg dev)" by (simp add: start_barrier_def os_start_def)
  moreover have "dev_phase (start_barrier (Suc (n_cpus cfg))) i = os_phase cfg (os_start cfg dev) i" for i
    by (simp add: start_barrier_def os_phase_def os_start_def)
  ultimately show ?thesis by (simp add: refines_def breach.start)
qed

lemma os_refines: "os_reach files cfg s \<Longrightarrow> \<exists>b. refines cfg s b"
proof (induction rule: os_reach.induct)
  case (start dev) show ?case using refines_start by blast
next
  case (step s s')
  then obtain b where b: "refines cfg s b" by blast
  from step.hyps(2) show ?case
  proof (cases rule: os_step.cases)
    case (cpu i) then show ?thesis using refines_cpu [OF b] by blast
  next
    case (ld j) then show ?thesis using refines_ld [OF b] by blast
  next
    case (tick t)
    have "bstep b (b\<lparr>timer := t\<rparr>)" using b tick by (intro bstep.tick) (simp add: refines_def)
    then have "refines cfg s' (b\<lparr>timer := t\<rparr>)"
      using b tick by (intro refines_step [OF b]) (auto simp: refines_def os_phase_def)
    then show ?thesis by blast
  qed
qed

text \<open>
  Property C10: the simulator refines the barrier. Every reachable state of the simulator is, seen from
  the timer, a reachable state of the barrier of \<open>num_cpus + 1\<close> devices in which CPU \<open>i\<close> is device \<open>i\<close>, the
  loader is the last one, a thread inside \<^verbatim>\<open>next_slot\<close> waits and a thread that ended has detached. So
  the threads are never more than one time slot apart.
\<close>

theorem simulator_refines_barrier:
  assumes "os_reach files cfg s"
  shows "\<exists>b. breach (Suc (n_cpus cfg)) b \<and> timer b = tm s \<and>
    (\<forall>i < n_cpus cfg. dev_phase b i = cpu_phase (cpu_pc (cpus s i))) \<and>
    dev_phase b (n_cpus cfg) = ld_phase (ld_pc (loader s))"
proof -
  obtain b where "refines cfg s b" using os_refines [OF assms] by blast
  then have "breach (Suc (n_cpus cfg)) b" "timer b = tm s" "\<forall>i < n_cpus cfg. dev_phase b i = cpu_phase (cpu_pc (cpus s i))"
      "dev_phase b (n_cpus cfg) = ld_phase (ld_pc (loader s))"
    by (auto simp: refines_def os_phase_def)
  then show ?thesis by blast
qed

theorem simulator_refines_barrier_witness:
  "\<exists>s b. os_reach demo_files demo_cfg s \<and> procs (mach s) 7 \<noteq> None \<and> breach (Suc (n_cpus demo_cfg)) b \<and> timer b = tm s"
proof -
  obtain s pcb where s: "os_reach demo_files demo_cfg s" "procs (mach s) 7 = Some pcb" using demo_loaded by blast
  then show ?thesis using simulator_refines_barrier [OF s(1)] by blast
qed

text \<open>
  Property C9: the simulator does not deadlock. In every reachable state the timer can take a step,
  or some CPU or the loader is not blocked; otherwise all threads have ended, and \<^verbatim>\<open>main\<close>, which waits for
  them, joins them and finishes.
\<close>

theorem simulator_no_deadlock:
  assumes "os_reach files cfg s"
  shows "timer_step (tm s) \<noteq> None \<or> (\<exists>i < n_cpus cfg. cpu_ready s i) \<or> ld_ready cfg s \<or>
    (all_joined cfg s \<and> main_finish s \<noteq> None)"
proof -
  let ?n = "n_cpus cfg"
  obtain b where r: "refines cfg s b" using os_refines [OF assms] by blast
  then have b: "breach (Suc ?n) b" "timer b = tm s" and ph: "\<And>i. i \<le> ?n \<Longrightarrow> dev_phase b i = os_phase cfg s i"
    by (auto simp: refines_def)
  have cpu: "cpu_ready s i" if "i < ?n" "os_phase cfg s i = Working \<or> (os_phase cfg s i = Waiting \<and> next_slot_returns (tm s) i)" for i
    using that by (cases "cpu_pc (cpus s i)") (auto simp: os_phase_def cpu_ready_def)
  have ld: "ld_ready cfg s" if "os_phase cfg s ?n = Working \<or> (os_phase cfg s ?n = Waiting \<and> next_slot_returns (tm s) ?n)"
    using that by (cases "ld_pc (loader s)") (auto simp: os_phase_def ld_ready_def)
  note prog = barrier_no_deadlock [OF b(1), unfolded b(2)]
  show ?thesis
  proof (cases "tpc (tm s) = TEnded")
    case True
    then have det: "os_phase cfg s i = Detached" if "i \<le> ?n" for i using prog ph that by (simp add: less_Suc_eq_le)
    have "cpu_pc (cpus s i) = CStopped" if "i < ?n" for i
      using det [of i] that by (cases "cpu_pc (cpus s i)") (auto simp: os_phase_def)
    moreover have "ld_pc (loader s) = LEnded"
      using det [of ?n] by (cases "ld_pc (loader s)") (auto simp: os_phase_def)
    ultimately show ?thesis using True by (simp add: all_joined_def main_finish_def timer_joined_def stop_timer_def)
  next
    case False
    with prog consider "timer_step (tm s) \<noteq> None"
      | i where "i < Suc ?n" "os_phase cfg s i = Working \<or> (os_phase cfg s i = Waiting \<and> next_slot_returns (tm s) i)"
      using ph by (auto simp: less_Suc_eq_le)
    then show ?thesis
    proof cases
      case 2 then show ?thesis using cpu [of i] ld by (cases "i = ?n") (auto simp: less_Suc_eq)
    qed simp
  qed
qed

theorem simulator_no_deadlock_witness:
  "\<exists>s. os_reach demo_files demo_cfg s \<and> procs (mach s) 7 \<noteq> None \<and> (timer_step (tm s) \<noteq> None \<or>
     (\<exists>i < n_cpus demo_cfg. cpu_ready s i) \<or> ld_ready demo_cfg s \<or> (all_joined demo_cfg s \<and> main_finish s \<noteq> None))"
proof -
  obtain s pcb where s: "os_reach demo_files demo_cfg s" "procs (mach s) 7 = Some pcb" using demo_loaded by blast
  then show ?thesis using simulator_no_deadlock [OF s(1)] by blast
qed

section \<open>The time slice\<close>

definition slice_ok :: "config \<Rightarrow> cpu_state \<Rightarrow> bool" where
  "slice_ok cfg c \<longleftrightarrow> 0 \<le> time_left c \<and> time_left c \<le> time_slot cfg \<and>
     (cpu_pc c \<in> {CPut, CGet} \<or> cpu_proc c = None \<longrightarrow> time_left c = 0)"

lemma slice_local:
  assumes "slice_ok cfg c" "0 < time_slot cfg" "local_pc c" "cpu_local cfg don m c = Some (m1, c1)"
  shows "slice_ok cfg c1"
proof -
  from assms(3) consider "cpu_pc c = CTop" | "cpu_pc c = CRemove" | "cpu_pc c = CFree" | "cpu_pc c = CPut" | "cpu_pc c = CGet"
    | "cpu_pc c = CCheck" by auto
  then show ?thesis
    using assms
    by cases (auto simp: slice_ok_def cpu_local_def cpu_top_def cpu_check_def bind_Some_iff Let_def split: option.splits prod.splits if_splits)
qed

lemma slice_reach:
  assumes "os_reach files cfg s" "0 < time_slot cfg"
  shows "\<forall>i. slice_ok cfg (cpus s i)"
  using assms
proof (induction rule: os_reach.induct)
  case (start dev) then show ?case by (simp add: os_start_def slice_ok_def)
next
  case (step s s')
  note IH = step.IH [OF step.prems]
  from step.hyps(2) show ?case
  proof (cases rule: os_step.cases)
    case (cpu i)
    show ?thesis
    proof (cases "local_pc (cpus s i)")
      case True
      then obtain m1 c1 where "cpu_local cfg (os_done s) (mach s) (cpus s i) = Some (m1, c1)" "s' = s\<lparr>mach := m1, cpus := (cpus s)(i := c1)\<rparr>"
        using cpu by (auto simp: cpu_step_def)
      then show ?thesis using IH slice_local [OF _ step.prems True] by auto
    next
      case False
      then show ?thesis using IH cpu by (cases "cpu_pc (cpus s i)") (auto simp: cpu_step_def slice_ok_def)
    qed
  next
    case (ld j)
    from ld(4) show ?thesis by (cases rule: ld_step_cases) (use IH in auto)
  next
    case (tick t) then show ?thesis using IH by simp
  qed
qed

text \<open>
  Property C16: the time slice. With a positive \<^verbatim>\<open>time_slot\<close>, in every reachable state \<^verbatim>\<open>time_left\<close> of each CPU
  is between 0 and \<^verbatim>\<open>time_slot\<close>; a process is put back only when it is 0, and it is 0 whenever a CPU asks
  for a new process. So every dispatched process has a full slice, executes at most \<^verbatim>\<open>time_slot\<close>
  instructions before it is put back, and the decrement never overflows.
\<close>

theorem time_slice_bounds:
  assumes "os_reach files cfg s" "0 < time_slot cfg" "i < n_cpus cfg"
  shows "0 \<le> time_left (cpus s i) \<and> time_left (cpus s i) \<le> time_slot cfg \<and>
    (cpu_pc (cpus s i) \<in> {CPut, CGet} \<or> cpu_proc (cpus s i) = None \<longrightarrow> time_left (cpus s i) = 0)"
  using slice_reach [OF assms(1,2)] by (simp add: slice_ok_def)

theorem time_slice_bounds_witness:
  "\<exists>s. os_reach demo_files demo_cfg s \<and> procs (mach s) 7 \<noteq> None \<and> time_left (cpus s 0) \<le> 2"
proof -
  obtain s pcb where s: "os_reach demo_files demo_cfg s" "procs (mach s) 7 = Some pcb" using demo_loaded by blast
  then show ?thesis using time_slice_bounds [OF s(1), of 0] by (auto simp: demo_cfg_def n_cpus_def)
qed

section \<open>The end of a simulation\<close>

definition idle :: "cpu_state \<Rightarrow> bool" where
  "idle c \<longleftrightarrow> cpu_pc c \<in> {CTop, CNext, CWait} \<and> cpu_proc c = None"

definition over :: "nat \<Rightarrow> os_state \<Rightarrow> bool" where
  "over i s \<longleftrightarrow> ld_pc (loader s) = LEnded \<and> procs (mach s) = Map.empty \<and> idle (cpus s i)"

lemma get_proc_none:
  assumes "own_inv n s" "procs (mach s) = Map.empty"
  shows "get_proc (k_sched (mach s)) = (None, k_sched (mach s))"
proof -
  have wf: "wf_sched (k_sched (mach s))" using assms(1) by (simp add: own_inv_def)
  have "mlq_procs (k_sched (mach s)) q = []" if "q < MAX_PRIO" for q
  proof (rule ccontr)
    assume "mlq_procs (k_sched (mach s)) q \<noteq> []"
    then have "0 < waiting (k_sched (mach s)) (hd (mlq_procs (k_sched (mach s)) q))" using that waiting_iff by fastforce
    then show False using assms by (auto simp: own_inv_def owners_def)
  qed
  then show ?thesis using get_mlq_proc_shape [OF wf] by (auto simp: get_proc_def)
qed

lemma over_step:
  assumes inv: "os_inv (n_cpus cfg) (n_procs cfg) s" and st: "os_step files cfg s s'" and ov: "over i s"
  shows "over i s'"
  using st
proof (cases rule: os_step.cases)
  case (cpu j)
  have own: "own_inv (n_cpus cfg) s" using inv by (simp add: os_inv_def)
  show ?thesis
  proof (cases "local_pc (cpus s j)")
    case True
    then obtain m1 c1 where l: "cpu_local cfg (os_done s) (mach s) (cpus s j) = Some (m1, c1)" "s' = s\<lparr>mach := m1, cpus := (cpus s)(j := c1)\<rparr>"
      using cpu by (auto simp: cpu_step_def)
    have "cpu_ok (cpus s j)" "wf_sched (k_sched (mach s))" using own cpu(1) by (simp_all add: own_inv_def)
    then have "local_effect (mach s) (cpus s j) m1 c1" using cpu_local_effect True l(1) by blast
    then have "\<forall>r. (procs m1 r = None) = (procs (mach s) r = None \<or> freeing (cpus s j) r)" unfolding local_effect_def by blast
    then have e: "procs m1 = Map.empty" using ov by (auto simp: over_def)
    have "idle c1" if "j = i"
      using l(1) ov True that get_proc_none [OF own] by (auto simp: over_def idle_def cpu_local_def cpu_top_def)
    then show ?thesis using e ov l(2) by (auto simp: over_def)
  next
    case False
    have "idle (cpus s' i)"
      using False cpu(3) ov by (cases "cpu_pc (cpus s j)"; cases "j = i") (auto simp: cpu_step_def idle_def over_def)
    moreover have "mach s' = mach s \<and> loader s' = loader s"
      using False cpu(3) by (cases "cpu_pc (cpus s j)") (auto simp: cpu_step_def)
    ultimately show ?thesis using ov by (simp add: over_def)
  qed
next
  case (ld j) then show ?thesis using ov by (simp add: over_def ld_ready_def)
next
  case (tick t) then show ?thesis using ov by (simp add: over_def)
qed

text \<open>
  Property C14: an idle CPU never stops. When the loader has ended and no process is left, a CPU that
  is idle, at the top of its loop or in the \<^verbatim>\<open>next_slot\<close> of its first test, stays so for ever: the
  \<^verbatim>\<open>continue\<close> of that test skips the test of \<^verbatim>\<open>done\<close>. Then \<^verbatim>\<open>main\<close> never gets past the joins: the
  simulator does not end.
\<close>

theorem idle_cpu_never_stops:
  assumes "os_reach files cfg s" "ld_pc (loader s) = LEnded" "procs (mach s) = Map.empty"
    and "i < n_cpus cfg" "cpu_proc (cpus s i) = None" "cpu_pc (cpus s i) \<in> {CTop, CNext, CWait}"
    and "(os_step files cfg)\<^sup>*\<^sup>* s s'"
  shows "cpu_proc (cpus s' i) = None \<and> cpu_pc (cpus s' i) \<in> {CTop, CNext, CWait} \<and> \<not> all_joined cfg s'"
proof -
  have "over i s" using assms by (simp add: over_def idle_def)
  with assms(7,1) have "os_reach files cfg s' \<and> over i s'"
    by (induction rule: rtranclp_induct) (auto intro: over_step [OF os_reach_inv] os_reach.step)
  then show ?thesis using assms(4) by (auto simp: over_def idle_def all_joined_def)
qed

text \<open>One CPU and nothing to run: the loader ends before the CPU has looked for a process.\<close>

definition empty_cfg :: config where
  "empty_cfg = demo_cfg\<lparr>num_processes := 0\<rparr>"

lemma ld_step_end:
  "ld_pc (loader s) = LTop \<Longrightarrow> n_procs cfg \<le> ld_i (loader s) \<Longrightarrow> ld_step files cfg j s = done_with (set_loader s LDone)"
  "ld_pc (loader s) = LDone \<Longrightarrow> ld_step files cfg j s = done_with ((set_loader s LStop)\<lparr>os_done := True\<rparr>)"
  "ld_pc (loader s) = LStop \<Longrightarrow> ld_step files cfg j s = done_with ((set_loader s LEnded)\<lparr>tm := detach_event (tm s) (n_cpus cfg)\<rparr>)"
  by (simp_all add: ld_step_def)

lemma empty_loader_step:
  assumes "os_reach demo_files empty_cfg s" "ld_pc (loader s) \<in> {LTop, LDone, LStop}"
    "procs (mach s) = Map.empty" "ld_step demo_files empty_cfg demo_memory s = done_with s'"
  shows "os_reach demo_files empty_cfg s'"
proof -
  have "ld_ready empty_cfg s" using assms(2) by (auto simp: ld_ready_def)
  then have "os_step demo_files empty_cfg s s'"
    by (rule os_step.ld [OF _ _ _ assms(4)]) (simp_all add: assms(3) demo_memory_def demo_junk_def)
  then show ?thesis by (rule os_reach.step [OF assms(1)])
qed

lemma empty_reach:
  "\<exists>s. os_reach demo_files empty_cfg s \<and> ld_pc (loader s) = LEnded \<and> procs (mach s) = Map.empty \<and> cpus s = cpus (os_start empty_cfg blank_dev)"
proof -
  let ?s0 = "os_start empty_cfg blank_dev"
  let ?s1 = "set_loader ?s0 LDone" let ?s2 = "(set_loader ?s1 LStop)\<lparr>os_done := True\<rparr>"
  let ?s3 = "(set_loader ?s2 LEnded)\<lparr>tm := detach_event (tm ?s2) (n_cpus empty_cfg)\<rparr>"
  have p: "procs (mach ?s0) = Map.empty" "ld_pc (loader ?s0) = LTop" by (simp_all add: os_start_def start_machine_def)
  have "n_procs empty_cfg = 0" by (simp add: n_procs_def empty_cfg_def)
  then have "ld_step demo_files empty_cfg demo_memory ?s0 = done_with ?s1" using p by (simp add: ld_step_end)
  then have 1: "os_reach demo_files empty_cfg ?s1" using empty_loader_step [OF os_reach.start [of demo_files empty_cfg blank_dev]] p by simp
  have "ld_step demo_files empty_cfg demo_memory ?s1 = done_with ?s2" by (simp add: ld_step_end)
  then have 2: "os_reach demo_files empty_cfg ?s2" using empty_loader_step [OF 1] p by simp
  have "ld_step demo_files empty_cfg demo_memory ?s2 = done_with ?s3" by (simp add: ld_step_end)
  then have 3: "os_reach demo_files empty_cfg ?s3" using empty_loader_step [OF 2] p by simp
  then show ?thesis using p by (intro exI [of _ ?s3]) simp
qed

theorem idle_cpu_never_stops_witness:
  "\<exists>s. os_reach demo_files empty_cfg s \<and> (\<forall>s'. (os_step demo_files empty_cfg)\<^sup>*\<^sup>* s s' \<longrightarrow> \<not> all_joined empty_cfg s')"
proof -
  obtain s where s: "os_reach demo_files empty_cfg s" "ld_pc (loader s) = LEnded" "procs (mach s) = Map.empty"
      "cpus s = cpus (os_start empty_cfg blank_dev)" using empty_reach by blast
  have i: "0 < n_cpus empty_cfg" by (simp add: n_cpus_def empty_cfg_def demo_cfg_def)
  have c: "cpu_proc (cpus s 0) = None" "cpu_pc (cpus s 0) \<in> {CTop, CNext, CWait}" using s(4) by (simp_all add: os_start_def)
  show ?thesis using idle_cpu_never_stops [OF s(1,2,3) i c] s(1) by blast
qed

end
