(* ===== verification/Isolation.thy ===== *)
theory Isolation
  imports Cpu
begin

text \<open>
  Memory isolation: the invariant \<open>sep\<close> says that every frame of RAM is free or behind exactly one
  page of one process, and that no page is swapped out; \<open>user_view\<close> is the memory a process sees
  through its page table. The theorems: every instruction keeps \<open>sep\<close>, and an instruction of one
  process leaves what the others see as it was, unless it is the raw write of system call 17.
\<close>

section \<open>Frames and views\<close>

definition frame_at :: "mm_struct \<Rightarrow> addr_t \<Rightarrow> addr_t option" where
  "frame_at mm pgn =
     (if PAGING_PAGE_PRESENT (ucast (pte_at mm pgn)) then Some (ucast (PAGING_FPN (ucast (pte_at mm pgn)))) else None)"

text \<open>The byte of RAM behind a user address of process \<open>q\<close>.\<close>

definition user_view :: "machine \<Rightarrow> pref \<Rightarrow> addr_t \<Rightarrow> byte option" where
  "user_view m q addr =
     do { mm \<leftarrow> the_mm m q; f \<leftarrow> frame_at mm (addr div 256); load_byte (k_mram m) (f * 256 + addr mod 256) }"

text \<open>What a process has: its memory descriptor and the bytes behind its addresses.\<close>

definition space_of :: "machine \<Rightarrow> pref \<Rightarrow> mm_struct option \<times> (addr_t \<Rightarrow> byte option)" where
  "space_of m q = (the_mm m q, user_view m q)"

lemma space_of_eq: "space_of m' q = space_of m q \<longleftrightarrow> the_mm m' q = the_mm m q \<and> user_view m' q = user_view m q"
  by (simp add: space_of_def)

text \<open>
  The address space of a process: one area with a page-aligned break, no page in swap, no page
  mapped at or above the break, and a symbol table of 30 regions.
\<close>

definition space_ok :: "mm_struct \<Rightarrow> bool" where
  "space_ok mm \<longleftrightarrow> pt_ok mm \<and> length (symrgtbl mm) = PAGING_MAX_SYMTBL_SZ \<and>
     (\<forall>pgn. \<not> PAGING_PAGE_SWAPPED (ucast (pte_at mm pgn))) \<and>
     (\<exists>b. map sbrk (mmap mm) = [b] \<and> uint b mod 256 = 0 \<and> (\<forall>pgn. b div 256 \<le> pgn \<longrightarrow> frame_at mm pgn = None))"

text \<open>
  The pages of all processes with the frames behind them. \<open>X\<close> is the set of processes left out:
  the one the loader has not set up yet.
\<close>

definition frame_map :: "pref set \<Rightarrow> machine \<Rightarrow> pref \<times> addr_t \<Rightarrow> addr_t option" where
  "frame_map X m = (\<lambda>(r, pgn). if r \<in> X then None else Option.bind (the_mm m r) (\<lambda>mm. frame_at mm pgn))"

definition ram_ok :: "memphy_struct \<Rightarrow> bool" where
  "ram_ok ram \<longleftrightarrow> wf_dev ram \<and> num_frames ram \<le> 8192 \<and> frames_ok ram"

definition frames_sep :: "(pref \<times> addr_t \<Rightarrow> addr_t option) \<Rightarrow> memphy_struct \<Rightarrow> bool" where
  "frames_sep F ram \<longleftrightarrow> inj_on F (dom F) \<and> (\<forall>f \<in> ran F. uint f < num_frames ram \<and> f \<notin> set (free_fp_list ram))"

definition mem_sep :: "pref set \<Rightarrow> machine \<Rightarrow> bool" where
  "mem_sep X m \<longleftrightarrow> ram_ok (k_mram m) \<and> frames_sep (frame_map X m) (k_mram m) \<and>
     (\<forall>r mm. r \<notin> X \<longrightarrow> the_mm m r = Some mm \<longrightarrow> space_ok mm)"

text \<open>The invariant: besides, no system call can be made for a process of \<open>X\<close>.\<close>

definition sep :: "pref set \<Rightarrow> machine \<Rightarrow> bool" where
  "sep X m \<longleftrightarrow> mem_sep X m \<and>
     (\<forall>r n. r \<in> X \<longrightarrow> sched_find_proc_by_pid (k_sched m, procs m) n \<noteq> Some (Some r))"

text \<open>
  The frames in sight: those on the free list and those behind a page. As long as every frame of the
  device is in sight, none is lost.
\<close>

definition pool :: "pref set \<Rightarrow> machine \<Rightarrow> addr_t set" where
  "pool X m = set (free_fp_list (k_mram m)) \<union> ran (frame_map X m)"

lemma sep_def':
  "sep X m \<longleftrightarrow> ram_ok (k_mram m) \<and> frames_sep (frame_map X m) (k_mram m) \<and>
     (\<forall>r mm. r \<notin> X \<longrightarrow> the_mm m r = Some mm \<longrightarrow> space_ok mm) \<and>
     (\<forall>r n. r \<in> X \<longrightarrow> sched_find_proc_by_pid (k_sched m, procs m) n \<noteq> Some (Some r))"
  by (simp add: sep_def mem_sep_def)

lemma mem_sep_cong:
  assumes "k_mram m' = k_mram m" "the_mm m' = the_mm m"
  shows "mem_sep X m' = mem_sep X m" "pool X m' = pool X m"
  by (simp_all only: mem_sep_def pool_def frame_map_def assms)

lemma frame_map_Some:
  "frame_map X m (r, pgn) = Some f \<longleftrightarrow> r \<notin> X \<and> (\<exists>mm. the_mm m r = Some mm \<and> frame_at mm pgn = Some f)"
  by (auto simp: frame_map_def bind_Some_iff)

lemma frame_bound: "frame_at mm pgn = Some f \<Longrightarrow> uint f < 8192"
  using PAGING_FPN_small [of "ucast (pte_at mm pgn)"]
  by (auto simp: frame_at_def unsigned_ucast_eq take_bit_int_eq_self split: if_splits)

section \<open>Changing one address space\<close>

text \<open>
  What the operations do to the frames of one process: some pages are unmapped (all outside \<open>D\<close>),
  and the pages of \<open>N\<close>, which had none, get frames off the free list.
\<close>

definition remap :: "mm_struct \<Rightarrow> memphy_struct \<Rightarrow> mm_struct \<Rightarrow> memphy_struct \<Rightarrow> bool" where
  "remap mm ram mm' ram' \<longleftrightarrow> (\<exists>D N. frame_at mm' = (frame_at mm |` D) ++ N \<and>
     inj_on N (dom N) \<and> ran N \<subseteq> set (free_fp_list ram) - set (free_fp_list ram')) \<and>
     ram' = ram\<lparr>free_fp_list := free_fp_list ram'\<rparr> \<and>
     set (free_fp_list ram') \<subseteq> set (free_fp_list ram) \<and> distinct (free_fp_list ram')"

lemma remapD:
  assumes "remap mm ram mm' ram'"
  shows "maxsz ram' = maxsz ram" "load_byte ram' = load_byte ram" "wf_dev ram' = wf_dev ram"
    "num_frames ram' = num_frames ram" "set (free_fp_list ram') \<subseteq> set (free_fp_list ram)" "distinct (free_fp_list ram')"
proof -
  have e: "ram' = ram\<lparr>free_fp_list := free_fp_list ram'\<rparr>" using assms by (simp add: remap_def)
  show "maxsz ram' = maxsz ram" by (subst e) simp
  show "load_byte ram' = load_byte ram" by (subst e) (simp add: load_byte_def fun_eq_iff)
  show "wf_dev ram' = wf_dev ram" by (subst e) (simp add: wf_dev_def)
  show "num_frames ram' = num_frames ram" by (subst e) (simp add: num_frames_def)
qed (use assms in \<open>auto simp: remap_def\<close>)

lemma remap_ram_ok: "remap mm ram mm' ram' \<Longrightarrow> ram_ok ram \<Longrightarrow> ram_ok ram'"
  using remapD [of mm ram mm' ram'] by (auto simp: ram_ok_def frames_ok_def)

lemma remap_frames:
  assumes r: "remap mm ram mm' ram'" and F: "frames_sep F ram" and ram: "ram_ok ram"
    and p: "\<And>pgn. F (p, pgn) = frame_at mm pgn" "\<And>pgn. F' (p, pgn) = frame_at mm' pgn"
    and other: "\<And>q pgn. q \<noteq> p \<Longrightarrow> F' (q, pgn) = F (q, pgn)"
  shows "frames_sep F' ram'"
proof -
  obtain D N where N: "frame_at mm' = (frame_at mm |` D) ++ N" "inj_on N (dom N)"
      "ran N \<subseteq> set (free_fp_list ram) - set (free_fp_list ram')"
    using r by (auto simp: remap_def)
  note rd = remapD [OF r]
  have fr: "\<forall>f \<in> set (free_fp_list ram). uint f < num_frames ram" using ram by (simp add: ram_ok_def frames_ok_def)
  have cases: "F x = Some f \<or> (fst x = p \<and> N (snd x) = Some f)" if "F' x = Some f" for x f
    using that p other N(1) by (cases x; cases "fst x = p") (auto simp: map_add_Some_iff restrict_map_def split: if_splits)
  have old: "uint f < num_frames ram \<and> f \<notin> set (free_fp_list ram)" if "F x = Some f" for x f
    using F that by (metis frames_sep_def ranI)
  have new: "f \<in> set (free_fp_list ram) \<and> f \<notin> set (free_fp_list ram')" if "N pgn = Some f" for pgn f
    using N(3) that by (auto simp: ran_def)
  have "uint f < num_frames ram' \<and> f \<notin> set (free_fp_list ram')" if "F' x = Some f" for x f
    using cases [OF that] old [of x f] new [of "snd x" f] fr rd(4,5) by auto
  moreover have "x = y" if xy: "F' x = Some f" "F' y = Some f" for x y f
  proof (cases "F x = Some f")
    case True
    then have "F y = Some f" using cases [OF xy(2)] old [OF True] new by blast
    with True F show ?thesis by (metis (mono_tags) domI frames_sep_def inj_onD)
  next
    case False
    then have x: "fst x = p" "N (snd x) = Some f" using cases [OF xy(1)] by blast+
    then have "F y \<noteq> Some f" using old new by blast
    then have y: "fst y = p" "N (snd y) = Some f" using cases [OF xy(2)] by blast+
    have "snd x = snd y" using x y N(2) by (metis domI inj_onD)
    then show ?thesis using x y by (simp add: prod_eq_iff)
  qed
  ultimately show ?thesis by (auto simp: frames_sep_def inj_on_def ran_def dom_def)
qed

lemma find_proc_set_mm: "sched_find_proc_by_pid (sch, procs (set_mm m p x)) n = sched_find_proc_by_pid (sch, procs m) n"
  using find_pid_cong [of "procs (set_mm m p x)" "procs m"] by (simp add: sched_find_proc_by_pid_def set_mm_pid)

lemma sep_set_mm:
  assumes s: "sep X m" and mm: "the_mm m p = Some mm" "p \<notin> X"
    and new: "space_ok mm'" "remap mm (k_mram m) mm' ram'"
  shows "sep X (set_mm (m\<lparr>k_mram := ram'\<rparr>) p (Some mm'))"
    and "q \<noteq> p \<Longrightarrow> space_of (set_mm (m\<lparr>k_mram := ram'\<rparr>) p (Some mm')) q = space_of m q"
    and "\<exists>F. pool X m = set (free_fp_list (k_mram m)) \<union> ran (frame_at mm) \<union> F \<and>
      pool X (set_mm (m\<lparr>k_mram := ram'\<rparr>) p (Some mm')) = set (free_fp_list ram') \<union> ran (frame_at mm') \<union> F"
proof -
  let ?m' = "set_mm (m\<lparr>k_mram := ram'\<rparr>) p (Some mm')"
  have t: "the_mm ?m' q = (if q = p then Some mm' else the_mm m q)" for q using mm(1) by simp
  have "frames_sep (frame_map X ?m') ram'"
    by (rule remap_frames [OF new(2), of "frame_map X m" p]) (use s t mm in \<open>auto simp: sep_def' frame_map_def\<close>)
  moreover have "ram_ok ram'" using remap_ram_ok [OF new(2)] s by (simp add: sep_def')
  ultimately show "sep X ?m'" using s t new(1) by (auto simp: sep_def' find_proc_set_mm)
  show "space_of ?m' q = space_of m q" if "q \<noteq> p"
    using remapD(2) [OF new(2)] t that by (simp add: space_of_eq user_view_def fun_eq_iff)
  have others: "{f. \<exists>q pgn. q \<noteq> p \<and> frame_map X ?m' (q, pgn) = Some f} = {f. \<exists>q pgn. q \<noteq> p \<and> frame_map X m (q, pgn) = Some f}"
  proof -
    have "frame_map X ?m' (q, pgn) = frame_map X m (q, pgn)" if "q \<noteq> p" for q pgn using that by (simp add: frame_map_def t)
    then show ?thesis by (simp cong: conj_cong)
  qed
  have "frame_at mm' = (\<lambda>pgn. frame_map X ?m' (p, pgn))" "frame_at mm = (\<lambda>pgn. frame_map X m (p, pgn))"
    using t mm by (simp_all add: frame_map_def)
  then have "ran (frame_map X ?m') = ran (frame_at mm') \<union> {f. \<exists>q pgn. q \<noteq> p \<and> frame_map X ?m' (q, pgn) = Some f}"
      "ran (frame_map X m) = ran (frame_at mm) \<union> {f. \<exists>q pgn. q \<noteq> p \<and> frame_map X m (q, pgn) = Some f}"
    by (auto simp: ran_def)
  then show "\<exists>F. pool X m = set (free_fp_list (k_mram m)) \<union> ran (frame_at mm) \<union> F \<and>
      pool X ?m' = set (free_fp_list ram') \<union> ran (frame_at mm') \<union> F"
    using others by (intro exI conjI) (simp_all add: pool_def Un_assoc)
qed

lemma like_frames: "like mm mm' \<Longrightarrow> frame_at mm' = frame_at mm"
  by (simp add: like_def frame_at_def fun_eq_iff)

lemma like_space: "like mm mm' \<Longrightarrow> space_ok mm \<Longrightarrow> space_ok mm'"
  using like_frames [of mm mm'] by (simp add: like_def space_ok_def)

lemma remap_same:
  assumes "frame_at mm' \<subseteq>\<^sub>m frame_at mm" "ram_ok ram"
  shows "remap mm ram mm' ram"
proof -
  have "frame_at mm' = (frame_at mm |` dom (frame_at mm')) ++ Map.empty"
    using assms(1) by (auto simp: fun_eq_iff restrict_map_def map_le_def)
  moreover have "inj_on Map.empty (dom Map.empty)" "ran Map.empty \<subseteq> set (free_fp_list ram) - set (free_fp_list ram)" by simp_all
  ultimately have "\<exists>D N. frame_at mm' = (frame_at mm |` D) ++ N \<and> inj_on N (dom N) \<and>
      ran N \<subseteq> set (free_fp_list ram) - set (free_fp_list ram)" by blast
  then show ?thesis using assms(2) by (simp add: remap_def ram_ok_def frames_ok_def)
qed


section \<open>Growing and marking\<close>

lemma page_pairs_member:
  "(pgn, f) \<in> set (page_pairs 0 s fr) \<Longrightarrow> \<exists>j < length fr. pgn = s + u64_of_int (int j) \<and> f = fr ! j"
  by (auto simp: page_pairs_def in_set_zip)

lemma frame_at_fpn: "pte_at mm pgn = fpn_pte e f \<Longrightarrow> uint f < 8192 \<Longrightarrow> frame_at mm pgn = Some f"
proof -
  assume e: "pte_at mm pgn = fpn_pte e f" and f: "uint f < 8192"
  have u: "unat f < 8192" using f uint_nat [of f] by linarith
  then have "take_bit 13 f = f" by (intro take_bit_word_self) simp
  moreover have "unat f < 2 ^ 32" using u by simp
  ultimately have "ucast (ucast (take_bit 13 f) :: u32) = f" using ucast_u32_back by simp
  then show ?thesis using fpn_pte_fields [of e f] by (simp add: frame_at_def e)
qed

text \<open>The new break, when the range was accepted and pages are mapped: no wrap-around.\<close>

lemma grown_break:
  assumes "b < b + u64_of_int n * 256" "0 < n" "in_int (n * 256)"
  shows "uint (b + u64_of_int n * 256) = uint b + n * 256"
    and "0 \<le> j \<Longrightarrow> j < n \<Longrightarrow> uint (b div 256 + u64_of_int j) = uint b div 256 + j"
proof -
  have n: "n * 256 < 2 ^ 31" using assms(3) by (simp add: in_int_def)
  then have un: "uint (u64_of_int n * 256) = n * 256" using assms(2) by (simp add: u64_of_int_def uint_word_ariths uint_word_of_int)
  moreover have "uint b + n * 256 < 2 ^ 64"
  proof (rule_tac ccontr)
    assume ge: "\<not> uint b + n * 256 < 2 ^ 64"
    have "uint b < 2 ^ 64" by (rule order_less_le_trans [OF uint_lt2p]) simp
    then have "(uint b + n * 256 - 2 ^ 64) mod 2 ^ 64 = uint b + n * 256 - 2 ^ 64"
      using ge n by (intro mod_pos_pos_trivial) simp_all
    then have "(uint b + n * 256) mod 2 ^ 64 = uint b + n * 256 - 2 ^ 64"
      using ge by (subst mod_pos_geq) simp_all
    moreover have "uint (b + u64_of_int n * 256) = (uint b + n * 256) mod 2 ^ 64"
      by (simp only: uint_word_ariths(1) un) simp
    ultimately show False using assms(1) n by (simp add: word_less_def)
  qed
  ultimately show u: "uint (b + u64_of_int n * 256) = uint b + n * 256" using assms(2) by (simp add: uint_word_ariths)
  show "uint (b div 256 + u64_of_int j) = uint b div 256 + j" if j: "0 \<le> j" "j < n"
  proof -
    have "uint b < 2 ^ 64" by (rule order_less_le_trans [OF uint_lt2p]) simp
    then have "uint b div 256 < 2 ^ 56" by simp
    moreover have "uint (u64_of_int j) = j" using j n by (intro uint_u64_of_int) simp_all
    moreover have "j < 2 ^ 31" using j n by simp
    moreover have "0 \<le> uint b div 256 + j" using j by (simp add: pos_imp_zdiv_nonneg_iff)
    ultimately show ?thesis by (simp add: uint_word_ariths uint_div mod_pos_pos_trivial)
  qed
qed

lemma break_aligned: "uint b mod 256 = 0 \<Longrightarrow> uint (b + x * 256) mod 256 = 0" for b :: addr_t
  by (simp add: uint_word_ariths mod_mod_cancel mod_simps)

text \<open>The effect of mapping fresh frames: \<open>ms\<close> pairs the new pages with frames off the free list.\<close>

lemma mapped_frames:
  assumes ram: "ram_ok ram" and ms: "mset (free_fp_list ram2) + mset (map snd ms) = mset (free_fp_list ram)"
    and pte: "pte_at mm' = map_ptes ms (pte_at mm)" and fn: "\<forall>pgn f f'. (pgn, f) \<in> set ms \<and> (pgn, f') \<in> set ms \<longrightarrow> f' = f"
  shows "distinct (map fst ms)" "distinct (free_fp_list ram2)" "set (free_fp_list ram2) \<subseteq> set (free_fp_list ram)"
    "frame_at mm' = frame_at mm ++ map_of ms" "inj_on (map_of ms) (dom (map_of ms))"
    "ran (map_of ms) \<subseteq> set (free_fp_list ram) - set (free_fp_list ram2)"
    "dom (frame_at mm) \<inter> fst ` set ms = {} \<Longrightarrow>
       set (free_fp_list ram2) \<union> ran (frame_at mm') = set (free_fp_list ram) \<union> ran (frame_at mm)"
proof -
  have "distinct (free_fp_list ram)" using ram by (simp add: ram_ok_def frames_ok_def)
  then have d: "distinct (free_fp_list ram2 @ map snd ms)"
    using ms by (metis mset_append mset_eq_imp_distinct_iff)
  have un: "set (free_fp_list ram2) \<union> set (map snd ms) = set (free_fp_list ram)"
    using ms by (metis set_mset_mset set_mset_union)
  show "distinct (free_fp_list ram2)" "set (free_fp_list ram2) \<subseteq> set (free_fp_list ram)" using d un by auto
  have dsnd: "distinct (map snd ms)" using d by simp
  show dfst: "distinct (map fst ms)" using dsnd fn by (auto simp: distinct_map inj_on_def)
  show "inj_on (map_of ms) (dom (map_of ms))"
  proof (rule inj_onI)
    fix x y assume xy: "x \<in> dom (map_of ms)" "y \<in> dom (map_of ms)" "map_of ms x = map_of ms y"
    then obtain f where "(x, f) \<in> set ms" "(y, f) \<in> set ms" by (metis domD map_of_SomeD)
    then show "x = y" using dsnd unfolding distinct_map inj_on_def by force
  qed
  have snd: "f \<in> set (map snd ms)" if "(x, f) \<in> set ms" for x f using that by force
  show "ran (map_of ms) \<subseteq> set (free_fp_list ram) - set (free_fp_list ram2)"
  proof
    fix f assume "f \<in> ran (map_of ms)"
    then obtain x where "map_of ms x = Some f" by (auto simp: ran_def)
    then have "f \<in> set (map snd ms)" using map_of_SomeD snd by metis
    then show "f \<in> set (free_fp_list ram) - set (free_fp_list ram2)" using d un by auto
  qed
  show fr: "frame_at mm' = frame_at mm ++ map_of ms"
  proof
    fix pgn
    show "frame_at mm' pgn = (frame_at mm ++ map_of ms) pgn"
    proof (cases "map_of ms pgn")
      case None
      then have "pgn \<notin> fst ` set ms" by (simp add: map_of_eq_None_iff)
      then have "frame_at mm' pgn = frame_at mm pgn" using map_ptes_other [of pgn ms "pte_at mm"] pte by (simp add: frame_at_def)
      then show ?thesis using None by (simp add: map_add_def)
    next
      case (Some f)
      then have m: "(pgn, f) \<in> set ms" by (rule map_of_SomeD)
      then have "f \<in> set (free_fp_list ram)" using un snd by blast
      then have "uint f < 8192" using ram by (auto simp: ram_ok_def frames_ok_def)
      then have "frame_at mm' pgn = Some f" using map_ptes_in [OF dfst m, of "pte_at mm"] pte by (intro frame_at_fpn) simp_all
      then show ?thesis using Some by (simp add: map_add_Some_iff)
    qed
  qed
  assume "dom (frame_at mm) \<inter> fst ` set ms = {}"
  then have "ran (frame_at mm') = ran (frame_at mm) \<union> snd ` set ms"
    unfolding fr by (subst ran_map_add) (simp_all add: dom_map_of_conv_image_fst ran_distinct [OF dfst])
  then show "set (free_fp_list ram2) \<union> ran (frame_at mm') = set (free_fp_list ram) \<union> ran (frame_at mm)"
    by (simp add: un [symmetric] Un_ac)
qed

text \<open>The pages from the break on, as far as the grown area reaches.\<close>

lemma grown_page:
  assumes "(pgn, x) \<in> set ms" "set ms \<subseteq> set (page_pairs 0 (b div 256) (take (nat n) fl))"
    and "uint b mod 256 = 0" "b < b + u64_of_int n * 256" "in_int (n * 256)"
  shows "\<exists>j < length (take (nat n) fl). int j < n \<and> uint pgn = uint b div 256 + int j \<and> x = take (nat n) fl ! j \<and>
    uint (b + u64_of_int n * 256) = uint b + n * 256"
proof -
  obtain j where j: "j < length (take (nat n) fl)" "pgn = b div 256 + u64_of_int (int j)" "x = take (nat n) fl ! j"
    using assms(1,2) page_pairs_member by blast
  then have n: "int j < n" "0 < n" by auto
  note gb = grown_break [OF assms(4) n(2) assms(5)]
  show ?thesis using j n gb(1) gb(2) [of "int j"] by (intro exI [of _ j]) simp
qed

text \<open>An address space may become another: it stays well formed, and the frames stay apart and in sight.\<close>

definition may_become :: "mm_struct \<Rightarrow> memphy_struct \<Rightarrow> mm_struct \<Rightarrow> memphy_struct \<Rightarrow> bool" where
  "may_become mm ram mm' ram' \<longleftrightarrow> space_ok mm' \<and> remap mm ram mm' ram' \<and>
     set (free_fp_list ram') \<union> ran (frame_at mm') = set (free_fp_list ram) \<union> ran (frame_at mm) \<and>
     frame_at mm \<subseteq>\<^sub>m frame_at mm'"

lemma grow_remap:
  assumes mm: "space_ok mm" and ram: "ram_ok ram" and b: "map sbrk (mmap mm) = [b]"
    and k: "get_vma_by_num (Some mm) vmaid = Some k" and int: "in_int (inc_pages sz * 256)"
    and val: "\<not> (sbrk (grown_vma (mmap mm ! k) sz) \<le> b \<or> overlaps 0 (mmap mm) k b (sbrk (grown_vma (mmap mm ! k) sz)))"
    and inc: "inc_vma_limit (Some mm) ram vmaid sz = Some (r, mmp, ram')"
  shows "\<exists>mm'. mmp = Some mm' \<and> may_become mm ram mm' ram'"
proof -
  let ?v = "grown_vma (mmap mm ! k) sz" and ?n = "inc_pages sz"
  have ok: "pt_ok mm" and al: "uint b mod 256 = 0" and top: "\<And>pgn. b div 256 \<le> pgn \<Longrightarrow> frame_at mm pgn = None"
    using mm b by (auto simp: space_ok_def)
  have k0: "k = 0" "sbrk (mmap mm ! k) = b" using get_vma_bound [OF k] b by (cases "mmap mm"; auto)+
  then have v: "sbrk ?v = b + u64_of_int ?n * 256" by (simp add: grown_vma_def Let_def)
  have val': "\<not> (sbrk ?v \<le> sbrk (mmap mm ! k) \<or> overlaps 0 (mmap mm) k (sbrk (mmap mm ! k)) (sbrk ?v))"
    using val k0 by simp
  obtain mm' ram2 ms where g: "inc_vma_limit (Some mm) ram vmaid sz = Some (0, Some mm', ram2)" "pt_ok mm'"
    "mmap mm' = (mmap mm)[k := ?v]" "symrgtbl mm' = symrgtbl mm"
    "mset (free_fp_list ram2) + mset (map snd ms) = mset (free_fp_list ram)"
    "ram2 = ram\<lparr>free_fp_list := free_fp_list ram2\<rparr>" "pte_at mm' = map_ptes ms (pte_at mm)"
    "set ms \<subseteq> set (page_pairs 0 (b div 256) (take (nat ?n) (free_fp_list ram)))"
    using inc_vma_limit_grows [OF ok k int refl val', of ram] unfolding k0(2) by blast
  have bv: "b < b + u64_of_int ?n * 256" using val v by (simp add: not_le)
  note ex = grown_page [OF _ g(8) al bv int, folded v]
  have page: "frame_at mm pgn = None" "uint pgn < uint (sbrk ?v) div 256" if "(pgn, f) \<in> set ms" for pgn f
  proof -
    from ex [OF that] obtain j where j: "int j < ?n" "uint pgn = uint b div 256 + int j" "uint (sbrk ?v) = uint b + ?n * 256"
      by blast
    have "b div 256 \<le> pgn" using j(2) by (simp add: word_le_def uint_div)
    then show "frame_at mm pgn = None" by (rule top)
    show "uint pgn < uint (sbrk ?v) div 256" using j al by auto
  qed
  have "f' = f" if "(pgn, f) \<in> set ms" "(pgn, f') \<in> set ms" for pgn f f'
    using ex [OF that(1)] ex [OF that(2)] by auto
  then have fn: "\<forall>pgn f f'. (pgn, f) \<in> set ms \<and> (pgn, f') \<in> set ms \<longrightarrow> f' = f" by blast
  have new: "dom (frame_at mm) \<inter> fst ` set ms = {}" using page(1) by fastforce
  note mf = mapped_frames [OF ram g(5,7) fn]
  have "remap mm ram mm' ram2"
    unfolding remap_def using mf(2-6) g(6)
    by (intro conjI exI [of _ UNIV] exI [of _ "map_of ms"]) (simp_all add: restrict_map_def)
  moreover have "space_ok mm'"
  proof -
    have "frame_at mm' pgn = None" if "sbrk ?v div 256 \<le> pgn" for pgn
    proof -
      have "uint (sbrk ?v) div 256 \<le> uint pgn" using that by (simp add: word_le_def uint_div)
      then have "pgn \<notin> fst ` set ms" using page(2) by force
      moreover have "b div 256 \<le> sbrk ?v div 256" using val by (simp add: word_le_def uint_div zdiv_mono1)
      then have "frame_at mm pgn = None" using that by (intro top) simp
      ultimately show ?thesis using mf(4) by (simp add: map_add_def map_of_eq_None_iff [THEN iffD2])
    qed
    moreover have "\<not> PAGING_PAGE_SWAPPED (ucast (pte_at mm' pgn))" for pgn
    proof (cases "pgn \<in> fst ` set ms")
      case True
      then obtain f where "(pgn, f) \<in> set ms" by force
      then show ?thesis using map_ptes_in [OF mf(1), of pgn f] g(7) fpn_pte_fields by simp
    next
      case False
      then show ?thesis using map_ptes_other [OF False, of "pte_at mm"] g(7) mm by (simp add: space_ok_def)
    qed
    moreover have "map sbrk (mmap mm') = [sbrk ?v]" using b g(3) k0(1) by (cases "mmap mm") simp_all
    moreover have "uint (sbrk ?v) mod 256 = 0" unfolding v by (rule break_aligned [OF al])
    ultimately show ?thesis using mm g(2,4) by (simp add: space_ok_def)
  qed
  moreover have "frame_at mm \<subseteq>\<^sub>m frame_at mm'"
    using new map_add_comm [of "frame_at mm" "map_of ms"] by (simp add: mf(4) dom_map_of_conv_image_fst map_le_map_add)
  ultimately show ?thesis using inc g(1) mf(7) [OF new] by (auto simp: may_become_def)
qed

lemma inc_remap:
  assumes mm: "space_ok mm" and ram: "ram_ok ram" and inc: "inc_vma_limit (Some mm) ram vmaid sz = Some (r, mmp, ram')"
  shows "\<exists>mm'. mmp = Some mm' \<and> may_become mm ram mm' ram'"
proof -
  obtain b where b: "map sbrk (mmap mm) = [b]" "uint b mod 256 = 0" "\<And>pgn. b div 256 \<le> pgn \<Longrightarrow> frame_at mm pgn = None"
    using mm by (auto simp: space_ok_def)
  have keep: "remap mm ram mm ram" using ram by (rule remap_same [OF map_le_refl])
  then have same: "may_become mm ram mm ram" using mm by (simp add: may_become_def)
  show ?thesis
  proof (cases "get_vma_by_num (Some mm) vmaid")
    case None
    then show ?thesis using inc_vma_limit_refuses [of mm vmaid sz ram] inc same by auto
  next
    case (Some k)
    let ?v = "grown_vma (mmap mm ! k) sz"
    from get_vma_bound [OF Some] b(1) have k: "k = 0" "sbrk (mmap mm ! k) = b" by (cases "mmap mm"; auto)+
    then have v: "sbrk ?v = b + u64_of_int (inc_pages sz) * 256" by (simp add: grown_vma_def Let_def)
    consider "sbrk ?v \<le> b \<or> overlaps 0 (mmap mm) k b (sbrk ?v)"
      | "\<not> (sbrk ?v \<le> b \<or> overlaps 0 (mmap mm) k b (sbrk ?v))" "\<not> in_int (inc_pages sz * 256)"
      | "\<not> (sbrk ?v \<le> b \<or> overlaps 0 (mmap mm) k b (sbrk ?v))" "in_int (inc_pages sz * 256)" by blast
    then show ?thesis
    proof cases
      case 1
      then have "inc_vma_limit (Some mm) ram vmaid sz = Some (-1, Some mm, ram)"
        using Some k by (intro inc_vma_limit_refuses disjI2 exI [of _ k]) (simp add: Let_def)
      then show ?thesis using inc same by auto
    next
      case 2
      have "inc_vma_limit (Some mm) ram vmaid sz = Some (r, Some (set_vma mm k ?v), ram\<lparr>free_fp_list := rev (free_fp_list ram)\<rparr>)"
        using inc inc_vma_limit_eq [OF Some, of ram sz] 2 k
        by (auto simp: Let_def vm_map_range_def alloc_pages_range_eq vmap_page_range_def PAGING_PAGESZ_def split: if_splits)
      moreover have fr: "frame_at (set_vma mm k ?v) = frame_at mm" by (simp add: frame_at_def fun_eq_iff)
      moreover {
      have "b div 256 \<le> sbrk ?v div 256" using 2(1) by (simp add: word_le_def uint_div zdiv_mono1)
      then have "\<forall>pgn. sbrk ?v div 256 \<le> pgn \<longrightarrow> frame_at mm pgn = None" using b(3) order_trans by blast
      moreover have "map sbrk ((mmap mm)[k := ?v]) = [sbrk ?v]" using b(1) k(1) by (cases "mmap mm") simp_all
      moreover have "uint (sbrk ?v) mod 256 = 0" unfolding v by (rule break_aligned [OF b(2)])
      ultimately have "space_ok (set_vma mm k ?v)" using mm fr by (simp add: space_ok_def)
      }
      ultimately show ?thesis using inc keep by (auto simp: may_become_def remap_def)
    next
      case 3 then show ?thesis using grow_remap [OF mm ram b(1) Some] inc by blast
    qed
  qed
qed

lemma memset_remap:
  assumes mm: "space_ok mm" and ram: "ram_ok ram" and s: "vmap_pgd_memset mm addr n = (r, mm')"
  shows "space_ok mm' \<and> remap mm ram mm' ram \<and> frame_at mm' \<subseteq>\<^sub>m frame_at mm"
proof -
  have ok: "pt_ok mm" using mm by (simp add: space_ok_def)
  have k: "pt_ok mm'" "rest mm' = rest mm"
    using memset_loop_spec [OF ok, of 0 n "addr div 256"] s by (auto simp: vmap_pgd_memset_def PAGING_PAGESZ_def)
  have e: "pte_at mm' p = pte_at mm p \<or> pte_at mm' p = ucast memset_pattern" for p
    using vmap_pgd_memset_marks [OF ok s] by blast
  have u: "ucast (ucast memset_pattern :: addr_t) = memset_pattern" by (rule bit_eqI) (simp add: bit_simps)
  have f: "frame_at mm' p = frame_at mm p \<or> frame_at mm' p = None" for p
    using e [of p] pattern_flags u by (auto simp: frame_at_def)
  have "frame_at mm' \<subseteq>\<^sub>m frame_at mm" using f by (fastforce simp: map_le_def)
  moreover have "\<not> PAGING_PAGE_SWAPPED (ucast (pte_at mm' p))" for p
    using e [of p] mm u pattern_flags by (auto simp: space_ok_def)
  moreover have "frame_at mm p = None \<longrightarrow> frame_at mm' p = None" for p using f [of p] by auto
  ultimately show ?thesis using mm k rest_eqD [OF k(2)] remap_same [OF _ ram] by (auto simp: space_ok_def)
qed


section \<open>System calls\<close>

lemma sep_cong:
  assumes "k_mram m' = k_mram m" "the_mm m' = the_mm m"
    and "\<And>n. sched_find_proc_by_pid (k_sched m', procs m') n = sched_find_proc_by_pid (k_sched m, procs m) n"
  shows "sep X m' = sep X m" "space_of m' = space_of m" "pool X m' = pool X m"
proof -
  have f: "frame_map X m' = frame_map X m" unfolding frame_map_def assms(2) ..
  show "sep X m' = sep X m" "pool X m' = pool X m" by (simp_all add: sep_def' pool_def assms f)
  show "space_of m' = space_of m" by (simp add: space_of_def [abs_def] user_view_def [abs_def] assms(1,2))
qed

lemma sep_fields [simp]:
  "sep X (m\<lparr>kmem_storage := a\<rparr>) = sep X m" "sep X (m\<lparr>kmem_brk := b\<rparr>) = sep X m" "sep X (m\<lparr>kmem_pools := c\<rparr>) = sep X m"
  "sep X (set_mswp m d) = sep X m" "space_of (m\<lparr>kmem_storage := a\<rparr>) = space_of m"
  "space_of (m\<lparr>kmem_brk := b\<rparr>) = space_of m" "space_of (m\<lparr>kmem_pools := c\<rparr>) = space_of m"
  "space_of (set_mswp m d) = space_of m" "pool X (m\<lparr>kmem_storage := a\<rparr>) = pool X m"
  "pool X (m\<lparr>kmem_brk := b\<rparr>) = pool X m" "pool X (m\<lparr>kmem_pools := c\<rparr>) = pool X m" "pool X (set_mswp m d) = pool X m"
  by (rule sep_cong; simp add: set_mswp_def the_mm_def caller_mm_def fun_eq_iff split: option.split)+

text \<open>A device access keeps the size and the free list.\<close>

definition dev_keeps :: "memphy_struct \<Rightarrow> memphy_struct \<Rightarrow> bool" where
  "dev_keeps d d' \<longleftrightarrow> wf_dev d' \<and> maxsz d' = maxsz d \<and> free_fp_list d' = free_fp_list d"

lemma sep_ram:
  assumes "sep X m" "dev_keeps (k_mram m) ram"
  shows "sep X (m\<lparr>k_mram := ram\<rparr>)" "pool X (m\<lparr>k_mram := ram\<rparr>) = pool X m"
proof -
  have "frame_map X (m\<lparr>k_mram := ram\<rparr>) = frame_map X m" by (simp add: frame_map_def fun_eq_iff)
  then show "sep X (m\<lparr>k_mram := ram\<rparr>)" "pool X (m\<lparr>k_mram := ram\<rparr>) = pool X m"
    using assms by (simp_all add: sep_def' ram_ok_def frames_ok_def num_frames_def dev_keeps_def frames_sep_def pool_def)
qed

lemma read_keeps:
  assumes "wf_dev d" "MEMPHY_read (Some d) a v = Some (r, d', b)"
  shows "r = 0 \<and> (\<exists>d1. d' = Some d1 \<and> dev_keeps d d1 \<and> load_byte d1 = load_byte d)"
proof (cases "uint a < maxsz d")
  case True
  from MEMPHY_read_spec [OF assms(1) True, of v] assms(2) show ?thesis unfolding dev_keeps_def by (metis option.inject prod.inject)
next
  case False
  then have "load_byte d a = None" "load_byte (snd (MEMPHY_mv_csr d a)) a = None" using load_byte_defined [OF assms(1)] by auto
  then show ?thesis using assms(2) by (auto simp: MEMPHY_read_def MEMPHY_seq_read_def Let_def split: if_splits)
qed

lemma write_keeps:
  assumes "wf_dev d" "MEMPHY_write (Some d) a b = Some (r, d')"
  shows "r = 0 \<and> (\<exists>d1. d' = Some d1 \<and> dev_keeps d d1 \<and> load_byte d1 = (load_byte d)(a \<mapsto> b))"
proof (cases "uint a < maxsz d")
  case True
  from MEMPHY_write_spec [OF assms(1) True, of b] assms(2) show ?thesis unfolding dev_keeps_def by (metis option.inject prod.inject)
next
  case False
  then have "store_byte d a b = None" "store_byte (snd (MEMPHY_mv_csr d a)) a b = None"
    using assms(1) by (simp_all add: store_byte_outside)
  then show ?thesis using assms(2) by (auto simp: MEMPHY_write_def MEMPHY_seq_write_def Let_def split: if_splits)
qed

lemma cp_loop_source:
  "cp_loop i (Some s) sf d df = Some (s', d') \<Longrightarrow> wf_dev s \<Longrightarrow>
   \<exists>s1. s' = Some s1 \<and> dev_keeps s s1 \<and> load_byte s1 = load_byte s"
proof (induction "nat (256 - i)" arbitrary: i s d)
  case 0
  then have "\<not> i < 256" by simp
  then show ?case using 0 by (subst (asm) cp_loop.simps) (auto simp: PAGING_PAGESZ_def dev_keeps_def)
next
  case (Suc n)
  then have i: "i < 256" "n = nat (256 - (i + 1))" by simp_all
  obtain r s1 b d1 r1 where st: "MEMPHY_read (Some s) (sf * 256 + u64_of_int i) 0 = Some (r, s1, b)"
      "cp_loop (i + 1) s1 sf d1 df = Some (s', d')"
    using Suc.prems(1) i(1) by (subst (asm) cp_loop.simps) (auto simp: PAGING_PAGESZ_def bind_Some_iff)
  from read_keeps [OF Suc.prems(2) st(1)] obtain s2 where s2: "s1 = Some s2" "dev_keeps s s2" "load_byte s2 = load_byte s"
    by blast
  from Suc.hyps(1) [OF i(2), of s2 d1] st(2) s2 show ?case by (auto simp: dev_keeps_def)
qed

lemma set_mm_null:
  assumes "caller_mm m p = Some None"
  shows "set_mm m p None = m"
proof -
  from assms obtain pcb where "procs m p = Some pcb" "pcb_mm pcb = None" by (auto simp: caller_mm_def)
  then have "(procs m)(p := Some (pcb\<lparr>pcb_mm := None\<rparr>)) = procs m" by (auto simp: fun_eq_iff)
  then show ?thesis using \<open>procs m p = Some pcb\<close> by (simp add: set_mm_def)
qed

text \<open>A raw write is seen by the process whose frame it hits and by no other.\<close>

lemma raw_write_view:
  assumes "load_byte d = (load_byte (k_mram m))(a \<mapsto> v)" "q \<notin> X" "\<forall>pgn. frame_map X m (q, pgn) \<noteq> Some (a div 256)"
  shows "user_view (m\<lparr>k_mram := d\<rparr>) q addr = user_view m q addr"
proof (cases "frame_map X m (q, addr div 256)")
  case None
  then show ?thesis using assms(2) by (cases "the_mm m q") (simp_all add: frame_map_def user_view_def)
next
  case (Some fr)
  then obtain mm where t: "the_mm m q = Some mm" "frame_at mm (addr div 256) = Some fr" by (auto simp: frame_map_Some)
  have "uint (addr mod 256) < 256" by (simp add: uint_mod)
  then have "uint (fr * 256 + addr mod 256) = uint fr * 256 + uint (addr mod 256)"
    using frame_bound [OF t(2)] by (simp add: uint_word_ariths)
  then have "uint ((fr * 256 + addr mod 256) div 256) = uint fr" using \<open>uint (addr mod 256) < 256\<close> by (simp add: uint_div)
  then have "(fr * 256 + addr mod 256) div 256 = fr" by (simp add: word_uint_eq_iff)
  then have "fr * 256 + addr mod 256 \<noteq> a" using assms(3) Some by auto
  then show ?thesis using t assms(1) by (simp add: user_view_def)
qed

text \<open>What the memory call does, by operation.\<close>

lemma sys_memmap_cases:
  assumes c: "sys_memmap m n scr = Some (r, m', scr')" and wf: "wf_dev (k_mram m)"
  obtains (nobody) "sched_find_proc_by_pid (k_sched m, procs m) n = Some None" "m' = m"
  | (mapping) p mmp where "sched_find_proc_by_pid (k_sched m, procs m) n = Some (Some p)" "int_of_u64 (a1 scr) = 1"
      "caller_mm m p = Some mmp" "m' = set_mm m p (snd (memset_caller mmp (a2 scr) (int_of_u64 (a3 scr))))"
  | (growing) p mmp r1 mmp1 ram where "sched_find_proc_by_pid (k_sched m, procs m) n = Some (Some p)" "int_of_u64 (a1 scr) = 2"
      "caller_mm m p = Some mmp" "inc_vma_limit mmp (k_mram m) (int_of_u64 (a2 scr)) (a3 scr) = Some (r1, mmp1, ram)"
      "m' = set_mm (m\<lparr>k_mram := ram\<rparr>) p mmp1"
  | (device) p ram m1 where "sched_find_proc_by_pid (k_sched m, procs m) n = Some (Some p)" "int_of_u64 (a1 scr) \<notin> {1, 5}"
      "dev_keeps (k_mram m) ram" "load_byte ram = load_byte (k_mram m)"
      "m1 = m\<lparr>k_mram := ram\<rparr>" "m' = m1 \<or> (\<exists>swp. m' = set_mswp m1 swp)"
  | (raw) p ram where "sched_find_proc_by_pid (k_sched m, procs m) n = Some (Some p)" "int_of_u64 (a1 scr) = 5"
      "dev_keeps (k_mram m) ram" "load_byte ram = (load_byte (k_mram m))(a2 scr \<mapsto> byte_of_u64 (a3 scr))"
      "m' = m\<lparr>k_mram := ram\<rparr>"
proof -
  obtain found where f: "sched_find_proc_by_pid (k_sched m, procs m) n = Some found"
    using c by (auto simp: sys_memmap_def Let_def bind_Some_iff)
  note ops = SYSMEM_MAP_OP_def SYSMEM_INC_OP_def SYSMEM_SWP_OP_def SYSMEM_IO_READ_def SYSMEM_IO_WRITE_def
  show thesis
  proof (cases found)
    case None
    then have "m' = m" using c f by (simp add: sys_memmap_def)
    then show ?thesis using f None by (intro nobody) simp_all
  next
    case (Some p)
    note f = f [unfolded Some]
    let ?op = "int_of_u64 (a1 scr)"
    consider "?op = 1" | "?op = 2" | "?op = 3" | "?op = 4" | "?op = 5" | "?op \<notin> {1, 2, 3, 4, 5}" by blast
    then show ?thesis
    proof cases
      case 1
      then obtain mmp where "caller_mm m p = Some mmp" "m' = set_mm m p (snd (memset_caller mmp (a2 scr) (int_of_u64 (a3 scr))))"
        using c f by (auto simp: sys_memmap_def SYSMEM_MAP_OP_def bind_Some_iff Let_def case_prod_unfold)
      then show ?thesis using f 1 by (intro mapping)
    next
      case 2
      then obtain mmp r1 mmp1 ram where "caller_mm m p = Some mmp"
          "inc_vma_limit mmp (k_mram m) (int_of_u64 (a2 scr)) (a3 scr) = Some (r1, mmp1, ram)" "m' = set_mm (m\<lparr>k_mram := ram\<rparr>) p mmp1"
        using c f by (auto simp: sys_memmap_def ops bind_Some_iff)
      then show ?thesis using f 2 by (intro growing)
    next
      case 3
      then obtain r1 ram swp where i: "mm_swap_page (k_mram m) (active_mswp m) (a2 scr) (a3 scr) = Some (r1, ram, swp)"
          "m' = set_mswp (m\<lparr>k_mram := ram\<rparr>) swp"
        using c f by (auto simp: sys_memmap_def ops bind_Some_iff)
      then obtain src where "cp_loop 0 (Some (k_mram m)) (a2 scr) (active_mswp m) (a3 scr) = Some (src, swp)" "ram = the src"
        by (auto simp: mm_swap_page_def swap_cp_page_def bind_Some_iff)
      then have "dev_keeps (k_mram m) ram" "load_byte ram = load_byte (k_mram m)" using cp_loop_source wf by fastforce+
      then show ?thesis using f i(2) 3 by (intro device [of p ram "m\<lparr>k_mram := ram\<rparr>"]) auto
    next
      case 4
      then obtain r1 ram val where i: "MEMPHY_read (Some (k_mram m)) (a2 scr) 0 = Some (r1, ram, val)" "m' = m\<lparr>k_mram := the ram\<rparr>"
        using c f by (auto simp: sys_memmap_def ops bind_Some_iff split: if_splits)
      from read_keeps [OF wf i(1)] show ?thesis using f i(2) 4 by (intro device [of p "the ram" "m\<lparr>k_mram := the ram\<rparr>"]) auto
    next
      case 5
      then obtain r1 ram where i: "MEMPHY_write (Some (k_mram m)) (a2 scr) (byte_of_u64 (a3 scr)) = Some (r1, ram)"
          "m' = m\<lparr>k_mram := the ram\<rparr>"
        using c f by (auto simp: sys_memmap_def ops bind_Some_iff split: if_splits)
      from write_keeps [OF wf i(1)] show ?thesis using f i(2) 5 by (intro raw) auto
    next
      case 6
      then have "m' = m" using c f by (auto simp: sys_memmap_def ops)
      then show ?thesis using f 6 wf by (intro device [of p "k_mram m" m]) (simp_all add: dev_keeps_def)
    qed
  qed
qed

text \<open>
  The memory call keeps \<open>sep\<close>, whoever it is made for. It leaves the view of a process it is not
  made for, except that the raw write changes the byte it names; and it loses no frame, except that
  marking pages with operation 1 does.
\<close>

lemma sys_memmap_sep:
  assumes s: "sep X m" and c: "sys_memmap m n scr = Some (r, m', scr')"
  shows "sep X m' \<and> pool X m' \<subseteq> pool X m \<and> (int_of_u64 (a1 scr) \<noteq> 1 \<longrightarrow> pool X m' = pool X m) \<and>
    (\<forall>q. q \<notin> X \<longrightarrow> sched_find_proc_by_pid (k_sched m, procs m) n \<noteq> Some (Some q) \<longrightarrow>
      int_of_u64 (a1 scr) \<noteq> 5 \<or> (\<forall>pgn. frame_map X m (q, pgn) \<noteq> Some (a2 scr div 256)) \<longrightarrow> space_of m' q = space_of m q)"
proof -
  have ram: "ram_ok (k_mram m)" and wf: "wf_dev (k_mram m)" using s by (simp_all add: sep_def' ram_ok_def)
  have px: "p \<notin> X" if "sched_find_proc_by_pid (k_sched m, procs m) n = Some (Some p)" for p using that s by (auto simp: sep_def')
  have sp: "space_ok mm" if "p \<notin> X" "the_mm m p = Some mm" for p mm using s that by (simp add: sep_def')
  from c wf show ?thesis
  proof (cases rule: sys_memmap_cases)
    case nobody then show ?thesis using s by simp
  next
    case (mapping p mmp)
    show ?thesis
    proof (cases mmp)
      case None
      then show ?thesis using mapping set_mm_null [of m p] s by (simp add: memset_caller_def)
    next
      case (Some mm)
      obtain r1 mm' where v: "vmap_pgd_memset mm (a2 scr) (int_of_u64 (a3 scr)) = (r1, mm')" by (metis prod.exhaust)
      have t: "the_mm m p = Some mm" using mapping Some by (simp add: the_mm_Some)
      note k = memset_remap [OF sp [OF px [OF mapping(1)] t] ram v]
      have "m' = set_mm (m\<lparr>k_mram := k_mram m\<rparr>) p (Some mm')" using mapping(4) Some v by (simp add: memset_caller_def)
      moreover have "ran (frame_at mm') \<subseteq> ran (frame_at mm)" using k by (auto simp: ran_def map_le_def dom_def) metis
      ultimately show ?thesis using sep_set_mm [OF s t px [OF mapping(1)], of mm' "k_mram m"] k mapping(1,2) by auto
    qed
  next
    case (growing p mmp r1 mmp1 ram1)
    show ?thesis
    proof (cases mmp)
      case None
      then have "mmp1 = None" "ram1 = k_mram m" using growing(4) by (simp_all add: inc_vma_limit_def)
      then show ?thesis using growing(3,5) None set_mm_null [of m p] s by simp
    next
      case (Some mm)
      have t: "the_mm m p = Some mm" using growing(3) Some by (simp add: the_mm_Some)
      obtain mm' where k: "mmp1 = Some mm'" "may_become mm (k_mram m) mm' ram1"
        using inc_remap [OF sp [OF px [OF growing(1)] t] ram] growing(4) Some by blast
      note b = k(2) [unfolded may_become_def]
      note n = sep_set_mm [OF s t px [OF growing(1)], of mm' ram1]
      have "pool X m' = pool X m" using n(3) b growing(5) k(1) by auto
      then show ?thesis using n(1,2) b growing(1,5) k(1) by auto
    qed
  next
    case (device p ram m1)
    have "space_of m1 = space_of m" unfolding device(5) by (simp add: space_of_def user_view_def fun_eq_iff device(4))
    moreover have "sep X m1" "pool X m1 = pool X m" unfolding device(5) by (rule sep_ram [OF s device(3)])+
    ultimately show ?thesis using device(6) by (elim disjE exE) simp_all
  next
    case (raw p ram)
    then show ?thesis using sep_ram [OF s raw(3)] raw_write_view [OF raw(4), of _ X] by (auto simp: fun_eq_iff space_of_eq)
  qed
qed


section \<open>What an operation may touch\<close>

text \<open>
  An operation run for process \<open>p\<close> took \<open>m\<close> to \<open>m'\<close>. \<open>kept X p m m'\<close>: \<open>sep\<close> holds after it and, if the
  kernel finds \<open>p\<close> by its PID, every other process has what it had. \<open>isolated X p m m'\<close>: besides, it
  lost no frame, and is confined to what an instruction may change.
\<close>

definition kept :: "pref set \<Rightarrow> pref \<Rightarrow> machine \<Rightarrow> machine \<Rightarrow> bool" where
  "kept X p m m' \<longleftrightarrow> sep X m' \<and> (registered m p \<longrightarrow> (\<forall>q. q \<noteq> p \<and> q \<notin> X \<longrightarrow> space_of m' q = space_of m q))"

definition isolated :: "pref set \<Rightarrow> pref \<Rightarrow> machine \<Rightarrow> machine \<Rightarrow> bool" where
  "isolated X p m m' \<longleftrightarrow> steps_ok m p m' \<and> (sep X m \<and> p \<notin> X \<longrightarrow> kept X p m m' \<and> pool X m' = pool X m)"

lemma pcb_mm_field:
  assumes "map_option (\<lambda>c. c\<lparr>pcb_mm := None\<rparr>) x = map_option (\<lambda>c. c\<lparr>pcb_mm := None\<rparr>) y"
    and "\<And>c :: pcb_t. f (c\<lparr>pcb_mm := None\<rparr>) = f c"
  shows "map_option f x = map_option f y"
proof -
  have *: "map_option f z = map_option f (map_option (\<lambda>c. c\<lparr>pcb_mm := None\<rparr>) z)" for z
    by (simp add: option.map_comp comp_def assms(2))
  show ?thesis by (subst * [of x], subst * [of y]) (simp only: assms(1))
qed

lemma mm_only_pid: "mm_only m m' \<Longrightarrow> map_option pid (procs m' q) = map_option pid (procs m q)"
  by (rule pcb_mm_field) (simp_all add: mm_only_def)

lemma steps_ok_pid: "steps_ok m p m' \<Longrightarrow> map_option pid (procs m' q) = map_option pid (procs m q)"
proof (cases "q = p")
  case True
  assume "steps_ok m p m'"
  then have f: "map_option pcb_frame (procs m' p) = map_option pcb_frame (procs m p)" by (simp add: steps_ok_def)
  have e: "map_option pid x = map_option pid (map_option pcb_frame x)" for x
    by (simp add: option.map_comp comp_def pcb_frame_def)
  show ?thesis unfolding True by (subst e [of "procs m' p"], subst e [of "procs m p"]) (simp only: f)
next
  case False
  assume "steps_ok m p m'"
  then have "map_option (\<lambda>c. c\<lparr>pcb_mm := None\<rparr>) (procs m' q) = map_option (\<lambda>c. c\<lparr>pcb_mm := None\<rparr>) (procs m q)"
    using False by (simp add: steps_ok_def)
  then show ?thesis by (rule pcb_mm_field) simp
qed

lemma steps_ok_registered: "steps_ok m p m' \<Longrightarrow> registered m' q = registered m q"
proof -
  assume s: "steps_ok m p m'"
  show ?thesis using steps_ok_pid [OF s] s by (intro registered_cong) (simp_all add: steps_ok_def)
qed

lemma isolated_trans: "isolated X p m m1 \<Longrightarrow> isolated X p m1 m2 \<Longrightarrow> isolated X p m m2"
  using steps_ok_registered [of m p m1] steps_ok_trans [of m p m1 m2] by (auto simp: isolated_def kept_def)

lemma isolated_set_mm:
  assumes "the_mm m p = Some mm" "pt_ok mm \<Longrightarrow> like mm mm'"
  shows "isolated X p m (set_mm m p (Some mm'))"
  unfolding isolated_def
proof (intro conjI impI)
  show "steps_ok m p (set_mm m p (Some mm'))" by (rule mm_only_steps_ok) simp
next
  assume s: "sep X m \<and> p \<notin> X"
  then have sp: "space_ok mm" "ram_ok (k_mram m)" using assms(1) by (auto simp: sep_def')
  then have l: "like mm mm'" using assms(2) by (simp add: space_ok_def)
  have "remap mm (k_mram m) mm' (k_mram m)" using sp(2) by (intro remap_same) (simp_all add: like_frames [OF l])
  note k = sep_set_mm [OF conjunct1 [OF s] assms(1) conjunct2 [OF s] like_space [OF l sp(1)] this]
  show "kept X p m (set_mm m p (Some mm'))" using k(1,2) by (simp add: kept_def)
  show "pool X (set_mm m p (Some mm')) = pool X m" using k(3) like_frames [OF l] by auto
qed

lemma registered_find:
  "registered m p \<Longrightarrow> procs m p = Some pcb \<Longrightarrow> sched_find_proc_by_pid (k_sched m, procs m) (pid pcb) = Some (Some p)"
  by (auto simp: registered_def)

lemma syscall_cases: "syscall m n nr scr = (if nr = 17 then sys_memmap m n scr else Some (0, m, scr))"
  by (auto simp: syscall_def syscall_tbl_def sys_ni_syscall_def sys_listsyscall_def)

lemma syscall_kept:
  assumes "syscall m (pid pcb) nr scr = Some (r, m', scr')" "procs m p = Some pcb" and s: "sep X m"
  shows "sep X m' \<and> pool X m' \<subseteq> pool X m \<and> (nr = 17 \<and> int_of_u64 (a1 scr) = 5 \<or> kept X p m m') \<and>
    (nr = 17 \<and> int_of_u64 (a1 scr) = 1 \<or> pool X m' = pool X m)"
proof (cases "nr = 17")
  case True
  then have c: "sys_memmap m (pid pcb) scr = Some (r, m', scr')" using assms(1) by (simp add: syscall_cases)
  show ?thesis using sys_memmap_sep [OF s c] registered_find [OF _ assms(2)] True by (auto simp: kept_def)
next
  case False then show ?thesis using assms(1) s by (simp add: syscall_cases kept_def)
qed

lemma isolated_syscall:
  assumes "syscall m (pid pcb) nr scr = Some (r, m', scr')" "procs m p = Some pcb"
    and "nr \<noteq> 17 \<or> int_of_u64 (a1 scr) \<notin> {1, 5}"
  shows "isolated X p m m'"
proof -
  have "steps_ok m p m'" by (rule mm_only_steps_ok, rule syscall_mm [OF assms(1)]) simp
  then show ?thesis using syscall_kept [OF assms(1,2), of X] assms(3) by (auto simp: isolated_def)
qed

lemma getpage_shape:
  assumes s: "sep X m" "p \<notin> X" and g: "pg_getpage m p pgn = Some (r, fpn, m1)"
  shows "\<exists>mm mm1. the_mm m p = Some mm \<and> m1 = set_mm m p (Some mm1) \<and> like mm mm1 \<and>
    (r = 0 \<longrightarrow> frame_at mm (u64_of_int pgn) = Some (u64_of_int fpn))"
proof -
  obtain mm where mm: "the_mm m p = Some mm" using g by (auto simp: pg_getpage_def on_mm_def bind_Some_iff)
  have sp: "space_ok mm" using s mm by (simp add: sep_def')
  then have ok: "pt_ok mm" by (simp add: space_ok_def)
  let ?e = "pte_get_entry mm (u64_of_int pgn)"
  have e: "fst ?e = ucast (pte_at mm (u64_of_int pgn))" using pte_get_entry_at [OF ok, of _ "fst ?e" "snd ?e"] by simp
  have o: "on_mm (\<lambda>mm. pte_get_entry mm (u64_of_int pgn)) m p = Some (fst ?e, set_mm m p (Some (snd ?e)))"
    using mm by (simp add: on_mm_def)
  have ns: "\<not> PAGING_PAGE_SWAPPED (fst ?e)" using sp e by (simp add: space_ok_def)
  have "m1 = set_mm m p (Some (snd ?e))" using g o ns by (auto simp: pg_getpage_def split: if_splits)
  moreover have "frame_at mm (u64_of_int pgn) = Some (u64_of_int fpn)" if "r = 0"
    using g o ns that e by (auto simp: pg_getpage_def frame_at_def fpn_roundtrip split: if_splits)
  ultimately show ?thesis using mm lookup_like [OF ok] by blast
qed

lemma isolatedI:
  assumes "steps_ok m p m'"
    and "sep X m \<Longrightarrow> p \<notin> X \<Longrightarrow> isolated X p m m'"
  shows "isolated X p m m'"
  using assms by (auto simp: isolated_def)

lemma isolated_getval:
  assumes g: "pg_getval m p addr = Some (r, b, m')"
  shows "isolated X p m m'"
proof (rule isolatedI)
  show "steps_ok m p m'" by (rule frame.R_getval [OF g])
  assume s: "sep X m" "p \<notin> X"
  obtain r1 fpn m1 where gp: "pg_getpage m p (int_of_u64 (addr div 256)) = Some (r1, fpn, m1)"
    using g by (auto simp: pg_getval_def PAGING_PAGESZ_def Let_def bind_Some_iff)
  obtain mm mm1 where mm: "the_mm m p = Some mm" "m1 = set_mm m p (Some mm1)" "like mm mm1"
    using getpage_shape [OF s gp] by blast
  then have i: "isolated X p m m1" using isolated_set_mm by blast
  have "m' = m1 \<or> (\<exists>pcb r2 scr2. procs m1 p = Some pcb \<and>
      syscall m1 (pid pcb) 17 \<lparr>a1 = 4, a2 = u64_of_int fpn * 256 + addr mod 256, a3 = 0\<rparr> = Some (r2, m', scr2))"
    using g gp by (auto simp: pg_getval_def PAGING_PAGESZ_def SYSMEM_IO_READ_def u64_of_int_def Let_def bind_Some_iff split: if_splits)
  then show "isolated X p m m'"
    using i isolated_trans isolated_syscall by (fastforce simp: int_of_u64_def)
qed

lemma isolated_setval:
  assumes g: "pg_setval m p addr v = Some (r, m')"
  shows "isolated X p m m'"
proof (rule isolatedI)
  show "steps_ok m p m'" by (rule frame.R_setval [OF g])
  assume s: "sep X m" "p \<notin> X"
  let ?pgn = "int_of_u64 (addr div 256)"
  obtain r1 fpn m1 where gp: "pg_getpage m p ?pgn = Some (r1, fpn, m1)"
    using g by (auto simp: pg_setval_def PAGING_PAGESZ_def Let_def bind_Some_iff)
  obtain mm mm1 where mm: "the_mm m p = Some mm" "m1 = set_mm m p (Some mm1)" "like mm mm1"
      "r1 = 0 \<longrightarrow> frame_at mm (u64_of_int ?pgn) = Some (u64_of_int fpn)"
    using getpage_shape [OF s gp] by blast
  then have i: "isolated X p m m1" using isolated_set_mm by blast
  have s1: "sep X m1" using i s by (simp add: isolated_def kept_def)
  let ?a = "u64_of_int fpn * 256 + addr mod 256"
  have "m' = m1 \<or> (r1 = 0 \<and> (\<exists>pcb r2 scr2. procs m1 p = Some pcb \<and>
      syscall m1 (pid pcb) 17 \<lparr>a1 = 5, a2 = ?a, a3 = u64_of_byte v\<rparr> = Some (r2, m', scr2)))"
    using g gp by (auto simp: pg_setval_def PAGING_PAGESZ_def SYSMEM_IO_WRITE_def u64_of_int_def Let_def bind_Some_iff split: if_splits)
  then show "isolated X p m m'"
  proof
    assume "m' = m1" then show ?thesis using i by simp
  next
    assume "r1 = 0 \<and> (\<exists>pcb r2 scr2. procs m1 p = Some pcb \<and>
      syscall m1 (pid pcb) 17 \<lparr>a1 = 5, a2 = ?a, a3 = u64_of_byte v\<rparr> = Some (r2, m', scr2))"
    then obtain pcb r2 scr2 where c: "r1 = 0" "procs m1 p = Some pcb"
      "sys_memmap m1 (pid pcb) \<lparr>a1 = 5, a2 = ?a, a3 = u64_of_byte v\<rparr> = Some (r2, m', scr2)" by (auto simp: syscall_17)
    have fr: "frame_at mm1 (u64_of_int ?pgn) = Some (u64_of_int fpn)" using mm c like_frames [OF mm(3)] by simp
    have t1: "the_mm m1 p = Some mm1" using mm by simp
    have a: "?a div 256 = u64_of_int fpn"
    proof -
      have "uint (addr mod 256) < 256" by (simp add: uint_mod)
      moreover from this have "uint ?a = uint (u64_of_int fpn) * 256 + uint (addr mod 256)"
        using frame_bound [OF fr] by (simp add: uint_word_ariths)
      ultimately show ?thesis by (simp add: word_uint_eq_iff uint_div)
    qed
    have own: "frame_map X m1 (p, u64_of_int ?pgn) = Some (u64_of_int fpn)" using fr t1 s(2) by (simp add: frame_map_def)
    have "frame_map X m1 (q, pgn) \<noteq> Some (?a div 256)" if "q \<noteq> p" for q pgn
      using s1 own that unfolding a sep_def' frames_sep_def inj_on_def by (metis domI prod.inject)
    then have k: "sep X m' \<and> pool X m' = pool X m1 \<and> (registered m1 p \<longrightarrow> (\<forall>q. q \<noteq> p \<and> q \<notin> X \<longrightarrow> space_of m' q = space_of m1 q))"
      using sys_memmap_sep [OF s1 c(3)] registered_find [of m1 p pcb] c(2) by (auto simp: int_of_u64_def)
    moreover have "steps_ok m1 p m'" using outcomeD [OF sys_memmap_outcome c(3)] by (auto intro: mm_only_steps_ok)
    ultimately have "isolated X p m1 m'" by (simp add: isolated_def kept_def)
    with i show ?thesis by (rule isolated_trans)
  qed
qed


section \<open>One instruction\<close>

text \<open>Registers, the program counter and the other fields of a PCB do not matter to \<open>sep\<close>.\<close>

lemma sep_pcb:
  assumes "procs m p = Some c" "pid c' = pid c" "pcb_mm c' = pcb_mm c"
  shows "sep X (m\<lparr>procs := (procs m)(p \<mapsto> c')\<rparr>) = sep X m" "space_of (m\<lparr>procs := (procs m)(p \<mapsto> c')\<rparr>) = space_of m"
    "registered (m\<lparr>procs := (procs m)(p \<mapsto> c')\<rparr>) q = registered m q" "pool X (m\<lparr>procs := (procs m)(p \<mapsto> c')\<rparr>) = pool X m"
proof -
  let ?m = "m\<lparr>procs := (procs m)(p \<mapsto> c')\<rparr>"
  have p: "map_option pid (procs ?m r) = map_option pid (procs m r)" for r using assms by simp
  have t: "the_mm ?m = the_mm m" using assms by (auto simp: fun_eq_iff the_mm_def caller_mm_def)
  have f: "sched_find_proc_by_pid (k_sched m, (procs m)(p \<mapsto> c')) n = sched_find_proc_by_pid (k_sched m, procs m) n" for n
    using find_pid_cong [of "procs ?m" "procs m", OF p] by (simp add: sched_find_proc_by_pid_def)
  show "sep X ?m = sep X m" "space_of ?m = space_of m" "pool X ?m = pool X m" by (rule sep_cong; simp add: t f)+
  show "registered ?m q = registered m q" by (rule registered_cong) (use p in auto)
qed

lemma set_reg_keeps:
  assumes "set_reg m p i v = Some m'"
  shows "sep X m' = sep X m" "space_of m' = space_of m" "registered m' q = registered m q" "pool X m' = pool X m"
proof -
  from assms obtain c where c: "procs m p = Some c" "m' = m\<lparr>procs := (procs m)(p \<mapsto> c\<lparr>regs := (regs c)[unat i := v]\<rparr>)\<rparr>"
    by (auto simp: set_reg_def bind_Some_iff split: if_splits)
  show "sep X m' = sep X m" "space_of m' = space_of m" "registered m' q = registered m q" "pool X m' = pool X m"
    unfolding c(2) by (rule sep_pcb [OF c(1)]; simp)+
qed

text \<open>Every operation of the library, and every instruction but a system call, is isolated.\<close>

interpretation iso: instruction_relation "isolated X p" p for X p
proof unfold_locales
  show "isolated X p m m1 \<Longrightarrow> isolated X p m1 m2 \<Longrightarrow> isolated X p m m2" for m m1 m2 by (rule isolated_trans)
  show "the_mm m p = Some mm \<Longrightarrow> (pt_ok mm \<Longrightarrow> like mm mm') \<Longrightarrow> isolated X p m (set_mm m p (Some mm'))" for m mm mm'
    by (rule isolated_set_mm)
  show "pg_getval m p addr = Some (r, byt, m') \<Longrightarrow> isolated X p m m'" for m addr r byt m' by (rule isolated_getval)
  show "pg_setval m p addr v = Some (r, m') \<Longrightarrow> isolated X p m m'" for m addr v r m' by (rule isolated_setval)
  show "procs m p = Some c \<Longrightarrow> syscall m (pid c) 17 \<lparr>a1 = u64_of_int SYSMEM_INC_OP, a2 = x2, a3 = x3\<rparr> = Some (r, m', scr) \<Longrightarrow>
      isolated X p m m'" for m c x2 x3 r m' scr
    by (erule isolated_syscall) (simp_all add: SYSMEM_INC_OP_def u64_of_int_def int_of_u64_def)
  show "set_reg m p i v = Some m' \<Longrightarrow> isolated X p m m'" for m i v m'
    using set_reg_keeps frame.R_reg by (simp add: isolated_def kept_def)
qed (simp_all add: isolated_def kept_def frame.R_storage frame.R_brk frame.R_pools)

text \<open>
  The two system calls that break the rules: memory call 17 with operation 5 writes physical memory,
  and with operation 1 marks pages without giving back their frames.
\<close>

definition raw_write :: "inst_t \<Rightarrow> bool" where
  "raw_write ins \<longleftrightarrow> opcode ins = SYSCALL \<and> (ucast (arg_0 ins) :: u32) = 17 \<and> int_of_u64 (arg_1 ins) = 5"

definition map_op :: "inst_t \<Rightarrow> bool" where
  "map_op ins \<longleftrightarrow> opcode ins = SYSCALL \<and> (ucast (arg_0 ins) :: u32) = 17 \<and> int_of_u64 (arg_1 ins) = 1"

lemma execute_kept:
  assumes s: "sep X m" "p \<notin> X" and e: "execute m p ins = Some (r, m')"
  shows "sep X m' \<and> pool X m' \<subseteq> pool X m \<and> (raw_write ins \<or> kept X p m m') \<and> (map_op ins \<or> pool X m' = pool X m)"
proof (cases "opcode ins = SYSCALL")
  case True
  then obtain pcb scr where "procs m p = Some pcb"
      "syscall m (pid pcb) (ucast (arg_0 ins)) \<lparr>a1 = arg_1 ins, a2 = arg_2 ins, a3 = arg_3 ins\<rparr> = Some (r, m', scr)"
    using e by (auto simp: execute_def libsyscall_def bind_Some_iff)
  from syscall_kept [OF this(2,1) s(1)] True show ?thesis by (auto simp: raw_write_def map_op_def)
next
  case False
  have "isolated X p m m'" using outcomeD [OF iso.execute_related [OF False] e] by simp
  then show ?thesis using s by (simp add: isolated_def kept_def)
qed

text \<open>The instruction a process is about to execute.\<close>

definition next_inst :: "machine \<Rightarrow> pref \<Rightarrow> inst_t option" where
  "next_inst m p = do { c \<leftarrow> procs m p; if pc c < seg_size (code c) then Some (seg_text (code c) ! unat (pc c)) else None }"

lemma run_kept:
  assumes s: "sep X m" "p \<notin> X" and r: "run m p = Some (r, m')"
  shows "sep X m' \<and> pool X m' \<subseteq> pool X m \<and> ((\<exists>ins. next_inst m p = Some ins \<and> raw_write ins) \<or> kept X p m m') \<and>
    ((\<exists>ins. next_inst m p = Some ins \<and> map_op ins) \<or> pool X m' = pool X m)"
proof -
  obtain c where c: "procs m p = Some c" using r by (auto simp: run_def bind_Some_iff)
  show ?thesis
  proof (cases "pc c \<ge> seg_size (code c)")
    case True
    then show ?thesis using r c s by (simp add: run_def kept_def)
  next
    case False
    let ?m = "m\<lparr>procs := (procs m)(p \<mapsto> c\<lparr>pc := pc c + 1\<rparr>)\<rparr>" and ?ins = "seg_text (code c) ! unat (pc c)"
    have e: "execute ?m p ?ins = Some (r, m')" using r c False by (auto simp: run_def split: if_splits)
    have k: "sep X ?m = sep X m" "space_of ?m = space_of m" "registered ?m p = registered m p" "pool X ?m = pool X m"
      by (rule sep_pcb [OF c]; simp)+
    have "sep X ?m" using s(1) k(1) by simp
    from execute_kept [OF this s(2) e] k(2-4)
    have "sep X m' \<and> pool X m' \<subseteq> pool X m \<and> (raw_write ?ins \<or> kept X p m m') \<and> (map_op ?ins \<or> pool X m' = pool X m)"
      by (auto simp: kept_def)
    moreover have "next_inst m p = Some ?ins" using c False by (simp add: next_inst_def)
    ultimately show ?thesis by blast
  qed
qed


section \<open>Executions\<close>

text \<open>
  The contract of a machine whose processes cannot reach each other: every step keeps the
  invariant; a step that is allowed leaves the view of the other processes alone; and no step
  of another process takes the permission away.
\<close>

fun steps :: "('s \<Rightarrow> 'p \<Rightarrow> 's option) \<Rightarrow> 's \<Rightarrow> 'p list \<Rightarrow> 's option" where
  "steps step s [] = Some s"
| "steps step s (p # ps) = do { s1 \<leftarrow> step s p; steps step s1 ps }"

locale separation =
  fixes step :: "'s \<Rightarrow> 'p \<Rightarrow> 's option"
    and inv :: "'s \<Rightarrow> bool"
    and may :: "'s \<Rightarrow> 'p \<Rightarrow> bool"
    and view :: "'s \<Rightarrow> 'p \<Rightarrow> 'v"
  assumes step_inv: "inv s \<Longrightarrow> step s p = Some s' \<Longrightarrow> inv s'"
    and may_keeps: "may s p \<Longrightarrow> step s q = Some s' \<Longrightarrow> may s' p"
    and respects: "inv s \<Longrightarrow> may s p \<Longrightarrow> step s p = Some s' \<Longrightarrow> q \<noteq> p \<Longrightarrow> view s' q = view s q"
begin

lemma steps_view:
  "inv s \<Longrightarrow> \<forall>p \<in> set ps. may s p \<Longrightarrow> steps step s ps = Some s' \<Longrightarrow> q \<notin> set ps \<Longrightarrow> inv s' \<and> view s' q = view s q"
proof (induction ps arbitrary: s)
  case (Cons p ps)
  then obtain s1 where s1: "step s p = Some s1" "steps step s1 ps = Some s'" by (auto simp: bind_Some_iff)
  have "inv s1" "\<forall>p \<in> set ps. may s1 p" "view s1 q = view s q"
    using Cons.prems s1(1) step_inv may_keeps respects by auto
  then show ?case using Cons.IH [OF _ _ s1(2)] Cons.prems(4) by simp
qed simp

end

definition run_step :: "machine \<Rightarrow> pref \<Rightarrow> machine option" where
  "run_step m p = map_option snd (run m p)"

text \<open>A process the kernel knows, whose program has no raw write.\<close>

definition well_behaved :: "machine \<Rightarrow> pref \<Rightarrow> bool" where
  "well_behaved m p \<longleftrightarrow> registered m p \<and>
     (\<exists>c. procs m p = Some c \<and> (\<forall>ins \<in> set (seg_text (code c)). \<not> raw_write ins))"

lemma run_other_pcbs:
  assumes "run m p = Some (r, m')"
  shows "k_sched m' = k_sched m \<and> (\<forall>q. map_option pid (procs m' q) = map_option pid (procs m q) \<and>
    map_option code (procs m' q) = map_option code (procs m q))"
proof -
  obtain c where c: "procs m p = Some c" using assms by (auto simp: run_def bind_Some_iff)
  note own = run_pcb [OF c assms]
  have o: "if pc c \<ge> seg_size (code c) then r = 1 \<and> m' = m
     else steps_ok (m\<lparr>procs := (procs m)(p \<mapsto> c\<lparr>pc := pc c + 1\<rparr>)\<rparr>) p m'"
    using outcomeD [OF run_outcome [OF c] assms] by simp
  have "map_option pid (procs m' q) = map_option pid (procs m q) \<and> map_option code (procs m' q) = map_option code (procs m q)" for q
  proof (cases "q = p")
    case True then show ?thesis using own c by auto
  next
    case False
    have "map_option (\<lambda>d. d\<lparr>pcb_mm := None\<rparr>) (procs m' q) = map_option (\<lambda>d. d\<lparr>pcb_mm := None\<rparr>) (procs m q)"
      using o False by (auto simp: steps_ok_def split: if_splits)
    then show ?thesis by (intro conjI; elim pcb_mm_field; simp)
  qed
  then show ?thesis using own by blast
qed

lemma run_well_behaved:
  assumes "well_behaved m p" "run m q = Some (r, m')"
  shows "well_behaved m' p"
proof -
  note k = run_other_pcbs [OF assms(2)]
  have "registered m' p = registered m p" by (rule registered_cong) (use k in auto)
  moreover have "map_option code (procs m' p) = map_option code (procs m p)" using k by blast
  ultimately show ?thesis using assms(1) by (fastforce simp: well_behaved_def)
qed

lemma next_inst_in:
  assumes "run m p = Some y" "next_inst m p = Some ins" "procs m p = Some c"
  shows "ins \<in> set (seg_text (code c))"
  using assms by (auto simp: run_def next_inst_def not_le split: if_splits)

interpretation cpu_sep: separation run_step "sep {}" well_behaved space_of
proof (unfold_locales, goal_cases)
  case (1 s p s')
  then show ?case using run_kept [of "{}" s p] by (auto simp: run_step_def)
next
  case (2 s p q s')
  then show ?case using run_well_behaved by (auto simp: run_step_def)
next
  case (3 s p s' q)
  then obtain r where r: "run s p = Some (r, s')" by (auto simp: run_step_def)
  have "\<not> (\<exists>ins. next_inst s p = Some ins \<and> raw_write ins)"
    using next_inst_in [OF r] 3(2) by (auto simp: well_behaved_def)
  then have "kept {} p s s'" using run_kept [OF 3(1) _ r] by blast
  then show ?case using 3(2,4) by (simp add: kept_def well_behaved_def)
qed

text \<open>
  Property C5: memory isolation. Start from a machine in which every frame is free or behind one page
  of one process, and let processes execute instructions in any order, each known to the kernel and
  without the raw write of system call 17 in its program. If no instruction is undefined, the
  frames are still separate at the end, and a process that did not run has the regions and the page
  table it had and sees at every address the byte it saw before: allocation, release, reads, writes, copies and the other system calls of
  the others do not reach its memory, and do not unmap it.
\<close>

theorem process_isolation:
  assumes "sep {} m" "\<forall>p \<in> set ps. well_behaved m p" "steps run_step m ps = Some m'" "q \<notin> set ps"
  shows "sep {} m' \<and> the_mm m' q = the_mm m q \<and> user_view m' q = user_view m q"
  using cpu_sep.steps_view [OF assms] by (simp add: space_of_eq)


text \<open>Two processes with one page each, 4 in frame 2 and 5 in frame 3; process 4 stores a byte.\<close>

definition demo_space :: "addr_t \<Rightarrow> mm_struct" where
  "demo_space f = snd (pte_set_fpn (demo_mm\<lparr>mmap := [demo_vma\<lparr>vm_end := 256, sbrk := 256\<rparr>],
     symrgtbl := \<lparr>rg_start = 0, rg_end = 256, mode_bit = 1\<rparr> # replicate 29 \<lparr>rg_start = 0, rg_end = 0, mode_bit = 0\<rparr>\<rparr>) 0 f)"

definition demo_writer :: pcb_t where
  "demo_writer = demo_user_pcb\<lparr>pcb_mm := Some (demo_space 2), pc := 0,
     code := \<lparr>seg_text = [\<lparr>opcode = WRITE, arg_0 = 65, arg_1 = 0, arg_2 = 7, arg_3 = 0\<rparr>], seg_size = 1\<rparr>\<rparr>"

definition demo_pair :: machine where
  "demo_pair = demo_machine\<lparr>procs := [4 \<mapsto> demo_writer, 5 \<mapsto> demo_writer\<lparr>pid := 10, pcb_mm := Some (demo_space 3)\<rparr>],
     k_mram := demo_dev\<lparr>free_fp_list := [0, 1]\<rparr>,
     k_sched := (k_sched demo_machine)\<lparr>running_list := enq 5 (enq 4 static_queue)\<rparr>\<rparr>"

lemma demo_space_ok:
  assumes "uint f < 4"
  shows "pt_ok (demo_space f)" "pte_at (demo_space f) = (\<lambda>_. 0)(0 := fpn_pte 0 f)" "space_ok (demo_space f)"
    "frame_at (demo_space f) = [0 \<mapsto> f]" "symrgtbl (demo_space f) ! 0 = \<lparr>rg_start = 0, rg_end = 256, mode_bit = 1\<rparr>"
    "pgd (demo_space f) \<noteq> None" "\<forall>k. calloc_ok (demo_space f) k"
proof -
  let ?m = "demo_mm\<lparr>mmap := [demo_vma\<lparr>vm_end := 256, sbrk := 256\<rparr>],
     symrgtbl := \<lparr>rg_start = 0, rg_end = 256, mode_bit = 1\<rparr> # replicate 29 \<lparr>rg_start = 0, rg_end = 0, mode_bit = 0\<rparr>\<rparr>"
  have m: "pt_ok ?m" "pgd ?m \<noteq> None" "\<forall>k. calloc_ok ?m k" using demo_mm_ok by (simp_all add: pt_ok_def dir_pages_def)
  have pg: "(0 :: addr_t) < PAGING_MAX_PGN" by (simp add: PAGING_MAX_PGN_eq)
  have "pte_set_fpn ?m 0 f = (0, demo_space f)"
    using set_fpn.set_total [OF m(1,2) pg m(3), of f] by (simp add: demo_space_def prod_eq_iff)
  from set_fpn.set_done [OF m(1) this] have d: "pt_ok (demo_space f)" "rest (demo_space f) = rest ?m"
    "pte_at (demo_space f) = (pte_at ?m)(0 := fpn_pte (pte_at ?m 0) f)" by simp_all
  show "pgd (demo_space f) \<noteq> None" "\<forall>k. calloc_ok (demo_space f) k" using rest_eqD(4,5) [OF d(2)] m by simp_all
  have z: "pte_at ?m = (\<lambda>_. 0)" by (simp add: fun_eq_iff pte_at_def demo_mm_def)
  then show p: "pte_at (demo_space f) = (\<lambda>_. 0)(0 := fpn_pte 0 f)" using d(3) by simp
  show "pt_ok (demo_space f)" by (rule d(1))
  show s: "symrgtbl (demo_space f) ! 0 = \<lparr>rg_start = 0, rg_end = 256, mode_bit = 1\<rparr>" using rest_eqD(2) [OF d(2)] by simp
  have zero: "\<not> PAGING_PAGE_PRESENT 0" "\<not> PAGING_PAGE_SWAPPED 0" by (simp_all add: present_bit swapped_bit)
  have f0: "frame_at (demo_space f) 0 = Some f" using p assms by (intro frame_at_fpn [where e = 0]) simp_all
  have "frame_at (demo_space f) pgn = ([0 \<mapsto> f]) pgn" for pgn
    using f0 zero p by (cases "pgn = 0") (simp_all add: frame_at_def)
  then show fr: "frame_at (demo_space f) = [0 \<mapsto> f]" by blast
  have "\<not> PAGING_PAGE_SWAPPED (ucast (pte_at (demo_space f) pgn))" for pgn
    using zero p fpn_pte_fields by (cases "pgn = 0") simp_all
  moreover have "map sbrk (mmap (demo_space f)) = [256]" using rest_eqD(1) [OF d(2)] by (simp add: demo_vma_def)
  moreover have "frame_at (demo_space f) pgn = None" if "(256 :: addr_t) div 256 \<le> pgn" for pgn
    using fr that by auto
  moreover have "length (symrgtbl (demo_space f)) = PAGING_MAX_SYMTBL_SZ"
    using rest_eqD(2) [OF d(2)] by (simp add: PAGING_MAX_SYMTBL_SZ_def)
  ultimately show "space_ok (demo_space f)" using d(1) by (simp add: space_ok_def)
qed

lemma demo_pair_simps:
  "the_mm demo_pair q = (if q = 4 then Some (demo_space 2) else if q = 5 then Some (demo_space 3) else None)"
  "procs demo_pair 4 = Some demo_writer" "procs demo_pair 5 = Some (demo_writer\<lparr>pid := 10, pcb_mm := Some (demo_space 3)\<rparr>)"
  by (simp_all add: demo_pair_def demo_writer_def the_mm_def caller_mm_def)

lemma demo_pair_sep: "sep {} demo_pair"
proof -
  have fm: "frame_map {} demo_pair = [(4, 0) \<mapsto> 2, (5, 0) \<mapsto> 3]"
    using demo_space_ok(4) [of 2] demo_space_ok(4) [of 3] by (auto simp: fun_eq_iff frame_map_def demo_pair_simps)
  have ram: "ram_ok (k_mram demo_pair)" "num_frames (k_mram demo_pair) = 4"
    using wf_demo_dev by (auto simp: ram_ok_def demo_pair_def wf_dev_def num_frames_def frames_ok_def)
  have "frames_sep (frame_map {} demo_pair) (k_mram demo_pair)"
    unfolding frames_sep_def ram(2) fm by (auto simp: inj_on_def ran_def demo_pair_def split: if_splits)
  then show ?thesis
    using ram(1) demo_space_ok(3) [of 2] demo_space_ok(3) [of 3] by (auto simp: sep_def' demo_pair_simps)
qed

lemma demo_pair_registered: "registered demo_pair 4" "registered demo_pair 5"
proof -
  let ?q = "enq 5 (enq 4 static_queue) :: pref queue_t"
  have w: "wf_queue (static_queue :: pref queue_t)" "q_list (static_queue :: pref queue_t) = []"
    by (simp_all add: wf_queue_def q_list_def static_queue_def)
  have "take (q_size ?q) (q_proc ?q) = [Some 4, Some 5]"
    using enq_list [OF w(1), of 4] enq_list [OF enq_wf [OF w(1), of 4], of 5] w
      take_size_map_Some [OF enq_wf [OF enq_wf [OF w(1), of 4], of 5]] by (simp add: MAX_QUEUE_SIZE_def)
  then have k: "sched_find_proc_by_pid (k_sched demo_pair, procs demo_pair) n = find_pid (procs demo_pair) n [Some 4, Some 5]" for n
    by (simp add: sched_find_proc_by_pid_def) (simp add: demo_pair_def demo_machine_def)
  have "pid demo_writer = 9" by (simp add: demo_writer_def demo_user_pcb_def demo_pcb_def)
  then show "registered demo_pair 4" "registered demo_pair 5" by (simp_all add: registered_def k demo_pair_simps)
qed

text \<open>A process with the program of \<open>demo_writer\<close> and one page can run.\<close>

lemma demo_run:
  assumes c: "procs m q = Some c" "code c = code demo_writer" "pc c = 0" and mm: "the_mm m q = Some (demo_space f)" "uint f < 4"
    and d: "wf_dev (k_mram m)" "num_frames (k_mram m) = 4" and reg: "registered m q"
  shows "\<exists>m'. run m q = Some (0, m')"
proof -
  let ?m = "m\<lparr>procs := (procs m)(q \<mapsto> c\<lparr>pc := 1\<rparr>)\<rparr>"
  have 1: "the_mm ?m q = Some (demo_space f)" using mm(1) c(1) by (simp add: the_mm_def caller_mm_def)
  note ds = demo_space_ok [OF mm(2)]
  have 2: "resolve_rg_addr (demo_space f) (int_of_u32 0) 7 = Some 7"
    using ds(5) by (simp add: resolve_rg_addr_def get_symrg_byid_def PAGING_MAX_SYMTBL_SZ_def int_of_u32_def VMRG_USER_MODE_def)
  have "frame_at (demo_space f) 0 = Some f" using ds(4) by simp
  then have "frame_of (demo_space f) 7 = f" by (simp add: frame_at_def frame_of_def split: if_splits)
  then have 3: "resident ?m (demo_space f) 7"
    using ds(2) fpn_pte_fields mm(2) d by (simp add: resident_def PAGING_MAX_PGN_eq num_frames_def)
  have 4: "registered ?m q" using sep_pcb(3) [OF c(1), of "c\<lparr>pc := 1\<rparr>" q] reg by simp
  have 5: "wf_dev (k_mram ?m)" using d(1) by simp
  obtain m' where w: "libwrite ?m q 65 0 7 = Some (0, m')"
    using libwrite_present [OF 1 ds(1) 2 3 4 5, of 65] by auto
  have t: "seg_text (code c) = [\<lparr>opcode = WRITE, arg_0 = 65, arg_1 = 0, arg_2 = 7, arg_3 = 0\<rparr>]" "seg_size (code c) = 1"
    using c(2) by (simp_all add: demo_writer_def)
  show ?thesis using w by (intro exI [of _ m']) (simp add: run_def c(1,3) t execute_def byte_of_u64_def)
qed

lemma demo_pair_dev: "wf_dev (k_mram demo_pair)" "num_frames (k_mram demo_pair) = 4"
  using wf_demo_dev by (simp_all add: demo_pair_def wf_dev_def num_frames_def)

lemma demo_writer_behaved: "\<forall>ins \<in> set (seg_text (code demo_writer)). \<not> raw_write ins"
  by (simp add: demo_writer_def raw_write_def)

theorem process_isolation_witness:
  "\<exists>m'. steps run_step demo_pair [4] = Some m' \<and> sep {} m' \<and> user_view m' 5 9 = user_view demo_pair 5 9"
proof -
  have "\<exists>m'. run demo_pair 4 = Some (0, m')"
    by (rule demo_run [OF demo_pair_simps(2) _ _ _ _ demo_pair_dev demo_pair_registered(1), of 2])
      (simp_all add: demo_pair_simps demo_writer_def)
  then obtain m' where s: "steps run_step demo_pair [4] = Some m'" by (auto simp: run_step_def)
  have "\<forall>p \<in> set [4]. well_behaved demo_pair p"
    using demo_pair_registered demo_writer_behaved by (simp add: well_behaved_def demo_pair_simps)
  from process_isolation [OF demo_pair_sep this s, of 5] s show ?thesis by auto
qed

end
