(* ===== verification/Frames.thy ===== *)
theory Frames
  imports Simulator Isolation
begin

text \<open>
  The frames of RAM in the running simulator: the invariant of \<^verbatim>\<open>Isolation\<close> holds in every reachable
  state, whatever the interleaving; the release of a process gives back all its frames; system
  calls, which find their caller by its PID, find the right one.
\<close>

section \<open>Releasing a process\<close>

lemma free_frames_spec:
  "the_mm m p = Some mm \<Longrightarrow> space_ok mm \<Longrightarrow> free_frames pgs m p = Some m' \<Longrightarrow>
   \<exists>mm'. the_mm m' p = Some mm' \<and> (\<forall>q. q \<noteq> p \<longrightarrow> the_mm m' q = the_mm m q) \<and>
     k_mram m' = (k_mram m)\<lparr>free_fp_list := rev (List.map_filter (frame_at mm) pgs) @ free_fp_list (k_mram m)\<rparr>"
proof (induction pgs arbitrary: m mm)
  case Nil then show ?case by (simp add: map_filter_simps)
next
  case (Cons a pgs)
  let ?e = "pte_get_entry mm a"
  let ?m1 = "set_mm m p (Some (snd ?e))"
  have ok: "pt_ok mm" using Cons.prems(2) by (simp add: space_ok_def)
  have e: "fst ?e = ucast (pte_at mm a)" using pte_get_entry_at [OF ok, of a "fst ?e" "snd ?e"] by simp
  have o: "on_mm (\<lambda>mm. pte_get_entry mm a) m p = Some (fst ?e, ?m1)" using Cons.prems(1) by (simp add: on_mm_def)
  have l: "like mm (snd ?e)" by (rule lookup_like [OF ok])
  note sp = like_space [OF l Cons.prems(2)] and fr = like_frames [OF l]
  have ns: "\<not> PAGING_PAGE_SWAPPED (fst ?e)" using Cons.prems(2) e by (simp add: space_ok_def)
  have z: "\<not> PAGING_PAGE_PRESENT 0" by (simp add: present_bit)
  let ?m2 = "case frame_at mm a of None \<Rightarrow> ?m1 | Some f \<Rightarrow> ?m1\<lparr>k_mram := snd (MEMPHY_put_freefp (k_mram ?m1) f)\<rparr>"
  have r: "free_frames pgs ?m2 p = Some m'"
    using Cons.prems(3) o ns z e by (auto simp: frame_at_def split: if_splits)
  have t: "the_mm ?m2 q = (if q = p then Some (snd ?e) else the_mm m q)" for q
    using Cons.prems(1) by (simp split: option.split)
  have ram: "k_mram ?m2 = (case frame_at mm a of None \<Rightarrow> k_mram m | Some f \<Rightarrow> (k_mram m)\<lparr>free_fp_list := f # free_fp_list (k_mram m)\<rparr>)"
    by (simp add: MEMPHY_put_freefp_def split: option.split)
  have "the_mm ?m2 p = Some (snd ?e)" using t by simp
  from Cons.IH [OF this sp r] obtain mm' where mm': "the_mm m' p = Some mm'" "\<forall>q. q \<noteq> p \<longrightarrow> the_mm m' q = the_mm ?m2 q"
      "k_mram m' = (k_mram ?m2)\<lparr>free_fp_list := rev (List.map_filter (frame_at mm) pgs) @ free_fp_list (k_mram ?m2)\<rparr>"
    unfolding fr by blast
  have "k_mram m' = (k_mram m)\<lparr>free_fp_list := rev (List.map_filter (frame_at mm) (a # pgs)) @ free_fp_list (k_mram m)\<rparr>"
    using mm'(3) unfolding ram by (simp add: map_filter_simps split: option.splits)
  then show ?case using mm'(1,2) t by (intro exI [of _ mm']) simp
qed

lemma frame_page: "frame_at mm pgn = Some f \<Longrightarrow> pgn \<in> set (map of_nat [0..<unat PAGING_MAX_PGN])"
proof -
  assume "frame_at mm pgn = Some f"
  then have "pgn < PAGING_MAX_PGN" by (auto simp: frame_at_def pte_at_def present_bit split: if_splits option.splits)
  then have "unat pgn < unat PAGING_MAX_PGN" by (simp add: word_less_nat_alt)
  then show ?thesis by (intro rev_image_eqI [of "unat pgn", THEN subst [where P = "\<lambda>S. pgn \<in> S", OF set_map [symmetric]]]) auto
qed

lemma distinct_pages: "distinct (map of_nat [0..<unat PAGING_MAX_PGN] :: addr_t list)"
proof -
  have "inj_on (of_nat :: nat \<Rightarrow> addr_t) {0..<unat PAGING_MAX_PGN}"
    by (rule inj_on_inverseI [of _ unat]) (simp add: PAGING_MAX_PGN_eq unsigned_of_nat take_bit_nat_eq_self)
  then show ?thesis by (simp add: distinct_map)
qed

lemma map_filter_distinct:
  "distinct xs \<Longrightarrow> inj_on f (dom f) \<Longrightarrow> distinct (List.map_filter f xs)"
  by (auto simp: map_filter_def distinct_map inj_on_def dom_def)

lemma map_filter_set: "set (List.map_filter f xs) = {y. \<exists>x \<in> set xs. f x = Some y}"
  by (induction xs) (auto simp: map_filter_simps split: option.split)

lemma free_pcb_sep:
  assumes s: "mem_sep X m" "p \<notin> X" and f: "free_pcb m (Some p) = Some (n, m')"
  shows "mem_sep X m' \<and> the_mm m' = (the_mm m)(p := None) \<and> load_byte (k_mram m') = load_byte (k_mram m) \<and>
    set (free_fp_list (k_mram m')) = set (free_fp_list (k_mram m)) \<union> {f. \<exists>pgn. frame_map X m (p, pgn) = Some f}"
proof -
  have upd: "the_mm (x\<lparr>procs := (procs x)(p := None)\<rparr>) = (the_mm x)(p := None)" for x :: machine
    by (auto simp: fun_eq_iff the_mm_def caller_mm_def)
  obtain mmp where mmp: "caller_mm m p = Some mmp" using f by (auto simp: free_pcb_def bind_Some_iff)
  show ?thesis
  proof (cases mmp)
    case None
    then have m': "m' = m\<lparr>procs := (procs m)(p := None)\<rparr>" using f mmp by (auto simp: free_pcb_def)
    have "the_mm m p = None" using mmp None by (simp add: the_mm_def)
    then have t: "the_mm m' = the_mm m" unfolding m' upd by auto
    then have "mem_sep X m' = mem_sep X m" by (rule mem_sep_cong [rotated]) (simp add: m')
    then show ?thesis using s(1) t \<open>the_mm m p = None\<close> by (simp add: m' frame_map_def fun_upd_idem)
  next
    case (Some mm)
    then have mm: "the_mm m p = Some mm" using mmp by (simp add: the_mm_Some)
    have sp: "space_ok mm" using s mm by (simp add: mem_sep_def)
    let ?pgs = "map of_nat [0..<unat PAGING_MAX_PGN] :: addr_t list"
    obtain m1 where m1: "free_frames ?pgs m p = Some m1" "m' = m1\<lparr>procs := (procs m1)(p := None)\<rparr>"
      using f mmp Some by (auto simp: free_pcb_def free_pcb_memph_def bind_Some_iff Let_def case_prod_unfold)
    let ?fs = "List.map_filter (frame_at mm) ?pgs"
    from free_frames_spec [OF mm sp m1(1)] have r:
      "\<forall>q. q \<noteq> p \<longrightarrow> the_mm m1 q = the_mm m q"
      "k_mram m1 = (k_mram m)\<lparr>free_fp_list := rev ?fs @ free_fp_list (k_mram m)\<rparr>" by blast+
    have t: "the_mm m' = (the_mm m)(p := None)" unfolding m1(2) upd using r(1) by auto
    have k: "k_mram m' = (k_mram m)\<lparr>free_fp_list := rev ?fs @ free_fp_list (k_mram m)\<rparr>" using r(2) m1(2) by simp
    have F: "frame_map X m (p, pgn) = frame_at mm pgn" for pgn using s(2) mm by (simp add: frame_map_def)
    have fs: "set ?fs = {f. \<exists>pgn. frame_at mm pgn = Some f}" unfolding map_filter_set using frame_page by blast
    have inj: "inj_on (frame_map X m) (dom (frame_map X m))"
      and rng: "\<And>x f. frame_map X m x = Some f \<Longrightarrow> uint f < num_frames (k_mram m) \<and> f \<notin> set (free_fp_list (k_mram m))"
      using s(1) by (auto simp: mem_sep_def frames_sep_def ran_def)
    have eqD: "x = y" if "frame_map X m x = Some f" "frame_map X m y = Some f" for x y f
      using inj that by (metis domI inj_onD)
    have "inj_on (frame_at mm) (dom (frame_at mm))"
    proof (rule inj_onI)
      fix x y assume xy: "x \<in> dom (frame_at mm)" "y \<in> dom (frame_at mm)" "frame_at mm x = frame_at mm y"
      then obtain f where "frame_map X m (p, x) = Some f" "frame_map X m (p, y) = Some f" by (auto simp: F)
      then have "(p, x) = (p, y)" by (rule eqD)
      then show "x = y" by simp
    qed
    then have d: "distinct ?fs" using map_filter_distinct [OF distinct_pages] by blast
    have own: "\<exists>pgn. frame_map X m (p, pgn) = Some f" if "f \<in> set ?fs" for f using that fs F by auto
    have fok: "distinct (free_fp_list (k_mram m))" "\<forall>f \<in> set (free_fp_list (k_mram m)). uint f < num_frames (k_mram m)"
      using s(1) by (simp_all add: mem_sep_def ram_ok_def frames_ok_def)
    have ram: "ram_ok (k_mram m')"
    proof -
      have "set ?fs \<inter> set (free_fp_list (k_mram m)) = {}" using own rng by blast
      then have "distinct (rev ?fs @ free_fp_list (k_mram m))" using d fok by simp
      moreover have "\<forall>f \<in> set (rev ?fs @ free_fp_list (k_mram m)). uint f < num_frames (k_mram m)" using fok own rng by fastforce
      ultimately show ?thesis
        using s(1) unfolding mem_sep_def k by (simp add: ram_ok_def frames_ok_def wf_dev_def num_frames_def)
    qed
    have F': "frame_map X m' (q, pgn) = (if q = p then None else frame_map X m (q, pgn))" for q pgn
      using t by (simp add: frame_map_def)
    have "frames_sep (frame_map X m') (k_mram m')"
      unfolding frames_sep_def
    proof (intro conjI ballI inj_onI)
      fix x y assume xy: "x \<in> dom (frame_map X m')" "y \<in> dom (frame_map X m')" "frame_map X m' x = frame_map X m' y"
      then obtain f where "frame_map X m' x = Some f" "frame_map X m' y = Some f" by auto
      then show "x = y" using eqD [of x f y] by (cases x; cases y) (auto simp: F' split: if_splits)
    next
      fix f assume "f \<in> ran (frame_map X m')"
      then obtain q pgn where q: "frame_map X m' (q, pgn) = Some f" by (auto simp: ran_def)
      then have q': "q \<noteq> p" "frame_map X m (q, pgn) = Some f" by (auto simp: F' split: if_splits)
      then show "uint f < num_frames (k_mram m')" using rng by (simp add: k num_frames_def)
      show "f \<notin> set (free_fp_list (k_mram m'))" unfolding k using rng [OF q'(2)] own eqD [OF q'(2)] q'(1) by (auto simp del: set_map)
    qed
    moreover have "\<forall>q mm2. q \<notin> X \<longrightarrow> the_mm m' q = Some mm2 \<longrightarrow> space_ok mm2" using s(1) t by (auto simp: mem_sep_def)
    moreover have "set (free_fp_list (k_mram m')) = set (free_fp_list (k_mram m)) \<union> {f. \<exists>pgn. frame_map X m (p, pgn) = Some f}"
      unfolding k F using fs by auto
    moreover have "load_byte (k_mram m') = load_byte (k_mram m)" unfolding k by (simp add: load_byte_def fun_eq_iff)
    ultimately show ?thesis using ram t unfolding mem_sep_def by blast
  qed
qed

lemma free_pcb_pool:
  assumes "mem_sep X m" "p \<notin> X" "free_pcb m (Some p) = Some (n, m')"
  shows "pool X m' = pool X m"
proof -
  note f = free_pcb_sep [OF assms]
  have "frame_map X m' (q, pgn) = (if q = p then None else frame_map X m (q, pgn))" for q pgn
    using f by (simp add: frame_map_def)
  then have "ran (frame_map X m) = ran (frame_map X m') \<union> {f. \<exists>pgn. frame_map X m (p, pgn) = Some f}"
    by (auto simp: ran_def split: if_splits) metis
  then show ?thesis using f by (auto simp: pool_def)
qed


section \<open>The reachable states\<close>

text \<open>The process whose memory descriptor the loader has not set up: its \<^verbatim>\<open>mm\<close> is what \<^verbatim>\<open>malloc\<close> left.\<close>

definition unready :: "os_state \<Rightarrow> pref set" where
  "unready s = (if ld_pc (loader s) \<in> {LTime, LTimeNext, LTimeWait, LInit} then set_option (ld_proc (loader s)) else {})"

definition mem_inv :: "os_state \<Rightarrow> bool" where
  "mem_inv s \<longleftrightarrow> mem_sep (unready s) (mach s)"

lemma find_pid_in: "find_pid pcbs n rs = Some (Some r) \<Longrightarrow> Some r \<in> set rs"
  by (induction pcbs n rs rule: find_pid.induct) (auto simp: bind_Some_iff split: if_splits)

lemma find_proc_in:
  assumes "wf_sched sch" "sched_find_proc_by_pid (sch, pcbs) n = Some (Some r)"
  shows "r \<in> set (q_list (running_list sch))"
proof -
  have "Some r \<in> set (take (q_size (running_list sch)) (q_proc (running_list sch)))"
    using assms(2) find_pid_in by (auto simp: sched_find_proc_by_pid_def split: if_splits)
  then show ?thesis using assms(1) by (auto simp: take_size_map_Some wf_sched_def)
qed

lemma mem_inv_sep:
  assumes "os_inv n N s" "mem_inv s"
  shows "sep (unready s) (mach s)"
proof -
  have l: "list_inv n s" and w: "wf_sched (k_sched (mach s))" using assms(1) by (simp_all add: os_inv_def own_inv_def)
  have "sched_find_proc_by_pid (k_sched (mach s), procs (mach s)) k \<noteq> Some (Some r)" if "r \<in> unready s" for r k
    using find_proc_in [OF w] l that by (fastforce simp: unready_def list_inv_def split: if_splits)
  then show ?thesis using assms(2) by (simp add: sep_def mem_inv_def)
qed

lemma put_proc_mm:
  assumes "put_proc (sch, pcbs) x = Some (sch', pcbs') \<or> add_proc (sch, pcbs) x = Some (sch', pcbs')"
  shows "map_option pcb_mm (pcbs' r) = map_option pcb_mm (pcbs r)"
  using assms
  by (auto simp: put_proc_def put_mlq_proc_def add_proc_def add_mlq_proc_def Let_def bind_Some_iff split: if_splits option.splits)

lemma the_mm_sched [simp]: "the_mm (m\<lparr>k_sched := sch\<rparr>) = the_mm m"
  by (simp add: fun_eq_iff the_mm_def caller_mm_def)

lemma the_mm_put:
  "put_proc (k_sched m, procs m) x = Some (sch, pcbs) \<or> add_proc (k_sched m, procs m) x = Some (sch, pcbs) \<Longrightarrow>
   the_mm (m\<lparr>k_sched := sch, procs := pcbs\<rparr>) = the_mm m"
  using put_proc_mm by (simp add: fun_eq_iff the_mm_def caller_mm_def)

lemma mem_sep_local:
  assumes inv: "os_inv n N s" "mem_inv s" and i: "i < n" and lp: "local_pc (cpus s i)"
    and st: "cpu_local cfg don (mach s) (cpus s i) = Some (m1, c1)"
  shows "mem_sep (unready s) m1 \<and> pool (unready s) m1 \<subseteq> pool (unready s) (mach s) \<and>
    (pool (unready s) m1 = pool (unready s) (mach s) \<or> (\<exists>p ins. cpu_pc (cpus s i) = CCheck \<and> cpu_proc (cpus s i) = Some p \<and>
       next_inst (mach s) p = Some ins \<and> map_op ins))"
proof -
  let ?c = "cpus s i" and ?m = "mach s"
  have own: "own_inv n s" using inv(1) by (simp add: os_inv_def)
  have ms: "mem_sep (unready s) ?m" using inv(2) by (simp add: mem_inv_def)
  have same: "mem_sep (unready s) m1 \<and> pool (unready s) m1 = pool (unready s) ?m" if "k_mram m1 = k_mram ?m" "the_mm m1 = the_mm ?m"
    using mem_sep_cong [OF that] ms by simp
  have ok: "cpu_ok ?c" using own i by (simp add: own_inv_def)
  have notin: "p \<notin> unready s" if "cpu_holds ?c = Some p" for p
    using owned_once(3) [OF own i that] by (auto simp: unready_def)
  from st lp ok show ?thesis
  proof (cases rule: cpu_local_cases)
    case (schedule sch) then show ?thesis using same by simp
  next
    case (release p k)
    then have "cpu_holds ?c = Some p" by (simp add: cpu_holds_def)
    then show ?thesis using free_pcb_sep [OF ms notin release(3)] free_pcb_pool [OF ms notin release(3)] by blast
  next
    case (put sch pcbs)
    have "the_mm m1 = the_mm ?m" using the_mm_put [of ?m, OF disjI1 [OF put(2)]] put(3) by simp
    then show ?thesis using same put(3) by simp
  next
    case (execute p r)
    then have "cpu_holds ?c = Some p" by (simp add: cpu_holds_def)
    then show ?thesis using run_kept [OF mem_inv_sep [OF inv] notin execute(3)] execute(1,2) by (auto simp: sep_def)
  qed
qed

lemma mem_inv_cong: "mach s' = mach s \<Longrightarrow> loader s' = loader s \<Longrightarrow> mem_inv s' = mem_inv s"
  by (simp only: mem_inv_def unready_def)

lemma mem_inv_cpu:
  assumes inv: "os_inv n N s" "mem_inv s" and i: "i < n" and st: "cpu_step cfg i s = Some s'"
  shows "mem_inv s'"
proof (cases "local_pc (cpus s i)")
  case True
  then obtain m1 c1 where m1: "cpu_local cfg (os_done s) (mach s) (cpus s i) = Some (m1, c1)" "s' = s\<lparr>mach := m1, cpus := (cpus s)(i := c1)\<rparr>"
    using st by (auto simp: cpu_step_def)
  have "unready s' = unready s" using m1(2) by (simp add: unready_def)
  then show ?thesis using mem_sep_local [OF inv i True m1(1)] m1(2) by (simp add: mem_inv_def)
next
  case False
  then have "mach s' = mach s \<and> loader s' = loader s" using st by (cases "cpu_pc (cpus s i)") (auto simp: cpu_step_def)
  then show ?thesis using inv(2) mem_inv_cong [of s' s] by simp
qed

lemma fresh_space: "space_ok (snd (init_mm jl jm mm))" "frame_at (snd (init_mm jl jm mm)) = Map.empty"
proof -
  note i = init_mm_ok(1,2) [of jl jm mm]
  have z: "frame_at (snd (init_mm jl jm mm)) pgn = None" for pgn using i(2) by (simp add: frame_at_def present_bit)
  then show "frame_at (snd (init_mm jl jm mm)) = Map.empty" by auto
  have "map sbrk (mmap (snd (init_mm jl jm mm))) = [0]" "length (symrgtbl (snd (init_mm jl jm mm))) = PAGING_MAX_SYMTBL_SZ"
    by (simp_all add: init_mm_def Let_def)
  then show "space_ok (snd (init_mm jl jm mm))" using i z by (simp add: space_ok_def swapped_bit)
qed

lemma mem_inv_ld:
  assumes inv: "os_inv n (n_procs cfg) s" "mem_inv s" and st: "ld_step files cfg j s = done_with s'"
    and fresh: "procs (mach s) (new_ref j) = None"
  shows "mem_inv s' \<and> pool (unready s') (mach s') = pool (unready s) (mach s)"
proof -
  have ldp: "ld_proc (loader s) \<noteq> None \<longleftrightarrow> loading (ld_pc (loader s))" using inv(1) by (simp add: os_inv_def load_inv_def)
  have ms: "mem_sep (unready s) (mach s)" using inv(2) by (simp add: mem_inv_def)
  from st show ?thesis
  proof (cases rule: ld_step_cases)
    case (load proc a)
    let ?r = "new_ref j"
    have u: "unready s = {}" "unready s' = {?r}" using load by (simp_all add: unready_def)
    have t: "the_mm (mach s') q = (if q = ?r then pcb_mm proc else the_mm (mach s) q)" for q
      using load(3) by (simp add: the_mm_def caller_mm_def)
    have n: "the_mm (mach s) ?r = None" using fresh by (simp add: the_mm_def caller_mm_def)
    have "frame_map {?r} (mach s') = frame_map {} (mach s)" using t n by (auto simp: fun_eq_iff frame_map_def)
    moreover have "k_mram (mach s') = k_mram (mach s)" using load(3) by simp
    ultimately show ?thesis using ms u t by (auto simp: mem_inv_def mem_sep_def pool_def)
  next
    case (init r mm)
    let ?mm = "snd (init_mm (new_frees j) (new_mode j) (new_mm j))"
    have u: "unready s = {r}" "unready s' = {}" using init by (simp_all add: unready_def)
    have t: "the_mm (mach s') q = (if q = r \<and> procs (mach s) r \<noteq> None then Some ?mm else the_mm (mach s) q)" for q
      using init by (auto simp: the_mm_def caller_mm_def set_mm_def)
    have k: "k_mram (mach s') = k_mram (mach s)" using init by simp
    have pr: "procs (mach s) r \<noteq> None"
    proof -
      have "0 < owners n s r" using init by (simp add: owners_def)
      then show ?thesis using inv(1) by (auto simp: os_inv_def own_inv_def)
    qed
    then have "frame_map {} (mach s') = frame_map {r} (mach s)" using t fresh_space(2) by (auto simp: fun_eq_iff frame_map_def)
    then show ?thesis using ms u t k pr fresh_space(1) by (auto simp: mem_inv_def mem_sep_def pool_def split: if_splits)
  next
    case (add sch pcbs)
    have "unready s = {}" "unready s' = {}" using add by (simp_all add: unready_def)
    moreover have "k_mram (mach s') = k_mram (mach s)" "the_mm (mach s') = the_mm (mach s)"
      using add(3) the_mm_put [of "mach s", OF disjI2 [OF add(2)]] by simp_all
    ultimately show ?thesis using ms mem_sep_cong [of "mach s'" "mach s"] by (simp add: mem_inv_def)
  next
    case (move l')
    have "unready s' = unready s" using move(1,4) ldp by (auto simp: unready_def)
    then show ?thesis using ms move(2) by (simp add: mem_inv_def)
  qed
qed

lemma mem_inv_start:
  assumes "256 \<le> uint (memramsz cfg)" "uint (memramsz cfg) \<le> 2097152"
  shows "mem_inv (os_start cfg dev)"
proof -
  have sz: "uint (memramsz cfg) < 2 ^ 31" using assms(2) by simp
  have ram: "ram_ok (snd (init_memphy dev (memramsz cfg) 1))"
    using wf_init_memphy [OF assms(1) sz, of dev 1] assms(2) zdiv_mono1 [OF assms(2), of 256] by (simp add: ram_ok_def)
  have t: "the_mm (mach (os_start cfg dev)) = Map.empty" by (simp add: fun_eq_iff os_start_def start_machine_def the_mm_def caller_mm_def)
  have "frame_map X (mach (os_start cfg dev)) = Map.empty" for X by (simp add: fun_eq_iff frame_map_def t)
  moreover have k: "k_mram (mach (os_start cfg dev)) = snd (init_memphy dev (memramsz cfg) 1)"
    by (simp add: os_start_def start_machine_def)
  ultimately show ?thesis unfolding mem_inv_def mem_sep_def frames_sep_def t k using ram by simp
qed

lemma os_reach_mem:
  assumes "256 \<le> uint (memramsz cfg)" "uint (memramsz cfg) \<le> 2097152"
  shows "os_reach files cfg s \<Longrightarrow> mem_inv s"
proof (induction rule: os_reach.induct)
  case (start dev) show ?case by (rule mem_inv_start [OF assms])
next
  case (step s s')
  note inv = os_reach_inv [OF step.hyps(1)]
  from step.hyps(2) show ?case
  proof (cases rule: os_step.cases)
    case (cpu i) then show ?thesis using mem_inv_cpu [OF inv step.IH] by blast
  next
    case (ld j) then show ?thesis using mem_inv_ld [OF inv step.IH] by blast
  next
    case (tick t) then show ?thesis using step.IH mem_inv_cong [of s' s] by simp
  qed
qed


section \<open>Process numbers\<close>

text \<open>
  Live PCBs have different PIDs, all below the next one; and with at most 50 processes the running
  list holds every live PCB but the loader's and those about to be freed.
\<close>

definition pids_ok :: "nat \<Rightarrow> os_state \<Rightarrow> bool" where
  "pids_ok N s \<longleftrightarrow> (N \<le> MAX_QUEUE_SIZE \<longrightarrow>
     unat (avail_pid s) = 1 + ld_i (loader s) + (if ld_proc (loader s) = None then 0 else 1) \<and>
     (\<forall>r c. procs (mach s) r = Some c \<longrightarrow> unat (pid c) < unat (avail_pid s)) \<and>
     (\<forall>r r' c c'. procs (mach s) r = Some c \<longrightarrow> procs (mach s) r' = Some c' \<longrightarrow> pid c = pid c' \<longrightarrow> r = r'))"

definition listed :: "nat \<Rightarrow> nat \<Rightarrow> os_state \<Rightarrow> bool" where
  "listed n N s \<longleftrightarrow> (q_list (running_list (k_sched (mach s))) \<noteq> [] \<longrightarrow> krnl_linked (k_sched (mach s))) \<and>
     (N \<le> MAX_QUEUE_SIZE \<longrightarrow> (\<forall>r. procs (mach s) r \<noteq> None \<longrightarrow> ld_proc (loader s) \<noteq> Some r \<longrightarrow>
        (\<forall>i < n. \<not> freeing (cpus s i) r) \<longrightarrow> r \<in> set (q_list (running_list (k_sched (mach s))))))"

lemma scan_linked: "krnl_linked (snd (scan_mlq skip sch ks)) = krnl_linked sch"
proof (induction ks)
  case (Cons k ks)
  have "krnl_linked (snd (mlq_take sch p)) = krnl_linked sch" for p by (simp add: mlq_take_def Let_def case_prod_unfold)
  then show ?case using Cons by (simp add: Let_def)
qed simp

lemma get_proc_linked: "krnl_linked (snd (get_proc sch)) = krnl_linked sch"
proof -
  have r: "krnl_linked (reset_mlq_slot x) = krnl_linked x" for x by (simp add: reset_mlq_slot_def)
  show ?thesis
    using scan_linked [of no_slot_or_empty sch "[0..<MAX_PRIO]"] scan_linked [of mlq_empty]
    by (auto simp: get_proc_def get_mlq_proc_def r split: prod.split option.split)
qed

text \<open>A step of a CPU keeps PIDs, programs and the link to the scheduler.\<close>

lemma cpu_local_pids:
  assumes wf: "wf_sched (k_sched m)" and lp: "local_pc c" and ok: "cpu_ok c"
    and st: "cpu_local cfg don m c = Some (m1, c1)"
  shows "(krnl_linked (k_sched m) \<longrightarrow> krnl_linked (k_sched m1)) \<and>
    (\<forall>r d. procs m1 r = Some d \<longrightarrow> (\<exists>d0. procs m r = Some d0 \<and> pid d0 = pid d \<and> code d0 = code d))"
proof -
  have keep: "\<exists>d0. procs m r = Some d0 \<and> pid d0 = pid d \<and> code d0 = code d"
    if "map_option pid (procs m1 r) = map_option pid (procs m r)" "map_option code (procs m1 r) = map_option code (procs m r)"
      "procs m1 r = Some d" for r d
    using that by (cases "procs m r") auto
  from st lp ok show ?thesis
  proof (cases rule: cpu_local_cases)
    case (schedule sch)
    then show ?thesis using get_proc_linked [of "k_sched m"]
      by (auto simp: remove_proc_def remove_from_running_list_def split: option.splits)
  next
    case (release p k)
    then obtain m2 where m2: "mm_only m m2" "m1 = m2\<lparr>procs := (procs m2)(p := None)\<rparr>" using free_pcb_shape by blast
    have "\<exists>d0. procs m r = Some d0 \<and> pid d0 = pid d \<and> code d0 = code d" if "procs m1 r = Some d" for r d
    proof -
      have "r \<noteq> p" "procs m2 r = Some d" using that m2(2) by (auto split: if_splits)
      moreover have "map_option code (procs m2 r) = map_option code (procs m r)"
        by (rule pcb_mm_field) (use m2(1) in \<open>simp_all add: mm_only_def\<close>)
      ultimately show ?thesis using mm_only_pid [OF m2(1), of r] m2(2) by (intro keep [OF _ _ that]) simp_all
    qed
    then show ?thesis using m2 by (simp add: mm_only_def)
  next
    case (put sch pcbs)
    have "map_option pid (pcbs r) = map_option pid (procs m r)" "map_option code (pcbs r) = map_option code (procs m r)"
        "krnl_linked (k_sched m) \<longrightarrow> krnl_linked sch" for r
      using put(2) by (auto simp: put_proc_def put_mlq_proc_def Let_def bind_Some_iff split: if_splits option.splits)
    then show ?thesis using put(3) keep by auto
  next
    case (execute p r)
    note o = run_other_pcbs [OF execute(3)]
    have "\<exists>d0. procs m q = Some d0 \<and> pid d0 = pid d \<and> code d0 = code d" if "procs m1 q = Some d" for q d
      by (rule keep [OF _ _ that]) (use o in blast)+
    then show ?thesis using o by simp
  qed
qed

definition pid_inv :: "nat \<Rightarrow> nat \<Rightarrow> os_state \<Rightarrow> bool" where
  "pid_inv n N s \<longleftrightarrow> pids_ok N s \<and> listed n N s"

lemma pids_ok_step:
  assumes ok: "pids_ok N s" and same: "avail_pid s' = avail_pid s" "ld_i (loader s') = ld_i (loader s)"
      "(ld_proc (loader s') = None) = (ld_proc (loader s) = None)"
    and p: "\<And>r d. procs (mach s') r = Some d \<Longrightarrow> \<exists>d0. procs (mach s) r = Some d0 \<and> pid d0 = pid d"
  shows "pids_ok N s'"
  unfolding pids_ok_def
proof (intro impI conjI allI)
  assume N: "N \<le> MAX_QUEUE_SIZE"
  note o = ok [unfolded pids_ok_def, rule_format, OF N]
  show "unat (avail_pid s') = 1 + ld_i (loader s') + (if ld_proc (loader s') = None then 0 else 1)" using o same by simp
  show "unat (pid c) < unat (avail_pid s')" if "procs (mach s') r = Some c" for r c
    using o p [OF that] same(1) by metis
  show "r = r'" if "procs (mach s') r = Some c" "procs (mach s') r' = Some c'" "pid c = pid c'" for r r' c c'
    using o p [OF that(1)] p [OF that(2)] that(3) by metis
qed

lemma pid_inv_cong:
  assumes inv: "pid_inv n N s" and same: "mach s' = mach s" "avail_pid s' = avail_pid s" "ld_i (loader s') = ld_i (loader s)"
      "ld_proc (loader s') = ld_proc (loader s)"
    and f: "\<And>i r. i < n \<Longrightarrow> freeing (cpus s i) r \<Longrightarrow> freeing (cpus s' i) r"
  shows "pid_inv n N s'"
proof -
  have "pids_ok N s'" by (rule pids_ok_step [of N s]) (use inv same in \<open>auto simp: pid_inv_def\<close>)
  moreover have "listed n N s'"
    using inv f unfolding pid_inv_def listed_def same by blast
  ultimately show ?thesis by (simp add: pid_inv_def)
qed

lemma pid_inv_cpu:
  assumes inv: "os_inv n N s" "pid_inv n N s" and i: "i < n" and st: "cpu_step cfg i s = Some s'"
  shows "pid_inv n N s'"
proof (cases "local_pc (cpus s i)")
  case True
  then obtain m1 c1 where m1: "cpu_local cfg (os_done s) (mach s) (cpus s i) = Some (m1, c1)" "s' = s\<lparr>mach := m1, cpus := (cpus s)(i := c1)\<rparr>"
    using st by (auto simp: cpu_step_def)
  have own: "wf_sched (k_sched (mach s))" "cpu_ok (cpus s i)" and lst: "list_inv n s"
    using inv(1) i by (auto simp: os_inv_def own_inv_def)
  note k = cpu_local_pids [OF own(1) True own(2) m1(1)]
  have eff: "local_effect (mach s) (cpus s i) m1 c1" by (rule cpu_local_effect [OF own True m1(1)])
  have "pids_ok N s'"
  proof (rule pids_ok_step [of N s])
    show "pids_ok N s" using inv(2) by (simp add: pid_inv_def)
    show "\<exists>d0. procs (mach s) r = Some d0 \<and> pid d0 = pid d" if "procs (mach s') r = Some d" for r d
      using conjunct2 [OF k, rule_format, of r d] that m1(2) by auto
  qed (simp_all add: m1(2))
  moreover have "listed n N s'"
  proof -
    let ?l = "q_list (running_list (k_sched (mach s)))" and ?l1 = "q_list (running_list (k_sched m1))"
    have wq: "wf_queue (running_list (k_sched (mach s)))" using own(1) by (simp add: wf_sched_def)
    have l1: "?l1 = (if cpu_pc (cpus s i) = CRemove then remove1 (the (cpu_proc (cpus s i))) ?l else ?l)"
      using eff wq by (simp add: local_effect_def purge_list(1))
    have "?l1 \<noteq> [] \<longrightarrow> krnl_linked (k_sched m1)" using l1 inv(2) k by (auto simp: pid_inv_def listed_def split: if_splits)
    moreover have "r \<in> set ?l1"
      if N: "N \<le> MAX_QUEUE_SIZE" and r: "procs m1 r \<noteq> None" "ld_proc (loader s) \<noteq> Some r" "\<forall>j < n. \<not> freeing (((cpus s)(i := c1)) j) r" for r
    proof -
      have r0: "procs (mach s) r \<noteq> None" "\<not> freeing (cpus s i) r" using eff r(1) by (auto simp: local_effect_def)
      have nf: "\<not> freeing c1 r" using r(3) i by (auto dest: spec [of _ i])
      have "\<forall>j < n. \<not> freeing (cpus s j) r" using r(3) r0(2) by (metis fun_upd_apply)
      then have rl: "r \<in> set ?l" using inv(2) N r0(1) r(2) unfolding pid_inv_def listed_def by blast
      show ?thesis
      proof (cases "cpu_pc (cpus s i) = CRemove")
        case True
        then have c1: "cpu_pc c1 = CFree" "cpu_proc c1 = cpu_proc (cpus s i)" using m1(1) by (auto simp: cpu_local_def)
        obtain y where y: "cpu_proc (cpus s i) = Some y" using own(2) True by (auto simp: cpu_ok_def)
        then have "r \<noteq> y" using nf c1 by auto
        then show ?thesis using rl l1 True y by simp
      next
        case False then show ?thesis using rl l1 by simp
      qed
    qed
    ultimately show ?thesis using m1(2) by (simp add: listed_def)
  qed
  ultimately show ?thesis by (simp add: pid_inv_def)
next
  case False
  then obtain pc' where s': "mach s' = mach s" "loader s' = loader s" "avail_pid s' = avail_pid s"
      "cpus s' = (cpus s)(i := (cpus s i)\<lparr>cpu_pc := pc'\<rparr>)" "cpu_pc (cpus s i) \<noteq> CFree"
    using st by (cases "cpu_pc (cpus s i)") (auto simp: cpu_step_def)
  show ?thesis by (rule pid_inv_cong [OF inv(2)]) (use s' in auto)
qed

lemma load_pid: "load files junk tx a fpath = done_with (proc, a') \<Longrightarrow> pid proc = a \<and> a' = a + 1"
  by (auto simp: load_def Let_def and_then_done split: option.splits prod.splits if_splits)

lemma pid_inv_load:
  assumes pk: "pids_ok N s" and N: "N \<le> MAX_QUEUE_SIZE" and l: "ld_i (loader s) < N" "ld_proc (loader s) = None"
    and s': "procs (mach s') = (procs (mach s))(r0 \<mapsto> proc)" "pid proc = avail_pid s" "avail_pid s' = avail_pid s + 1"
      "ld_i (loader s') = ld_i (loader s)" "ld_proc (loader s') = Some r0"
  shows "pids_ok N s'"
  unfolding pids_ok_def
proof (intro impI conjI allI)
  note o = pk [unfolded pids_ok_def, rule_format, OF N]
  have a: "unat (avail_pid s) = 1 + ld_i (loader s)" "ld_i (loader s) < 50" using o l N by (auto simp: MAX_QUEUE_SIZE_def)
  then have a1: "unat (avail_pid s') = 2 + ld_i (loader s)" using s'(3) by (simp add: unat_word_ariths)
  show "unat (avail_pid s') = 1 + ld_i (loader s') + (if ld_proc (loader s') = None then 0 else 1)" using s'(4,5) a1 by simp
  have pids: "(r = r0 \<and> pid c = avail_pid s) \<or> (r \<noteq> r0 \<and> procs (mach s) r = Some c)" if "procs (mach s') r = Some c" for r c
    using that s'(1,2) by (auto split: if_splits)
  have lt: "unat (pid c) < unat (avail_pid s)" if "procs (mach s) r = Some c" for r c using o that by blast
  show "unat (pid c) < unat (avail_pid s')" if "procs (mach s') r = Some c" for r c
    using pids [OF that] lt a a1 by fastforce
  show "r = r'" if "procs (mach s') r = Some c" "procs (mach s') r' = Some c'" "pid c = pid c'" for r r' c c'
    using pids [OF that(1)] pids [OF that(2)] that(3) lt o by (metis less_irrefl)
qed

text \<open>While a process is with the loader, the running list is not full.\<close>

lemma running_list_room:
  assumes inv: "os_inv n N s" and x: "ld_proc (loader s) = Some x" and N: "N \<le> MAX_QUEUE_SIZE"
  shows "length (q_list (running_list (k_sched (mach s)))) < MAX_QUEUE_SIZE"
proof -
  let ?l = "q_list (running_list (k_sched (mach s)))"
  have li: "list_inv n s" "load_inv N s" using inv by (simp_all add: os_inv_def)
  have "set ?l \<subseteq> dom (procs (mach s)) - {x}" using li(1) x unfolding list_inv_def by blast
  moreover have fin: "finite (dom (procs (mach s)))" using li(2) by (simp add: load_inv_def)
  ultimately have "card (set ?l) \<le> card (dom (procs (mach s)) - {x})" by (intro card_mono) auto
  also have "\<dots> < card (dom (procs (mach s)))"
  proof (rule psubset_card_mono [OF fin])
    have "0 < owners n s x" using x by (simp add: owners_def)
    then have "x \<in> dom (procs (mach s))" using inv by (simp add: os_inv_def own_inv_def)
    then show "dom (procs (mach s)) - {x} \<subset> dom (procs (mach s))" by blast
  qed
  also have "\<dots> \<le> N" using li(2) x by (simp add: load_inv_def)
  finally show ?thesis using N li(1) by (simp add: list_inv_def distinct_card)
qed

lemma listed_add:
  assumes inv: "os_inv n N s" and ls: "listed n N s" and x: "ld_proc (loader s) = Some x"
    and a: "add_proc (k_sched (mach s), procs (mach s)) (Some x) = Some (sch, pcbs)"
    and s': "mach s' = (mach s)\<lparr>k_sched := sch, procs := pcbs\<rparr>" "cpus s' = cpus s"
  shows "listed n N s'"
proof -
  let ?l = "q_list (running_list (k_sched (mach s)))"
  have wq: "wf_queue (running_list (k_sched (mach s)))" using inv by (simp add: os_inv_def own_inv_def wf_sched_def)
  have p: "map_option pid (pcbs q) = map_option pid (procs (mach s) q)" "krnl_linked sch" for q
    using a by (auto simp: add_proc_def add_mlq_proc_def Let_def bind_Some_iff)
  have "r \<in> set (q_list (running_list sch))"
    if N: "N \<le> MAX_QUEUE_SIZE" and r: "pcbs r \<noteq> None" "\<forall>i < n. \<not> freeing (cpus s i) r" for r
  proof -
    have l: "q_list (running_list sch) = ?l @ [x]"
      using add_proc_running [OF a] wq running_list_room [OF inv x N] by (simp add: enq_list)
    have "procs (mach s) r \<noteq> None" using r(1) p(1) [of r] by (metis map_option_is_None)
    then show ?thesis using ls N r(2) x unfolding listed_def l by auto
  qed
  then show ?thesis using s' p(2) by (simp add: listed_def)
qed

lemma pid_inv_ld:
  assumes inv: "os_inv n (n_procs cfg) s" "pid_inv n (n_procs cfg) s" and st: "ld_step files cfg j s = done_with s'"
  shows "pid_inv n (n_procs cfg) s'"
proof -
  let ?N = "n_procs cfg"
  have ldp: "ld_proc (loader s) \<noteq> None \<longleftrightarrow> loading (ld_pc (loader s))" using inv(1) by (simp add: os_inv_def load_inv_def)
  have pk: "pids_ok ?N s" and ls: "listed n ?N s" using inv(2) by (simp_all add: pid_inv_def)
  have step: "pids_ok ?N s'" if "\<And>q. map_option pid (procs (mach s') q) = map_option pid (procs (mach s) q)"
      "avail_pid s' = avail_pid s" "ld_i (loader s') + (if ld_proc (loader s') = None then 0 else 1) =
         ld_i (loader s) + (if ld_proc (loader s) = None then 0 else 1)"
  proof -
    have "\<exists>d0. procs (mach s) q = Some d0 \<and> pid d0 = pid d" if "procs (mach s') q = Some d" for q d
      using that \<open>map_option pid (procs (mach s') q) = map_option pid (procs (mach s) q)\<close> by (cases "procs (mach s) q") auto
    then show ?thesis using pk that(2,3) unfolding pids_ok_def by (metis add.assoc)
  qed
  from st show ?thesis
  proof (cases rule: ld_step_cases)
    case (load proc a)
    let ?proc = "proc\<lparr>prio := ucast (ld_prio cfg ! ld_i (loader s))\<rparr>"
    have none: "ld_proc (loader s) = None" using ldp load(1) by auto
    have "pids_ok ?N s'" if "?N \<le> MAX_QUEUE_SIZE"
      by (rule pid_inv_load [OF pk that load(2) none, of _ "new_ref j" ?proc]) (use load_pid [OF load(4)] load(3) in simp_all)
    then have "pids_ok ?N s'" by (auto simp: pids_ok_def)
    moreover have "listed n ?N s'" using ls load(3) none unfolding listed_def by auto
    ultimately show ?thesis by (simp add: pid_inv_def)
  next
    case (init r mm)
    then have "pids_ok ?N s'" using set_mm_pid by (intro step) simp_all
    moreover have "listed n ?N s'" using ls init unfolding listed_def by (auto simp: set_mm_def split: if_splits)
    ultimately show ?thesis by (simp add: pid_inv_def)
  next
    case (add sch pcbs)
    obtain x where x: "ld_proc (loader s) = Some x" using ldp add(1) by auto
    have a: "add_proc (k_sched (mach s), procs (mach s)) (Some x) = Some (sch, pcbs)" using add x by simp
    have "map_option pid (pcbs q) = map_option pid (procs (mach s) q)" for q
      using a by (auto simp: add_proc_def add_mlq_proc_def Let_def bind_Some_iff)
    then have "pids_ok ?N s'" using add(3) x by (intro step) simp_all
    moreover have "listed n ?N s'" using listed_add [OF inv(1) ls x a] add(3) by simp
    ultimately show ?thesis by (simp add: pid_inv_def)
  next
    case (move l')
    have "avail_pid s' = avail_pid s"
      using st move(1,6) by (cases "ld_pc (loader s)") (auto simp: ld_step_def Let_def split: if_splits)
    then show ?thesis by (intro pid_inv_cong [OF inv(2)]) (simp_all add: move)
  qed
qed

lemma os_reach_pid: "os_reach files cfg s \<Longrightarrow> pid_inv (n_cpus cfg) (n_procs cfg) s"
proof (induction rule: os_reach.induct)
  case (start dev)
  then show ?case
    by (simp add: pid_inv_def pids_ok_def listed_def os_start_def start_machine_def init_scheduler_def static_sched_def q_list_def)
next
  case (step s s')
  note inv = os_reach_inv [OF step.hyps(1)]
  from step.hyps(2) show ?case
  proof (cases rule: os_step.cases)
    case (cpu i) then show ?thesis using pid_inv_cpu [OF inv step.IH] by blast
  next
    case (ld j) then show ?thesis using pid_inv_ld [OF inv step.IH] by blast
  next
    case (tick t) then show ?thesis by (intro pid_inv_cong [OF step.IH]) simp_all
  qed
qed


section \<open>Programs\<close>

text \<open>Nothing changes the program of a process: what holds of every program that can be loaded holds of every live one.\<close>

lemma code_ld:
  assumes st: "ld_step files cfg j s = done_with s'"
    and loads: "\<forall>junk tx a fpath proc a'. load files junk tx a fpath = done_with (proc, a') \<longrightarrow> Q (code proc)"
    and live: "\<forall>p c. procs (mach s) p = Some c \<longrightarrow> Q (code c)"
  shows "\<forall>p c. procs (mach s') p = Some c \<longrightarrow> Q (code c)"
  using st
proof (cases rule: ld_step_cases)
  case (load proc a)
  have "Q (code proc)" using loads load(4) by blast
  then show ?thesis using live load(3) by simp
next
  case (init r mm)
  then show ?thesis using live by (auto simp: set_mm_def)
next
  case (add sch pcbs)
  have "map_option code (pcbs q) = map_option code (procs (mach s) q)" for q
    using add(2) by (auto simp: add_proc_def add_mlq_proc_def Let_def bind_Some_iff split: option.splits if_splits)
  then have "\<exists>d. procs (mach s) q = Some d \<and> code d = code c" if "pcbs q = Some c" for q c
    using that by (metis map_option_eq_Some)
  then show ?thesis using live add(3) by fastforce
next
  case (move l') then show ?thesis using live by simp
qed

lemma os_reach_code:
  assumes "\<forall>junk tx a fpath proc a'. load files junk tx a fpath = done_with (proc, a') \<longrightarrow> Q (code proc)"
  shows "os_reach files cfg s \<Longrightarrow> \<forall>p c. procs (mach s) p = Some c \<longrightarrow> Q (code c)"
proof (induction rule: os_reach.induct)
  case (start dev) then show ?case by (simp add: os_start_def start_machine_def)
next
  case (step s s')
  have own: "own_inv (n_cpus cfg) s" using os_reach_inv [OF step.hyps(1)] by (simp add: os_inv_def)
  from step.hyps(2) show ?case
  proof (cases rule: os_step.cases)
    case (cpu i)
    show ?thesis
    proof (cases "local_pc (cpus s i)")
      case True
      then obtain m1 c1 where m1: "cpu_local cfg (os_done s) (mach s) (cpus s i) = Some (m1, c1)" "mach s' = m1"
        using cpu(3) by (auto simp: cpu_step_def)
      have "wf_sched (k_sched (mach s))" "cpu_ok (cpus s i)" using own cpu(1) by (auto simp: own_inv_def)
      from cpu_local_pids [OF this(1) True this(2) m1(1)] m1(2) step.IH show ?thesis by metis
    next
      case False
      then have "mach s' = mach s" using cpu(3) by (cases "cpu_pc (cpus s i)") (auto simp: cpu_step_def)
      then show ?thesis using step.IH by simp
    qed
  next
    case (ld j) then show ?thesis using code_ld [OF _ assms step.IH] by blast
  next
    case (tick t) then show ?thesis using step.IH by simp
  qed
qed


section \<open>Properties\<close>

lemma cpu_process_registered:
  assumes "os_reach files cfg s" "num_processes cfg \<le> 50" "i < n_cpus cfg" "cpu_holds (cpus s i) = Some p"
    and "cpu_pc (cpus s i) \<noteq> CFree"
  shows "registered (mach s) p"
proof -
  have inv: "os_inv (n_cpus cfg) (n_procs cfg) s" and pi: "pid_inv (n_cpus cfg) (n_procs cfg) s"
    using os_reach_inv os_reach_pid assms(1) by blast+
  have own: "own_inv (n_cpus cfg) s" and lst: "list_inv (n_cpus cfg) s" using inv by (simp_all add: os_inv_def)
  have N: "n_procs cfg \<le> MAX_QUEUE_SIZE" using assms(2) by (simp add: n_procs_def MAX_QUEUE_SIZE_def)
  note o = owned_once [OF own assms(3,4)]
  obtain c where c: "procs (mach s) p = Some c" using o(1) by auto
  have nf: "\<not> freeing (cpus s j) p" if "j < n_cpus cfg" for j
  proof (cases "j = i")
    case True then show ?thesis using assms(5) by simp
  next
    case False then show ?thesis using o(4) [OF that False] by (auto simp: cpu_holds_def)
  qed
  let ?l = "q_list (running_list (k_sched (mach s)))" and ?f = "\<lambda>r. pid (the (procs (mach s) r)) = pid c"
  have p: "p \<in> set ?l" "krnl_linked (k_sched (mach s))" using pi N c nf o(3) by (auto simp: pid_inv_def listed_def)
  have live: "\<forall>r \<in> set ?l. procs (mach s) r \<noteq> None" using lst by (auto simp: list_inv_def)
  have "find ?f ?l = Some p"
  proof (cases "find ?f ?l")
    case None then show ?thesis using p(1) c by (auto simp: find_None_iff)
  next
    case (Some r)
    then have r: "r \<in> set ?l" "?f r" by (auto simp: find_Some_iff)
    then obtain d where "procs (mach s) r = Some d" "pid d = pid c" using live by fastforce
    then have "r = p" using pi N c unfolding pid_inv_def pids_ok_def by blast
    then show ?thesis using Some by simp
  qed
  then have "sched_find_proc_by_pid (k_sched (mach s), procs (mach s)) (pid c) = Some (Some p)"
    using find_proc_by_pid_find [OF _ p(2) live] own by (simp add: own_inv_def)
  then show ?thesis using c by (auto simp: registered_def)
qed

lemma same_view:
  "load_byte (k_mram m') = load_byte (k_mram m) \<Longrightarrow> the_mm m' q = the_mm m q \<Longrightarrow> user_view m' q = user_view m q"
  by (simp add: user_view_def fun_eq_iff)

lemma cpu_local_view:
  assumes inv: "os_inv n N s" "mem_inv s" and i: "i < n" and lp: "local_pc (cpus s i)"
    and st: "cpu_local cfg don (mach s) (cpus s i) = Some (m1, c1)"
    and q: "q \<notin> unready s" "cpu_pc (cpus s i) \<notin> {CCheck, CFree} \<or> cpu_proc (cpus s i) \<noteq> Some q"
    and run: "\<And>p. cpu_pc (cpus s i) = CCheck \<Longrightarrow> cpu_proc (cpus s i) = Some p \<Longrightarrow>
      registered (mach s) p \<and> (\<forall>ins. next_inst (mach s) p = Some ins \<longrightarrow> \<not> raw_write ins)"
  shows "user_view m1 q = user_view (mach s) q"
proof -
  have own: "own_inv n s" using inv(1) by (simp add: os_inv_def)
  have ok: "cpu_ok (cpus s i)" using own i by (simp add: own_inv_def)
  have px: "p \<notin> unready s" if "cpu_holds (cpus s i) = Some p" for p
    using owned_once(3) [OF own i that] by (auto simp: unready_def)
  from st lp ok show ?thesis
  proof (cases rule: cpu_local_cases)
    case (schedule sch) then show ?thesis by (intro same_view) simp_all
  next
    case (release p k)
    then have "p \<notin> unready s" "p \<noteq> q" using px q(2) by (auto simp: cpu_holds_def)
    then show ?thesis using free_pcb_sep [OF _ _ release(3)] inv(2) by (intro same_view) (auto simp: mem_inv_def)
  next
    case (put sch pcbs)
    then show ?thesis using the_mm_put [of "mach s", OF disjI1 [OF put(2)]] by (intro same_view) simp_all
  next
    case (execute p r)
    then have x: "p \<notin> unready s" "p \<noteq> q" using px q(2) by (auto simp: cpu_holds_def)
    have "kept (unready s) p (mach s) m1"
      using run_kept [OF mem_inv_sep [OF inv] x(1) execute(3)] run [OF execute(1,2)] by blast
    then show ?thesis using run [OF execute(1,2)] x(2) [symmetric] q(1) by (simp add: kept_def space_of_eq)
  qed
qed

lemma ld_step_view:
  assumes "ld_step files cfg j s = done_with s'" "procs (mach s) (new_ref j) = None" "procs (mach s) q \<noteq> None" "q \<notin> unready s"
  shows "user_view (mach s') q = user_view (mach s) q"
  using assms(1)
proof (cases rule: ld_step_cases)
  case (load proc a)
  have "q \<noteq> new_ref j" using assms(2,3) by auto
  then show ?thesis using load(3) by (intro same_view) (auto simp: the_mm_def caller_mm_def)
next
  case (init r mm)
  have "q \<noteq> r" using assms(4) init by (auto simp: unready_def)
  then show ?thesis using init by (intro same_view) (auto simp: the_mm_def)
next
  case (add sch pcbs)
  then have "the_mm ((mach s)\<lparr>k_sched := sch, procs := pcbs\<rparr>) = the_mm (mach s)" by (blast intro: the_mm_put)
  then show ?thesis using add by (intro same_view) simp_all
next
  case (move l') then show ?thesis by simp
qed

text \<open>
  Property C1: memory isolation in the running simulator. Take any reachable state, with at most 50
  processes and between 256 bytes and 2 MB of RAM, and any step of any thread: a CPU, the loader, the
  timer. Let \<open>q\<close> be a process that is loaded and set up, that no CPU is about to execute or to
  free. Unless the step is a raw write by system call 17, \<open>q\<close> still sees at every address of
  its memory the byte it saw before.
\<close>

theorem os_isolation:
  assumes "os_reach files cfg s" "num_processes cfg \<le> 50" "256 \<le> uint (memramsz cfg)" "uint (memramsz cfg) \<le> 2097152"
    and "os_step files cfg s s'" "procs (mach s) q \<noteq> None" "q \<notin> unready s"
    and "\<forall>i < n_cpus cfg. cpu_pc (cpus s i) \<notin> {CCheck, CFree} \<or> cpu_proc (cpus s i) \<noteq> Some q"
    and "\<forall>i < n_cpus cfg. \<forall>p ins. cpu_pc (cpus s i) \<noteq> CCheck \<or> cpu_proc (cpus s i) \<noteq> Some p \<or>
      next_inst (mach s) p \<noteq> Some ins \<or> \<not> raw_write ins"
  shows "user_view (mach s') q = user_view (mach s) q"
proof -
  note inv = os_reach_inv [OF assms(1)] os_reach_mem [OF assms(3,4,1)]
  from assms(5) show ?thesis
  proof (cases rule: os_step.cases)
    case (cpu i)
    show ?thesis
    proof (cases "local_pc (cpus s i)")
      case False
      then show ?thesis using cpu(3) by (intro same_view) (cases "cpu_pc (cpus s i)"; auto simp: cpu_step_def)+
    next
      case True
      then obtain m1 c1 where m1: "cpu_local cfg (os_done s) (mach s) (cpus s i) = Some (m1, c1)" "mach s' = m1"
        using cpu(3) by (auto simp: cpu_step_def)
      have "registered (mach s) p \<and> (\<forall>ins. next_inst (mach s) p = Some ins \<longrightarrow> \<not> raw_write ins)"
        if "cpu_pc (cpus s i) = CCheck" "cpu_proc (cpus s i) = Some p" for p
        using cpu_process_registered [OF assms(1,2) cpu(1)] assms(9) cpu(1) that by (auto simp: cpu_holds_def)
      then show ?thesis using cpu_local_view [OF inv cpu(1) True m1(1) assms(7)] assms(8) cpu(1) m1(2) by blast
    qed
  next
    case (ld j) then show ?thesis using ld_step_view assms(6,7) by blast
  next
    case (tick t) then show ?thesis by simp
  qed
qed

text \<open>The configuration of one process, after the loader has loaded it and set up its memory.\<close>

lemma demo_set_up:
  "\<exists>s s'. os_reach demo_files demo_cfg s \<and> os_step demo_files demo_cfg s s' \<and> procs (mach s) 7 \<noteq> None \<and> procs (mach s') 7 \<noteq> None \<and>
     the_mm (mach s) 7 = Some (snd (init_mm [] 0 demo_user_mm)) \<and> ld_pc (loader s) = LAdd \<and>
     (\<forall>i. cpu_pc (cpus s i) = CTop)"
proof -
  let ?s = "os_start demo_cfg blank_dev"
  obtain pcb where l: "load demo_files demo_junk (new_text demo_memory) 1 ''p'' = done_with (pcb, 2)" using demo_load by blast
  have st: "os_step demo_files demo_cfg t t'"
    if "ld_ready demo_cfg t" "procs (mach t) a = None" "ld_step demo_files demo_cfg (demo_memory\<lparr>new_ref := a\<rparr>) t = done_with t'" for t t' a
    by (rule os_step.ld [where j = "demo_memory\<lparr>new_ref := a\<rparr>", OF that(1) _ _ that(3)]) (simp_all add: demo_memory_def demo_junk_def that(2))
  define s1 where "s1 = ?s\<lparr>mach := (mach ?s)\<lparr>procs := [7 \<mapsto> pcb\<lparr>prio := 3\<rparr>]\<rparr>, avail_pid := 2,
    loader := \<lparr>ld_pc = LTime, ld_i = 0, ld_proc = Some 7\<rparr>\<rparr>"
  define s2 where "s2 = set_loader s1 LInit"
  define s3 where "s3 = (set_loader s2 LAdd)\<lparr>mach := set_mm (mach s2) 7 (Some (snd (init_mm [] 0 demo_user_mm)))\<rparr>"
  have "os_step demo_files demo_cfg ?s s1"
    by (rule st [where a = 7])
      (use l in \<open>simp_all add: ld_ready_def os_start_def start_machine_def s1_def ld_step_def demo_cfg_def n_procs_def demo_memory_def Let_def\<close>)
  moreover have "os_step demo_files demo_cfg s1 s2"
    by (rule st [where a = 8])
      (simp_all add: ld_ready_def os_start_def s1_def s2_def ld_step_def demo_cfg_def n_procs_def Let_def
        current_time_def start_timer_def static_timer_def)
  moreover have "os_step demo_files demo_cfg s2 s3"
    by (rule st [where a = 8])
      (simp_all add: ld_ready_def s1_def s2_def s3_def ld_step_def demo_memory_def Let_def set_loader_def)
  moreover have "\<exists>s4. os_step demo_files demo_cfg s3 s4 \<and> procs (mach s4) 7 \<noteq> None"
  proof -
    have "\<exists>s4. ld_step demo_files demo_cfg (demo_memory\<lparr>new_ref := 8\<rparr>) s3 = done_with s4 \<and> procs (mach s4) 7 \<noteq> None"
      by (simp add: s1_def s2_def s3_def ld_step_def Let_def set_loader_def set_mm_def add_proc_def add_mlq_proc_def)
    then obtain s4 where "ld_step demo_files demo_cfg (demo_memory\<lparr>new_ref := 8\<rparr>) s3 = done_with s4" "procs (mach s4) 7 \<noteq> None" by blast
    moreover have "ld_ready demo_cfg s3" "procs (mach s3) 8 = None"
      by (simp_all add: ld_ready_def s1_def s2_def s3_def set_loader_def set_mm_def)
    ultimately show ?thesis using st by blast
  qed
  ultimately obtain s4 where "os_reach demo_files demo_cfg s3" "os_step demo_files demo_cfg s3 s4" "procs (mach s4) 7 \<noteq> None"
    by (meson os_reach.intros)
  moreover have "procs (mach s3) 7 \<noteq> None" "the_mm (mach s3) 7 = Some (snd (init_mm [] 0 demo_user_mm))" "ld_pc (loader s3) = LAdd"
      "\<forall>i. cpu_pc (cpus s3 i) = CTop"
    by (simp_all add: s1_def s2_def s3_def set_loader_def set_mm_def the_mm_def caller_mm_def os_start_def)
  ultimately show ?thesis by blast
qed

theorem os_isolation_witness:
  "\<exists>s s'. os_reach demo_files demo_cfg s \<and> os_step demo_files demo_cfg s s' \<and> user_view (mach s') 7 = user_view (mach s) 7"
proof -
  obtain s s' where s: "os_reach demo_files demo_cfg s" "os_step demo_files demo_cfg s s'" "procs (mach s) 7 \<noteq> None"
      "ld_pc (loader s) = LAdd" "\<And>i. cpu_pc (cpus s i) = CTop" using demo_set_up by blast
  have "user_view (mach s') 7 = user_view (mach s) 7"
    by (rule os_isolation [OF s(1) _ _ _ s(2,3)]) (simp_all add: demo_cfg_def unready_def s)
  then show ?thesis using s by blast
qed


text \<open>
  Property C3: the simulator shares no frame. In every reachable state, with between 256
  bytes and 2 MB of RAM, the list of free frames has no frame twice and only frames of the device,
  every page of a process that is set up is backed by a frame of the device that is not on the list,
  and two different pages, of one process or of two, are backed by different frames.
\<close>

theorem frames_never_shared:
  assumes "os_reach files cfg s" "256 \<le> uint (memramsz cfg)" "uint (memramsz cfg) \<le> 2097152"
  shows "distinct (free_fp_list (k_mram (mach s))) \<and>
    (\<forall>f \<in> set (free_fp_list (k_mram (mach s))). uint f < num_frames (k_mram (mach s))) \<and>
    (\<forall>p mm pgn f. p \<notin> unready s \<and> the_mm (mach s) p = Some mm \<and> frame_at mm pgn = Some f \<longrightarrow>
       uint f < num_frames (k_mram (mach s)) \<and> f \<notin> set (free_fp_list (k_mram (mach s))) \<and>
       (\<forall>q mm' pgn'. q \<notin> unready s \<and> the_mm (mach s) q = Some mm' \<and> frame_at mm' pgn' = Some f \<longrightarrow>
          q = p \<and> pgn' = pgn))"
proof -
  have ms: "mem_sep (unready s) (mach s)" using os_reach_mem [OF assms(2,3,1)] by (simp add: mem_inv_def)
  let ?F = "frame_map (unready s) (mach s)"
  have F: "?F (p, pgn) = Some f \<longleftrightarrow> p \<notin> unready s \<and> (\<exists>mm. the_mm (mach s) p = Some mm \<and> frame_at mm pgn = Some f)" for p pgn f
    by (rule frame_map_Some)
  have inj: "x = y" if "?F x = Some f" "?F y = Some f" for x y f
    using ms that unfolding mem_sep_def frames_sep_def by (metis domI inj_onD)
  have rng: "uint f < num_frames (k_mram (mach s)) \<and> f \<notin> set (free_fp_list (k_mram (mach s)))" if "?F x = Some f" for x f
    using ms that unfolding mem_sep_def frames_sep_def by (blast intro: ranI)
  have "distinct (free_fp_list (k_mram (mach s))) \<and>
      (\<forall>f \<in> set (free_fp_list (k_mram (mach s))). uint f < num_frames (k_mram (mach s)))"
    using ms by (simp add: mem_sep_def ram_ok_def frames_ok_def)
  moreover have "uint f < num_frames (k_mram (mach s)) \<and> f \<notin> set (free_fp_list (k_mram (mach s))) \<and>
      (\<forall>q mm' pgn'. q \<notin> unready s \<and> the_mm (mach s) q = Some mm' \<and> frame_at mm' pgn' = Some f \<longrightarrow> q = p \<and> pgn' = pgn)"
    if "p \<notin> unready s \<and> the_mm (mach s) p = Some mm \<and> frame_at mm pgn = Some f" for p mm pgn f
  proof -
    have f: "?F (p, pgn) = Some f" using that F by blast
    have "q = p \<and> pgn' = pgn" if "q \<notin> unready s \<and> the_mm (mach s) q = Some mm' \<and> frame_at mm' pgn' = Some f" for q mm' pgn'
      using inj [of "(q, pgn')" f "(p, pgn)"] f that F by blast
    then show ?thesis using rng [OF f] by blast
  qed
  ultimately show ?thesis by blast
qed

text \<open>
  Property C13: the simulator never swaps. In every reachable state no page of a process that is set up
  is marked as swapped. So \<^verbatim>\<open>pg_getpage\<close> on a page that is not in RAM returns -1 and
  changes no page, whatever space the swap devices have: its swapping half is never reached, because
  a page enters swap only there, and an allocation that finds no free frame fails
  instead of evicting one.
\<close>

theorem nothing_is_swapped:
  assumes "os_reach files cfg s" "256 \<le> uint (memramsz cfg)" "uint (memramsz cfg) \<le> 2097152"
    and "p \<notin> unready s" "the_mm (mach s) p = Some mm"
  shows "(\<forall>pgn. \<not> PAGING_PAGE_SWAPPED (ucast (pte_at mm pgn))) \<and>
    (frame_at mm (u64_of_int pgn) = None \<longrightarrow>
      (\<exists>mm'. pg_getpage (mach s) p pgn = Some (-1, 0, set_mm (mach s) p (Some mm')) \<and> pte_at mm' = pte_at mm))"
proof -
  have "space_ok mm" using os_reach_mem [OF assms(2,3,1)] assms(4,5) by (simp add: mem_inv_def mem_sep_def)
  then have sp: "\<forall>pgn. \<not> PAGING_PAGE_SWAPPED (ucast (pte_at mm pgn))" "pt_ok mm" by (simp_all add: space_ok_def)
  obtain u mm' where e: "pte_get_entry mm (u64_of_int pgn) = (u, mm')" by fastforce
  note a = pte_get_entry_at [OF sp(2) e]
  have o: "on_mm (\<lambda>mm. pte_get_entry mm (u64_of_int pgn)) (mach s) p = Some (u, set_mm (mach s) p (Some mm'))"
    using assms(5) e by (simp add: on_mm_def)
  have "pg_getpage (mach s) p pgn = Some (-1, 0, set_mm (mach s) p (Some mm'))" if "frame_at mm (u64_of_int pgn) = None"
    using that o a sp(1) by (simp add: pg_getpage_def frame_at_def split: if_splits)
  then show ?thesis using sp(1) a by blast
qed

theorem frames_never_shared_witness:
  "\<exists>s. os_reach demo_files demo_cfg s \<and> distinct (free_fp_list (k_mram (mach s))) \<and> the_mm (mach s) 7 \<noteq> None"
proof -
  obtain s where s: "os_reach demo_files demo_cfg s" "the_mm (mach s) 7 \<noteq> None" using demo_set_up by force
  have "distinct (free_fp_list (k_mram (mach s)))" using frames_never_shared [OF s(1)] by (simp add: demo_cfg_def)
  then show ?thesis using s by blast
qed

theorem nothing_is_swapped_witness:
  "\<exists>s mm'. os_reach demo_files demo_cfg s \<and> pg_getpage (mach s) 7 5 = Some (-1, 0, set_mm (mach s) 7 (Some mm'))"
proof -
  let ?mm = "snd (init_mm [] 0 demo_user_mm)"
  obtain s where s: "os_reach demo_files demo_cfg s" "the_mm (mach s) 7 = Some ?mm" "ld_pc (loader s) = LAdd"
    using demo_set_up by blast
  have "\<exists>mm'. pg_getpage (mach s) 7 5 = Some (-1, 0, set_mm (mach s) 7 (Some mm')) \<and> pte_at mm' = pte_at ?mm"
    using nothing_is_swapped [OF s(1) _ _ _ s(2), of 5] fresh_space(2) [of "[]" 0 demo_user_mm] by (simp add: demo_cfg_def unready_def s(3))
  then show ?thesis using s(1) by blast
qed

end
