(* ===== verification/Layout.thy ===== *)
theory Layout
  imports Frames
begin

text \<open>
  The sizes the C declarations fix and the lists of the model do not: ten registers, four swap
  devices, thirty-two slab caches, as many instructions as the size of the code segment says, and,
  from the other invariants, the queues, the region tables and the page directories. Every index
  computed from them rests on these facts.
\<close>

section \<open>Arrays keep their lengths\<close>

definition pcb_shape :: "pcb_t \<Rightarrow> bool" where
  "pcb_shape c \<longleftrightarrow> length (regs c) = 10 \<and> length (seg_text (code c)) = unat (seg_size (code c))"

definition shape :: "machine \<Rightarrow> bool" where
  "shape m \<longleftrightarrow> length (k_mswp m) = PAGING_MAX_MMSWP \<and> length (kmem_pools m) = KMEM_MAX_POOLS \<and>
     (\<forall>p c. procs m p = Some c \<longrightarrow> pcb_shape c)"

lemma shape_sched [simp]: "shape (m\<lparr>k_sched := sch\<rparr>) = shape m"
  by (simp add: shape_def)

text \<open>A PCB whose copy without the other fields is unchanged keeps its shape.\<close>

lemma pcb_shape_option:
  assumes "map_option pcb_frame x = map_option pcb_frame y" "x = Some c" "\<And>d. y = Some d \<Longrightarrow> pcb_shape d"
  shows "pcb_shape c"
proof -
  obtain d where d: "y = Some d" "pcb_frame c = pcb_frame d" using assms(1,2) by (cases y) auto
  have "pcb_shape e = (length (regs (pcb_frame e)) = 10 \<and>
      length (seg_text (code (pcb_frame e))) = unat (seg_size (code (pcb_frame e))))" for e
    by (simp add: pcb_shape_def pcb_frame_def)
  then show ?thesis using d assms(3) by simp
qed

lemma mm_only_pcb_frame: "mm_only m m' \<Longrightarrow> map_option pcb_frame (procs m' q) = map_option pcb_frame (procs m q)"
  by (rule pcb_mm_field) (simp_all add: mm_only_def pcb_frame_def)

lemma shape_frames:
  assumes "length (k_mswp m') = length (k_mswp m)" "length (kmem_pools m') = length (kmem_pools m)" "shape m"
    and "\<And>q. procs m' q \<noteq> None \<Longrightarrow> map_option pcb_frame (procs m' q) = map_option pcb_frame (procs m q)"
  shows "shape m'"
proof -
  have "pcb_shape c" if "procs m' q = Some c" for q c
    using pcb_shape_option [OF assms(4) that] assms(3) that by (auto simp: shape_def)
  then show ?thesis using assms(1-3) by (simp add: shape_def)
qed

lemma shape_free_pcb:
  assumes "free_pcb m (Some p) = Some (n, m')" "shape m"
  shows "shape m'"
proof -
  obtain m1 where m1: "mm_only m m1" "m' = m1\<lparr>procs := (procs m1)(p := None)\<rparr>" using free_pcb_shape [OF assms(1)] by blast
  have "shape m1" using mm_only_pcb_frame [OF m1(1)] assms(2) m1(1) by (intro shape_frames [of m1 m]) (simp_all add: mm_only_def)
  then show ?thesis using m1(2) by (simp add: shape_def)
qed

lemma shape_run:
  assumes "run m p = Some (r, m')" "shape m"
  shows "shape m'"
proof -
  obtain c where c: "procs m p = Some c" using assms(1) by (auto simp: run_def bind_Some_iff)
  let ?m = "m\<lparr>procs := (procs m)(p \<mapsto> c\<lparr>pc := pc c + 1\<rparr>)\<rparr>"
  have o: "if pc c \<ge> seg_size (code c) then r = 1 \<and> m' = m else steps_ok ?m p m'"
    using outcomeD [OF run_outcome [OF c] assms(1)] by simp
  have "shape ?m" using assms(2) c by (auto simp: shape_def pcb_shape_def)
  moreover have "map_option pcb_frame (procs m' q) = map_option pcb_frame (procs ?m q)" if "steps_ok ?m p m'" for q
  proof (cases "q = p")
    case True then show ?thesis using that by (simp add: steps_ok_def)
  next
    case False
    then have "map_option (\<lambda>c. c\<lparr>pcb_mm := None\<rparr>) (procs m' q) = map_option (\<lambda>c. c\<lparr>pcb_mm := None\<rparr>) (procs ?m q)"
      using that unfolding steps_ok_def by blast
    then show ?thesis by (rule pcb_mm_field) (simp add: pcb_frame_def)
  qed
  ultimately have "shape m'" if "steps_ok ?m p m'"
    using that by (intro shape_frames [of m' ?m]) (simp_all add: steps_ok_def)
  then show ?thesis using o assms(2) by (auto split: if_splits)
qed

lemma shape_put:
  assumes "put_proc (k_sched m, procs m) x = Some (sch, pcbs) \<or> add_proc (k_sched m, procs m) x = Some (sch, pcbs)" "shape m"
  shows "shape (m\<lparr>k_sched := sch, procs := pcbs\<rparr>)"
proof -
  have "map_option (\<lambda>c. (regs c, code c)) (pcbs r) = map_option (\<lambda>c. (regs c, code c)) (procs m r)" for r
    using assms(1)
    by (auto simp: put_proc_def put_mlq_proc_def add_proc_def add_mlq_proc_def Let_def bind_Some_iff split: if_splits option.splits)
  then have same: "map_option (\<lambda>c. (regs c, code c)) (procs m r) = Some (regs c, code c)" if "pcbs r = Some c" for r c
    using that by (metis option.simps(9))
  have "pcb_shape c" if c: "pcbs r = Some c" for r c
  proof -
    obtain d where d: "procs m r = Some d" "regs d = regs c" "code d = code c" using same [OF c] by auto
    then have "pcb_shape d" using assms(2) by (simp add: shape_def)
    then show ?thesis using d(2,3) by (simp add: pcb_shape_def)
  qed
  then show ?thesis using assms(2) by (simp add: shape_def)
qed

section \<open>In the simulator\<close>

lemma load_loop_length: "load_loop n i junk b fl = done_with tx \<Longrightarrow> length tx = n"
  by (induction n arbitrary: i b fl tx) (auto simp: and_then_done)

lemma load_shape:
  assumes "load files junk tx a fpath = done_with (proc, a')" "length (regs junk) = 10"
  shows "pcb_shape proc"
  using assms load_loop_length
  by (auto simp: load_def Let_def and_then_done pcb_shape_def split: option.splits prod.splits if_splits)

lemma shape_local:
  assumes lp: "local_pc c" and ok: "cpu_ok c" and st: "cpu_local cfg don m c = Some (m1, c1)" and sh: "shape m"
  shows "shape m1"
  using st lp ok
proof (cases rule: cpu_local_cases)
  case (schedule sch) then show ?thesis using sh by simp
next
  case (release p k) then show ?thesis using shape_free_pcb sh by blast
next
  case (put sch pcbs) then show ?thesis using shape_put [OF disjI1 sh] by blast
next
  case (execute p r) then show ?thesis using shape_run sh by blast
qed

lemma shape_ld:
  assumes st: "ld_step files cfg j s = done_with s'" and sh: "shape (mach s)" and j: "length (regs (new_pcb j)) = 10"
  shows "shape (mach s')"
  using st
proof (cases rule: ld_step_cases)
  case (load proc a)
  have "pcb_shape (proc\<lparr>prio := ucast (ld_prio cfg ! ld_i (loader s))\<rparr>)" using load_shape [OF load(4) j] by (simp add: pcb_shape_def)
  then show ?thesis using load(3) sh by (simp add: shape_def)
next
  case (init r mm)
  then show ?thesis using sh by (auto simp: shape_def pcb_shape_def set_mm_def map_option_eq_Some)
next
  case (add sch pcbs)
  have "shape ((mach s)\<lparr>k_sched := sch, procs := pcbs\<rparr>)" using shape_put [OF disjI2 sh] add(2) by blast
  then show ?thesis using add by simp
next
  case (move l') then show ?thesis using sh by simp
qed

lemma os_reach_shape: "os_reach files cfg s \<Longrightarrow> shape (mach s)"
proof (induction rule: os_reach.induct)
  case (start dev)
  show ?case by (simp add: shape_def os_start_def start_machine_def)
next
  case (step s s')
  have own: "own_inv (n_cpus cfg) s" using os_reach_inv [OF step.hyps(1)] by (simp add: os_inv_def)
  from step.hyps(2) show ?case
  proof (cases rule: os_step.cases)
    case (cpu i)
    have "cpu_ok (cpus s i)" using own cpu(1) by (simp add: own_inv_def)
    note sh = shape_local [OF _ this _ step.IH]
    show ?thesis
    proof (cases "local_pc (cpus s i)")
      case True
      then obtain m1 c1 where "cpu_local cfg (os_done s) (mach s) (cpus s i) = Some (m1, c1)" "mach s' = m1"
        using cpu(3) by (auto simp: cpu_step_def)
      then show ?thesis using sh [OF True] by blast
    next
      case False
      then show ?thesis using cpu(3) step.IH by (cases "cpu_pc (cpus s i)") (auto simp: cpu_step_def)
    qed
  next
    case (ld j) then show ?thesis using shape_ld step.IH by blast
  next
    case (tick t) then show ?thesis using step.IH by simp
  qed
qed


section \<open>Property\<close>

text \<open>
  Property C12: the state is well typed. In every reachable state, with between 256 bytes and 2 MB of
  RAM, every array has the length its C declaration gives it: there are four swap devices and thirty-two slab
  caches; 140 ready queues, and they and the running list have fifty entries, of which the
  first \<open>q_size\<close> are in use and not NULL; every PCB has ten registers and as many instructions as its
  size says, so that \<^verbatim>\<open>run\<close> fetches inside the code segment; every process that is set up
  has thirty regions and a page table of five levels with 512 entries per directory; and the RAM has
  a byte at each address below its size and at no other.
\<close>

theorem state_well_typed:
  assumes "os_reach files cfg s" "256 \<le> uint (memramsz cfg)" "uint (memramsz cfg) \<le> 2097152"
  shows "length (k_mswp (mach s)) = 4 \<and> length (kmem_pools (mach s)) = 32 \<and>
    length (mlq_ready_queue (k_sched (mach s))) = 140 \<and>
    (\<forall>q \<in> insert (running_list (k_sched (mach s))) (set (mlq_ready_queue (k_sched (mach s)))).
       length (q_proc q) = 50 \<and> q_size q \<le> 50 \<and> None \<notin> set (take (q_size q) (q_proc q))) \<and>
    (\<forall>p c. procs (mach s) p = Some c \<longrightarrow> length (regs c) = 10 \<and> length (seg_text (code c)) = unat (seg_size (code c))) \<and>
    (\<forall>p mm. p \<notin> unready s \<and> the_mm (mach s) p = Some mm \<longrightarrow>
       length (symrgtbl mm) = 30 \<and> (\<forall>root. pgd mm = Some root \<longrightarrow> wf_dir 5 root)) \<and>
    (\<exists>st. storage (k_mram (mach s)) = Some st \<and> (\<forall>a. st a \<noteq> None \<longleftrightarrow> uint a < maxsz (k_mram (mach s))))"
proof -
  have "wf_sched (k_sched (mach s))" using os_reach_inv [OF assms(1)] by (simp add: os_inv_def own_inv_def)
  then have q: "length (mlq_ready_queue (k_sched (mach s))) = 140"
      "\<forall>q \<in> insert (running_list (k_sched (mach s))) (set (mlq_ready_queue (k_sched (mach s)))). wf_queue q"
    by (auto simp: wf_sched_def MAX_PRIO_def in_set_conv_nth)
  have ms: "mem_sep (unready s) (mach s)" using os_reach_mem [OF assms(2,3,1)] by (simp add: mem_inv_def)
  then have "space_ok mm" if "p \<notin> unready s \<and> the_mm (mach s) p = Some mm" for p mm using that by (auto simp: mem_sep_def)
  then have "length (symrgtbl mm) = 30 \<and> (\<forall>root. pgd mm = Some root \<longrightarrow> wf_dir 5 root)"
    if "p \<notin> unready s \<and> the_mm (mach s) p = Some mm" for p mm using that
    by (simp add: space_ok_def pt_ok_def PAGING_MAX_SYMTBL_SZ_def)
  moreover have "wf_dev (k_mram (mach s))" using ms by (simp add: mem_sep_def ram_ok_def)
  ultimately show ?thesis
    using os_reach_shape [OF assms(1)] q
    by (simp add: shape_def pcb_shape_def wf_dev_def wf_queue_def MAX_QUEUE_SIZE_def PAGING_MAX_MMSWP_def KMEM_MAX_POOLS_def)
qed

theorem state_well_typed_witness:
  "\<exists>s c mm. os_reach demo_files demo_cfg s \<and> procs (mach s) 7 = Some c \<and> length (regs c) = 10 \<and>
     the_mm (mach s) 7 = Some mm \<and> length (symrgtbl mm) = 30"
proof -
  obtain s where s: "os_reach demo_files demo_cfg s" "the_mm (mach s) 7 = Some (snd (init_mm [] 0 demo_user_mm))"
      "ld_pc (loader s) = LAdd" using demo_set_up by blast
  then obtain c where c: "procs (mach s) 7 = Some c" by (auto simp: the_mm_Some caller_mm_def)
  have m: "256 \<le> uint (memramsz demo_cfg)" "uint (memramsz demo_cfg) \<le> 2097152" by (simp_all add: demo_cfg_def)
  have u: "7 \<notin> unready s" using s(3) by (simp add: unready_def)
  show ?thesis using state_well_typed [OF s(1) m] s(1,2) c u by blast
qed

end
