(* ===== verification/Conservation.thy ===== *)
theory Conservation
  imports Layout
begin

text \<open>
  No frame is lost. As long as no program marks pages with memory call 17, operation 1, every frame of RAM is at
  every moment on the free list or behind a page of a live process; once all processes have ended all
  frames are free again. A frame that the operation 1 takes out of sight never comes back.
\<close>

section \<open>The frames in sight\<close>

definition os_pool :: "os_state \<Rightarrow> addr_t set" where
  "os_pool s = pool (unready s) (mach s)"

definition ram_frames :: "config \<Rightarrow> addr_t set" where
  "ram_frames cfg = {f. uint f < uint (memramsz cfg) div 256}"

lemma os_pool_iff:
  "f \<in> os_pool s \<longleftrightarrow> f \<in> set (free_fp_list (k_mram (mach s))) \<or>
     (\<exists>p mm pgn. p \<notin> unready s \<and> the_mm (mach s) p = Some mm \<and> frame_at mm pgn = Some f)"
  by (auto simp: os_pool_def pool_def ran_def frame_map_Some)

lemma start_pool:
  assumes "256 \<le> uint (memramsz cfg)" "uint (memramsz cfg) \<le> 2097152"
  shows "os_pool (os_start cfg dev) = ram_frames cfg"
proof -
  let ?n = "uint (memramsz cfg) div 256"
  have sz: "uint (memramsz cfg) < 2 ^ 31" using assms(2) by simp
  have n: "?n < 2 ^ 31" using assms(2) by simp
  have t: "the_mm (mach (os_start cfg dev)) p = None" for p by (simp add: os_start_def start_machine_def the_mm_def caller_mm_def)
  have "k_mram (mach (os_start cfg dev)) = snd (init_memphy dev (memramsz cfg) 1)" by (simp add: os_start_def start_machine_def)
  then have fl: "free_fp_list (k_mram (mach (os_start cfg dev))) = map u64_of_int [0..?n - 1]"
    using wf_init_memphy(4) [OF assms(1) sz] by simp
  have "f \<in> u64_of_int ` {0..?n - 1} \<longleftrightarrow> uint f < ?n" for f :: addr_t
  proof
    assume "f \<in> u64_of_int ` {0..?n - 1}"
    then show "uint f < ?n" using n by (auto simp: uint_u64_of_int)
  next
    assume f: "uint f < ?n"
    have "f = u64_of_int (uint f)" by (simp add: u64_of_int_def)
    then show "f \<in> u64_of_int ` {0..?n - 1}" using f by (intro rev_image_eqI [of "uint f"]) simp_all
  qed
  then show ?thesis using t fl by (auto simp: os_pool_iff ram_frames_def)
qed

lemma os_step_pool:
  assumes r: "os_reach files cfg s" "256 \<le> uint (memramsz cfg)" "uint (memramsz cfg) \<le> 2097152" and st: "os_step files cfg s s'"
  shows "os_pool s' = os_pool s \<or> (os_pool s' \<subseteq> os_pool s \<and> (\<exists>i p ins. i < n_cpus cfg \<and>
    cpu_pc (cpus s i) = CCheck \<and> cpu_proc (cpus s i) = Some p \<and> next_inst (mach s) p = Some ins \<and> map_op ins))"
proof -
  note inv = os_reach_inv [OF r(1)] os_reach_mem [OF r(2,3,1)]
  from st show ?thesis
  proof (cases rule: os_step.cases)
    case (cpu i)
    show ?thesis
    proof (cases "local_pc (cpus s i)")
      case True
      then obtain m1 c1 where m1: "cpu_local cfg (os_done s) (mach s) (cpus s i) = Some (m1, c1)" "s' = s\<lparr>mach := m1, cpus := (cpus s)(i := c1)\<rparr>"
        using cpu(3) by (auto simp: cpu_step_def)
      have "os_pool s' = pool (unready s) m1" using m1(2) by (simp add: os_pool_def unready_def)
      then show ?thesis using mem_sep_local [OF inv cpu(1) True m1(1)] cpu(1) unfolding os_pool_def by blast
    next
      case False
      then have "mach s' = mach s \<and> loader s' = loader s" using cpu(3) by (cases "cpu_pc (cpus s i)") (auto simp: cpu_step_def)
      then show ?thesis by (simp add: os_pool_def unready_def)
    qed
  next
    case (ld j) then show ?thesis using mem_inv_ld [OF inv] by (simp add: os_pool_def)
  next
    case (tick t) then show ?thesis by (simp add: os_pool_def unready_def)
  qed
qed

text \<open>The programs on disk that mark no pages, whatever the loader finds in uninitialised memory.\<close>

definition marks_no_pages :: "(string \<Rightarrow> string option) \<Rightarrow> bool" where
  "marks_no_pages files \<longleftrightarrow> (\<forall>junk tx a fpath proc a'. load files junk tx a fpath = done_with (proc, a') \<longrightarrow>
     (\<forall>ins \<in> set (seg_text (code proc)). \<not> map_op ins))"

lemma os_reach_pool:
  assumes mem: "256 \<le> uint (memramsz cfg)" "uint (memramsz cfg) \<le> 2097152" and fl: "marks_no_pages files"
  shows "os_reach files cfg s \<Longrightarrow> os_pool s = ram_frames cfg"
proof (induction rule: os_reach.induct)
  case (start dev) show ?case by (rule start_pool [OF mem])
next
  case (step s s')
  have "\<not> map_op ins" if "i < n_cpus cfg" "cpu_proc (cpus s i) = Some p" "next_inst (mach s) p = Some ins" for i p ins
  proof -
    from that(3) obtain c where c: "procs (mach s) p = Some c" "unat (pc c) < unat (seg_size (code c))" "ins = seg_text (code c) ! unat (pc c)"
      by (auto simp: next_inst_def bind_Some_iff word_less_nat_alt split: if_splits)
    have "ins \<in> set (seg_text (code c))" using c os_reach_shape [OF step.hyps(1)] by (simp add: shape_def pcb_shape_def)
    then show ?thesis
      using os_reach_code [where Q = "\<lambda>g. \<forall>ins \<in> set (seg_text g). \<not> map_op ins", OF _ step.hyps(1)] fl c(1)
      unfolding marks_no_pages_def by blast
  qed
  then show ?case using os_step_pool [OF step.hyps(1) mem step.hyps(2)] step.IH by blast
qed

section \<open>Properties\<close>

text \<open>
  Property C4: no frame is lost. Let no program on disk mark pages by memory call 17, operation 1, and let RAM
  have between 256 bytes and 2 MB. In every reachable state each of its frames is on the free
  list or behind a page of a process that is set up, and no other frame is: allocations that fail half
  way, releases, ends of processes, system calls and any interleaving lose none.
  When no process is left, all frames are free again, each once.
\<close>

theorem no_frame_lost:
  assumes "os_reach files cfg s" "256 \<le> uint (memramsz cfg)" "uint (memramsz cfg) \<le> 2097152" "marks_no_pages files"
  shows "(\<forall>f. uint f < uint (memramsz cfg) div 256 \<longleftrightarrow> f \<in> set (free_fp_list (k_mram (mach s))) \<or>
      (\<exists>p mm pgn. p \<notin> unready s \<and> the_mm (mach s) p = Some mm \<and> frame_at mm pgn = Some f)) \<and>
    (procs (mach s) = Map.empty \<longrightarrow> set (free_fp_list (k_mram (mach s))) = {f. uint f < uint (memramsz cfg) div 256} \<and>
      length (free_fp_list (k_mram (mach s))) = nat (uint (memramsz cfg) div 256))"
proof -
  let ?n = "uint (memramsz cfg) div 256" and ?fl = "free_fp_list (k_mram (mach s))"
  have all: "uint f < ?n \<longleftrightarrow> f \<in> set ?fl \<or> (\<exists>p mm pgn. p \<notin> unready s \<and> the_mm (mach s) p = Some mm \<and> frame_at mm pgn = Some f)" for f
    using os_reach_pool [OF assms(2-4,1)] os_pool_iff [of f s] by (simp add: ram_frames_def)
  have "set ?fl = {f. uint f < ?n} \<and> length ?fl = nat ?n" if e: "procs (mach s) = Map.empty"
  proof -
    have "the_mm (mach s) p = None" for p using e by (simp add: the_mm_def caller_mm_def)
    then have fl: "set ?fl = {f. uint f < ?n}" using all by auto
    have "distinct ?fl"
      using os_reach_mem [OF assms(2,3,1)] by (simp add: mem_inv_def mem_sep_def ram_ok_def frames_ok_def)
    then have "length ?fl = card {f :: addr_t. uint f < ?n}" using fl by (simp add: distinct_card [symmetric])
    also have "\<dots> = card (uint ` {f :: addr_t. uint f < ?n})"
      by (rule card_image [symmetric]) (simp add: inj_on_def word_uint_eq_iff)
    also have "uint ` {f :: addr_t. uint f < ?n} = {0..<?n}"
    proof (intro equalityI subsetI)
      fix k assume k: "k \<in> {0..<?n}"
      moreover have "?n \<le> 8192" using zdiv_mono1 [OF assms(3), of 256] by simp
      ultimately have "uint (u64_of_int k) = k" by (intro uint_u64_of_int) auto
      then show "k \<in> uint ` {f :: addr_t. uint f < ?n}" using k by (intro rev_image_eqI [of "u64_of_int k"]) simp_all
    qed auto
    finally show ?thesis using fl by simp
  qed
  then show ?thesis using all by blast
qed

text \<open>
  The frames behind a marked page are out of sight, and stay so.
\<close>

lemma steps_pool:
  "sep {} m \<Longrightarrow> steps run_step m ps = Some m' \<Longrightarrow> sep {} m' \<and> pool {} m' \<subseteq> pool {} m"
proof (induction ps arbitrary: m)
  case (Cons p ps)
  then obtain m1 where m: "run_step m p = Some m1" "steps run_step m1 ps = Some m'" by (auto simp: bind_Some_iff)
  then obtain r where m1: "run m p = Some (r, m1)" "steps run_step m1 ps = Some m'" by (auto simp: run_step_def)
  have "sep {} m1" "pool {} m1 \<subseteq> pool {} m" using run_kept [OF Cons.prems(1) _ m1(1)] by simp_all
  then show ?case using Cons.IH [OF _ m1(2)] by blast
qed simp

lemma marked_out_of_sight:
  assumes s: "sep X m" and t: "the_mm m p = Some mm" "p \<notin> X" and f: "frame_at mm pgn = Some f"
    and new: "frame_at mm' \<subseteq>\<^sub>m frame_at mm" "frame_at mm' pgn = None"
  shows "f \<notin> pool X (set_mm m p (Some mm'))"
proof -
  let ?F = "frame_map X m" and ?m' = "set_mm m p (Some mm')"
  have own: "?F (p, pgn) = Some f" using t f by (simp add: frame_map_def)
  have fs: "inj_on ?F (dom ?F)" "\<forall>f \<in> ran ?F. f \<notin> set (free_fp_list (k_mram m))" using s by (auto simp: sep_def' frames_sep_def)
  have "f \<notin> set (free_fp_list (k_mram m))" using fs(2) own by (blast intro: ranI)
  moreover have "frame_map X ?m' (q, pg) \<noteq> Some f" for q pg
  proof
    assume a: "frame_map X ?m' (q, pg) = Some f"
    then have "?F (q, pg) = Some f" using t(1) new(1) by (auto simp: frame_map_def map_le_def dom_def bind_Some_iff split: if_splits)
    then have "(q, pg) = (p, pgn)" using fs(1) own by (metis domI inj_onD)
    then show False using a t(1) new(2) by (simp add: frame_map_def split: if_splits)
  qed
  ultimately show ?thesis by (auto simp: pool_def ran_def)
qed

text \<open>
  Property C35: memory call 17 with operation 1 leaks frames. Let the frames be separate, and let a process
  mark \<open>n\<close> pages from address \<open>addr\<close> on, with result 0. The frame behind a marked page is then neither free
  nor behind any page of any process; no sequence of instructions of any processes brings it back, and
  neither does the release of a process, its owner included.
\<close>

theorem marked_frames_never_return:
  assumes "sep {} m" "registered m p" "the_mm m p = Some mm" "frame_at mm (addr div 256 + u64_of_int j) = Some f"
    and "0 \<le> j" "j < int_of_u64 n" "libsyscall m p 17 1 addr n = Some (0, m')" "steps run_step m' ps = Some m''"
  shows "f \<notin> pool {} m'' \<and> (\<forall>q k m3. free_pcb m'' (Some q) = Some (k, m3) \<longrightarrow> f \<notin> pool {} m3)"
proof -
  let ?pg = "addr div 256 + u64_of_int j"
  have sp: "space_ok mm" and ram: "ram_ok (k_mram m)" using assms(1,3) by (auto simp: sep_def')
  then have ok: "pt_ok mm" by (simp add: space_ok_def)
  obtain c scr where c: "procs m p = Some c" "syscall m (pid c) 17 \<lparr>a1 = 1, a2 = addr, a3 = n\<rparr> = Some (0, m', scr)"
    using assms(7) by (auto simp: libsyscall_def bind_Some_iff)
  obtain r mm' where v: "vmap_pgd_memset mm addr (int_of_u64 n) = (r, mm')" by (metis prod.exhaust)
  have m': "r = 0" "m' = set_mm m p (Some mm')"
    using c v assms(3) registered_find [OF assms(2) c(1)]
    by (auto simp: syscall_17 sys_memmap_def SYSMEM_MAP_OP_def memset_caller_def the_mm_Some int_of_u64_def)
  note k = memset_remap [OF sp ram v] and w = vmap_pgd_memset_marks [OF ok v]
  have u: "ucast (ucast memset_pattern :: addr_t) = memset_pattern" by (rule bit_eqI) (simp add: bit_simps)
  have "\<forall>j. j < 0 \<or> int_of_u64 n \<le> j \<or> pte_at mm' (addr div 256 + u64_of_int j) = ucast memset_pattern" using w m'(1) by simp
  then have "pte_at mm' ?pg = ucast memset_pattern" using assms(5,6) by (auto dest: spec [of _ j])
  then have "frame_at mm' ?pg = None" using pattern_flags u by (simp add: frame_at_def)
  then have f: "f \<notin> pool {} m'" unfolding m'(2) using k by (intro marked_out_of_sight [OF assms(1,3) _ assms(4)]) simp_all
  have s': "sep {} m'" using syscall_kept [OF c(2,1) assms(1)] by blast
  note later = steps_pool [OF s' assms(8)]
  have "pool {} m3 = pool {} m''" if "free_pcb m'' (Some q) = Some (k, m3)" for q k m3
    using free_pcb_pool [OF _ _ that, of "{}"] later by (simp add: sep_def)
  then show ?thesis using f later by blast
qed

text \<open>A program of no instructions, whatever memory it is loaded into.\<close>

lemma demo_files_mark_no_pages: "marks_no_pages demo_files"
proof -
  have "scan_ints 2 ''0 0'' = ([0, 0], [])" by code_simp
  then show ?thesis
    by (auto simp: marks_no_pages_def load_def demo_files_def store_unsigned_def split: option.splits if_splits)
qed

theorem no_frame_lost_witness:
  "\<exists>s. os_reach demo_files demo_cfg s \<and> the_mm (mach s) 7 \<noteq> None \<and>
     (\<forall>f. uint f < 4 \<longleftrightarrow> f \<in> set (free_fp_list (k_mram (mach s))) \<or>
        (\<exists>p mm pgn. p \<notin> unready s \<and> the_mm (mach s) p = Some mm \<and> frame_at mm pgn = Some f))"
proof -
  obtain s where s: "os_reach demo_files demo_cfg s" "the_mm (mach s) 7 \<noteq> None" using demo_set_up by force
  have m: "256 \<le> uint (memramsz demo_cfg)" "uint (memramsz demo_cfg) \<le> 2097152" "uint (memramsz demo_cfg) div 256 = 4"
    by (simp_all add: demo_cfg_def)
  note n = conjunct1 [OF no_frame_lost [OF s(1) m(1,2) demo_files_mark_no_pages], unfolded m(3)]
  show ?thesis by (intro exI [of _ s] conjI s n)
qed

text \<open>Process 4 of \<open>demo_pair\<close> marks its only page: frame 2 is lost, whatever process 5 does then.\<close>

theorem marked_frames_never_return_witness:
  "\<exists>m' m''. libsyscall demo_pair 4 17 1 0 1 = Some (0, m') \<and> steps run_step m' [] = Some m'' \<and> 2 \<notin> pool {} m''"
proof -
  have t: "the_mm demo_pair 4 = Some (demo_space 2)" by (simp add: demo_pair_simps)
  have p: "procs demo_pair 4 = Some demo_writer" by (rule demo_pair_simps(2))
  note d = demo_space_ok [of 2, simplified]
  obtain r mm' where v: "vmap_pgd_memset (demo_space 2) 0 1 = (r, mm')" by (metis prod.exhaust)
  have "\<not> (16384 :: addr_t) \<le> u64_of_int j" if "0 \<le> j" "j < 1" for j
    using that by (cases "j = 0") (simp_all add: u64_of_int_def)
  then have "r = 0" using vmap_pgd_memset_marks [OF d(1) v] d(6,7) by (auto simp: PAGING_MAX_PGN_eq split: if_splits)
  moreover have "sched_find_proc_by_pid (k_sched demo_pair, procs demo_pair) (pid demo_writer) = Some (Some 4)"
    by (rule registered_find [OF demo_pair_registered(1) p])
  moreover have "caller_mm demo_pair 4 = Some (Some (demo_space 2))" using t by (simp add: the_mm_Some)
  ultimately have l: "libsyscall demo_pair 4 17 1 0 1 = Some (0, set_mm demo_pair 4 (Some mm'))"
    using v p by (simp add: libsyscall_def syscall_17 sys_memmap_def SYSMEM_MAP_OP_def memset_caller_def int_of_u64_def)
  have f: "frame_at (demo_space 2) (0 div 256 + u64_of_int 0) = Some 2" using d(4) by (simp add: u64_of_int_def)
  from marked_frames_never_return [OF demo_pair_sep demo_pair_registered(1) t f _ _ l, of "[]"] l
  show ?thesis by (simp add: int_of_u64_def)
qed

end
