(* ===== verification/Example.thy ===== *)
theory Example
  imports Frames
begin

text \<open>
  One execution of the whole simulator, from \<^verbatim>\<open>main\<close> on: the loader loads a program of two instructions,
  ALLOC of 256 bytes and WRITE of a byte to the new region, and a CPU dispatches the process and
  executes both, with a time slot in between. It shows that the reachable states the theorems speak of include
  states in which memory is allocated and written.
\<close>

section \<open>The two instructions\<close>

definition demo_program :: "inst_t list" where
  "demo_program = [\<lparr>opcode = ALLOC, arg_0 = 256, arg_1 = 0, arg_2 = 0, arg_3 = 0\<rparr>,
                   \<lparr>opcode = WRITE, arg_0 = 65, arg_1 = 0, arg_2 = 7, arg_3 = 0\<rparr>]"

lemma dump_defined:
  assumes "wf_dev d"
  shows "MEMPHY_dump (Some d) \<noteq> None"
proof -
  have "dump_loop d as \<noteq> None" if "\<forall>a \<in> set as. load_byte d a \<noteq> None" for as
    using that by (induction as) auto
  moreover have "load_byte d (u64_of_int i) \<noteq> None" if "0 \<le> i" "i < maxsz d" for i
    using that assms load_byte_defined [OF assms, of "u64_of_int i"] by (simp add: wf_dev_def uint_u64_of_int)
  ultimately have "dump_loop d (map u64_of_int [0..maxsz d - 1]) \<noteq> None" by simp
  then show ?thesis by (simp add: MEMPHY_dump_def)
qed

text \<open>A process that has what the second instruction needs: an accepted offset of region 0 whose page is in RAM.\<close>

definition writable :: "machine \<Rightarrow> pref \<Rightarrow> bool" where
  "writable m p \<longleftrightarrow> (\<exists>mm. the_mm m p = Some mm \<and> pt_ok mm \<and> resolve_rg_addr mm 0 7 = Some 7 \<and> resident m mm 7)"

lemma first_instruction:
  assumes c: "procs m p = Some c" "seg_text (code c) = demo_program" "seg_size (code c) = 2" "pc c = 0"
    and mm: "the_mm m p = Some (snd (init_mm [] 0 mm0))" "\<forall>k. calloc_ok mm0 k" and reg: "registered m p"
    and ram: "wf_dev (k_mram m)" "frames_ok (k_mram m)" "free_fp_list (k_mram m) \<noteq> []" "num_frames (k_mram m) \<le> 8192"
  shows "\<exists>m1 c1. run m p = Some (0, m1) \<and> procs m1 p = Some c1 \<and> code c1 = code c \<and> pc c1 = 1 \<and>
    k_sched m1 = k_sched m \<and> writable m1 p \<and> wf_dev (k_mram m1)"
proof -
  let ?c = "c\<lparr>pc := 1\<rparr>"
  let ?m = "m\<lparr>procs := (procs m)(p \<mapsto> ?c)\<rparr>" and ?mm = "snd (init_mm [] 0 mm0)"
  let ?ram = "(k_mram m)\<lparr>free_fp_list := drop 1 (free_fp_list (k_mram m))\<rparr>"
  have t: "the_mm ?m p = Some ?mm" using mm(1) c(1) by (simp add: the_mm_def caller_mm_def)
  have r: "registered ?m p" using sep_pcb(3) [OF c(1), of ?c p] reg by simp
  have i: "pt_ok ?mm" "pgd ?mm \<noteq> None" "\<forall>k. calloc_ok ?mm k" using init_mm_ok [of "[]" 0 mm0] mm(2) by simp_all
  have v: "get_vma_by_num (Some ?mm) 0 = Some 0" "length (mmap ?mm) = 1" "sbrk (mmap ?mm ! 0) = 0"
      "\<forall>rg \<in> set (frees ?mm 0). rg_ok rg" "find (fits (uint (256 :: addr_t))) (frees ?mm 0) = None" "nat 0 < length (symrgtbl ?mm)"
    by (simp_all add: init_mm_def Let_def get_vma_by_num_def int_of_u64_def frees_def enlist_vm_rg_node_def init_vm_rg_def
        rg_ok_def fits_def PAGING_MAX_SYMTBL_SZ_def)
  have n: "(uint (256 :: addr_t) + 255) div 256 = int 1" "1 \<le> length (free_fp_list (k_mram ?m))"
    using ram(3) by (simp_all add: Suc_le_eq)
  obtain mm' where al: "mm_alloc ?m p 0 0 256 = Some (0, 0, set_mm (?m\<lparr>k_mram := ?ram\<rparr>) p (Some mm'))" "pt_ok mm'"
    and ok: "\<forall>off. 256 \<le> off \<or> resolve_rg_addr mm' 0 off = Some (0 + off) \<and>
      resident (set_mm (?m\<lparr>k_mram := ?ram\<rparr>) p (Some mm')) mm' (0 + off)"
    using alloc_grow_resident [OF t i r v(1,2) _ _ v(4) _ _ v(5) n, of 0] v(3,6) ram by auto
  let ?m1 = "set_mm (?m\<lparr>k_mram := ?ram\<rparr>) p (Some mm')"
  have t1: "the_mm ?m1 p = Some mm'" using t by simp
  obtain m2 where m2: "dump_pgtbl ?m1 p = Some m2" "same_space ?m1 m2 p" "k_mram m2 = k_mram ?m1"
    using dump_pgtbl_same [OF t1 al(2)] by metis
  have wf: "wf_dev (k_mram m2)" using m2(3) ram(1) by simp
  have "liballoc ?m p 256 0 = Some (0, m2)"
    using al(1) m2(1) dump_defined [OF wf] by (auto simp: liballoc_def int_of_u32_def)
  then have "run m p = Some (0, m2)" using c by (simp add: run_def demo_program_def execute_def)
  moreover have "procs ?m1 p = Some (?c\<lparr>pcb_mm := Some mm'\<rparr>)" by (simp add: set_mm_procs)
  then obtain mmp where "procs m2 p = Some (?c\<lparr>pcb_mm := mmp\<rparr>)" using same_spaceD [OF m2(2)] by fastforce
  moreover have "writable m2 p"
  proof -
    obtain mm2 where mm2: "the_mm m2 p = Some mm2" "pt_ok mm2" "pte_at mm2 = pte_at mm'" "symrgtbl mm2 = symrgtbl mm'"
      using same_space_mm [OF m2(2) t1] by metis
    have "\<not> (256 :: addr_t) \<le> 7" by simp
    then have "resolve_rg_addr mm' 0 7 = Some 7" "resident ?m1 mm' 7" using ok by (metis add_0)+
    then show ?thesis using mm2 resolve_cong [OF mm2(4)] resident_cong [OF mm2(3), of m2 ?m1] m2(3) by (auto simp: writable_def)
  qed
  moreover have "k_sched m2 = k_sched m" using m2(2) by (simp add: same_space_def)
  ultimately show ?thesis using wf by (intro exI [of _ m2] exI [of _ "?c\<lparr>pcb_mm := mmp\<rparr>"]) simp
qed

lemma second_instruction:
  assumes c: "procs m p = Some c" "seg_text (code c) = demo_program" "seg_size (code c) = 2" "pc c = 1"
    and mm: "writable m p" and reg: "registered m p" and ram: "wf_dev (k_mram m)"
  shows "\<exists>m1. run m p = Some (0, m1) \<and> procs m1 p \<noteq> None"
proof -
  let ?m = "m\<lparr>procs := (procs m)(p \<mapsto> c\<lparr>pc := 2\<rparr>)\<rparr>"
  obtain mm where mm: "the_mm m p = Some mm" "pt_ok mm" "resolve_rg_addr mm 0 7 = Some 7" "resident m mm 7"
    using mm by (auto simp: writable_def)
  have t: "the_mm ?m p = Some mm" using mm(1) c(1) by (simp add: the_mm_def caller_mm_def)
  have r: "registered ?m p" using sep_pcb(3) [OF c(1), of "c\<lparr>pc := 2\<rparr>" p] reg by simp
  have a: "resolve_rg_addr mm (int_of_u32 0) 7 = Some 7" "resident ?m mm 7" "wf_dev (k_mram ?m)"
    using mm(3,4) ram by (simp_all add: int_of_u32_def resident_def)
  obtain m1 where w: "libwrite ?m p 65 0 7 = Some (0, m1)" "same_space ?m m1 p"
    using libwrite_present [OF t mm(2) a(1,2) r a(3), of 65] by metis
  have "run m p = Some (0, m1)" using c w(1) by (simp add: run_def demo_program_def execute_def byte_of_u64_def word_le_def)
  moreover have "procs m1 p \<noteq> None" using same_spaceD [OF w(2), of "c\<lparr>pc := 2\<rparr>"] by fastforce
  ultimately show ?thesis by blast
qed

section \<open>The run\<close>

definition run_files :: "string \<Rightarrow> string option" where
  "run_files = [''p'' \<mapsto> show_program 0 (length demo_program) demo_program]"

definition run_pcb :: pcb_t where
  "run_pcb = demo_junk\<lparr>pid := 1, bp := 1024, pc := 0, path := ''p'', priority := 0,
     code := \<lparr>seg_text = demo_program, seg_size = 2\<rparr>\<rparr>"

lemma run_load: "load run_files demo_junk (new_text demo_memory) 1 ''p'' = done_with (run_pcb, 2)"
proof -
  have "loaded (new_text demo_memory k) (demo_program ! 0) = demo_program ! 0" "loaded (new_text demo_memory k) (demo_program ! 1) = demo_program ! 1" for k
    by (simp_all add: loaded_def demo_program_def demo_memory_def Let_def)
  then have "map (\<lambda>(k, ins). loaded (new_text demo_memory k) ins) (enumerate 0 demo_program) = demo_program"
    by (simp add: demo_program_def)
  moreover have "length demo_program = 2" by (simp add: demo_program_def)
  ultimately show ?thesis
    using load_program [of run_files "''p''" 0 demo_program 0 demo_junk "new_text demo_memory" 1]
    by (simp add: run_files_def run_pcb_def)
qed

text \<open>Steps of the timer alone, and of one CPU.\<close>

lemma reach_ticks: "os_reach files cfg s \<Longrightarrow> timer_runs n (tm s) = Some t \<Longrightarrow> os_reach files cfg (s\<lparr>tm := t\<rparr>)"
proof (induction n arbitrary: s)
  case (Suc n)
  then obtain t1 where t1: "timer_step (tm s) = Some t1" "timer_runs n t1 = Some t" by (auto simp: bind_Some_iff)
  have "os_reach files cfg (s\<lparr>tm := t1\<rparr>)" by (rule os_reach.step [OF Suc.prems(1) os_step.tick [OF t1(1)]])
  from Suc.IH [OF this] t1(2) show ?case by simp
next
  case (0 s)
  have "s\<lparr>tm := tm s\<rparr> = s" by (cases s) simp
  then show ?case using 0 by force
qed

lemma reach_cpu: "os_reach files cfg s \<Longrightarrow> i < n_cpus cfg \<Longrightarrow> cpu_ready s i \<Longrightarrow> cpu_step cfg i s = Some s' \<Longrightarrow> os_reach files cfg s'"
  by (rule os_reach.step [OF _ os_step.cpu])

text \<open>After two devices have arrived, seven steps of the timer release both.\<close>

definition run_timer :: timer_state where
  "run_timer = next_slot_arrive (start_timer (attach_all 2 static_timer)) 1"

lemma run_round: "\<exists>t. timer_runs 7 (next_slot_arrive run_timer 0) = Some t \<and> next_slot_returns t 0"
  by (simp add: run_timer_def static_timer_def attach_event_def start_timer_def next_slot_arrive_def timer_step_def
      next_slot_returns_def numeral_eq_Suc Let_def)

text \<open>The scheduler with the process in it, and the dispatch.\<close>

definition run_sched :: sched_state where
  "run_sched = fst (the (add_proc (init_scheduler static_sched, [7 \<mapsto> demo_junk\<lparr>prio := 3\<rparr>]) (Some 7)))"

lemma run_dispatch: "fst (get_proc run_sched) = Some 7"
  by code_simp

lemma run_added:
  "pcbs 7 = Some c \<Longrightarrow> prio c = 3 \<Longrightarrow> \<exists>c'. add_proc (init_scheduler static_sched, pcbs) (Some 7) = Some (run_sched, pcbs(7 \<mapsto> c')) \<and>
     code c' = code c \<and> pc c' = pc c \<and> pcb_mm c' = pcb_mm c"
  by (intro exI [of _ "c\<lparr>prio := of_nat (normalize_prio 3)\<rparr>"]) (simp add: run_sched_def add_proc_def add_mlq_proc_def Let_def)

text \<open>The loader has done its work and waits for the next slot.\<close>

lemma run_loaded:
  "\<exists>s c. os_reach run_files demo_cfg s \<and> loader s = \<lparr>ld_pc = LWait, ld_i = 1, ld_proc = None\<rparr> \<and> tm s = run_timer \<and>
     cpus s 0 = \<lparr>cpu_pc = CTop, cpu_proc = None, time_left = 0\<rparr> \<and> k_sched (mach s) = run_sched \<and>
     k_mram (mach s) = snd (init_memphy blank_dev 1024 1) \<and> procs (mach s) 7 = Some c \<and>
     code c = \<lparr>seg_text = demo_program, seg_size = 2\<rparr> \<and> pc c = 0 \<and> pcb_mm c = Some (snd (init_mm [] 0 demo_user_mm))"
proof -
  let ?s = "os_start demo_cfg blank_dev" and ?mm = "snd (init_mm [] 0 demo_user_mm)"
  have st: "os_reach run_files demo_cfg t'"
    if "os_reach run_files demo_cfg t" "ld_ready demo_cfg t" "procs (mach t) a = None"
      "ld_step run_files demo_cfg (demo_memory\<lparr>new_ref := a\<rparr>) t = done_with t'" for t t' a
    by (rule os_reach.step [OF that(1) os_step.ld [where j = "demo_memory\<lparr>new_ref := a\<rparr>", OF that(2) _ _ that(4)]])
      (simp_all add: demo_memory_def demo_junk_def that(3))
  define s1 where "s1 = ?s\<lparr>mach := (mach ?s)\<lparr>procs := [7 \<mapsto> run_pcb\<lparr>prio := 3\<rparr>]\<rparr>, avail_pid := 2,
    loader := \<lparr>ld_pc = LTime, ld_i = 0, ld_proc = Some 7\<rparr>\<rparr>"
  define s2 where "s2 = set_loader s1 LInit"
  define s3 where "s3 = (set_loader s2 LAdd)\<lparr>mach := set_mm (mach s2) 7 (Some ?mm)\<rparr>"
  have "os_reach run_files demo_cfg s1"
    by (rule st [where a = 7, OF os_reach.start [where dev = blank_dev]])
      (use run_load in \<open>simp_all add: ld_ready_def os_start_def start_machine_def s1_def ld_step_def demo_cfg_def n_procs_def demo_memory_def Let_def\<close>)
  then have "os_reach run_files demo_cfg s2"
    by (rule st [where a = 8])
      (simp_all add: ld_ready_def os_start_def s1_def s2_def ld_step_def demo_cfg_def n_procs_def Let_def
        current_time_def start_timer_def static_timer_def)
  then have r3: "os_reach run_files demo_cfg s3"
    by (rule st [where a = 8])
      (simp_all add: ld_ready_def s1_def s2_def s3_def ld_step_def demo_memory_def Let_def set_loader_def)
  have p3: "procs (mach s3) = [7 \<mapsto> run_pcb\<lparr>prio := 3, pcb_mm := Some ?mm\<rparr>]" "k_sched (mach s3) = init_scheduler static_sched"
      "k_mram (mach s3) = snd (init_memphy blank_dev 1024 1)" "loader s3 = \<lparr>ld_pc = LAdd, ld_i = 0, ld_proc = Some 7\<rparr>"
      "tm s3 = start_timer (attach_all 2 static_timer)" "cpus s3 0 = \<lparr>cpu_pc = CTop, cpu_proc = None, time_left = 0\<rparr>"
    by (simp_all add: s1_def s2_def s3_def set_loader_def set_mm_def os_start_def start_machine_def demo_cfg_def n_cpus_def numeral_2_eq_2)
  obtain c where c: "add_proc (k_sched (mach s3), procs (mach s3)) (Some 7) = Some (run_sched, (procs (mach s3))(7 \<mapsto> c))"
      "code c = \<lparr>seg_text = demo_program, seg_size = 2\<rparr>" "pc c = 0" "pcb_mm c = Some ?mm"
    using run_added [of "procs (mach s3)" "run_pcb\<lparr>prio := 3, pcb_mm := Some ?mm\<rparr>"] p3(1,2) by (auto simp: run_pcb_def)
  define s4 where "s4 = s3\<lparr>mach := (mach s3)\<lparr>k_sched := run_sched, procs := (procs (mach s3))(7 \<mapsto> c)\<rparr>,
    loader := \<lparr>ld_pc = LNext, ld_i = 1, ld_proc = None\<rparr>\<rparr>"
  define s5 where "s5 = (set_loader s4 LWait)\<lparr>tm := run_timer\<rparr>"
  from r3 have "os_reach run_files demo_cfg s4"
    by (rule st [where a = 8]) (use c(1) in \<open>simp_all add: ld_ready_def p3(1,4) ld_step_def Let_def s4_def\<close>)
  then have "os_reach run_files demo_cfg s5"
    by (rule st [where a = 8])
      (simp_all add: ld_ready_def p3 ld_step_def Let_def s4_def s5_def set_loader_def run_timer_def demo_cfg_def n_cpus_def)
  then show ?thesis using c p3 by (intro exI [of _ s5] exI [of _ c]) (simp add: s5_def s4_def set_loader_def)
qed

text \<open>The CPU dispatches the process and executes its first instruction.\<close>

lemma run_allocates:
  "\<exists>s c. os_reach run_files demo_cfg s \<and> cpus s 0 = \<lparr>cpu_pc = CNext, cpu_proc = Some 7, time_left = 1\<rparr> \<and> tm s = run_timer \<and>
     ld_pc (loader s) = LWait \<and> procs (mach s) 7 = Some c \<and> seg_text (code c) = demo_program \<and> seg_size (code c) = 2 \<and> pc c = 1 \<and>
     writable (mach s) 7 \<and> wf_dev (k_mram (mach s))"
proof -
  obtain s c where s: "os_reach run_files demo_cfg s" "loader s = \<lparr>ld_pc = LWait, ld_i = 1, ld_proc = None\<rparr>" "tm s = run_timer"
      "cpus s 0 = \<lparr>cpu_pc = CTop, cpu_proc = None, time_left = 0\<rparr>" "k_sched (mach s) = run_sched"
      "k_mram (mach s) = snd (init_memphy blank_dev 1024 1)" "procs (mach s) 7 = Some c"
      "code c = \<lparr>seg_text = demo_program, seg_size = 2\<rparr>" "pc c = 0" "pcb_mm c = Some (snd (init_mm [] 0 demo_user_mm))"
    using run_loaded by blast
  have n: "0 < n_cpus demo_cfg" "num_processes demo_cfg \<le> 50" by (simp_all add: n_cpus_def demo_cfg_def)
  have g: "get_proc run_sched = (Some 7, snd (get_proc run_sched))" using run_dispatch by (metis prod.collapse)
  define sa where "sa = s\<lparr>mach := (mach s)\<lparr>k_sched := snd (get_proc run_sched)\<rparr>,
    cpus := (cpus s)(0 := \<lparr>cpu_pc = CCheck, cpu_proc = Some 7, time_left = 0\<rparr>)\<rparr>"
  have "cpu_top (mach s) (cpus s 0) = Some (mach sa, cpus sa 0)"
    unfolding cpu_top_def s(4,5) by (subst g) (simp add: sa_def)
  then have ra: "os_reach run_files demo_cfg sa"
    by (intro reach_cpu [OF s(1) n(1)]) (simp_all add: cpu_ready_def s(4) cpu_step_def cpu_local_def sa_def)
  have "cpu_holds (cpus sa 0) = Some 7" "cpu_pc (cpus sa 0) \<noteq> CFree" by (simp_all add: sa_def cpu_holds_def)
  note reg = cpu_process_registered [OF ra n(2,1) this]
  have ram: "wf_dev (k_mram (mach sa))" "frames_ok (k_mram (mach sa))" "free_fp_list (k_mram (mach sa)) \<noteq> []" "num_frames (k_mram (mach sa)) \<le> 8192"
    by (simp_all add: sa_def s(6) wf_init_memphy upto_rec1)
  have ca: "procs (mach sa) 7 = Some c" "the_mm (mach sa) 7 = Some (snd (init_mm [] 0 demo_user_mm))"
    using s(7,10) by (simp_all add: sa_def the_mm_def caller_mm_def)
  obtain m1 c1 where m1: "run (mach sa) 7 = Some (0, m1)" "procs m1 7 = Some c1" "code c1 = code c" "pc c1 = 1" "writable m1 7" "wf_dev (k_mram m1)"
    using first_instruction [OF ca(1) _ _ s(9) ca(2) _ reg ram] s(8) demo_user_mm_rest by auto
  define sb where "sb = sa\<lparr>mach := m1, cpus := (cpus sa)(0 := \<lparr>cpu_pc = CNext, cpu_proc = Some 7, time_left = 1\<rparr>)\<rparr>"
  have "cpus sa 0 = \<lparr>cpu_pc = CCheck, cpu_proc = Some 7, time_left = 0\<rparr>" by (simp add: sa_def)
  then have "os_reach run_files demo_cfg sb"
    using m1(1) by (intro reach_cpu [OF ra n(1)])
      (simp_all add: cpu_ready_def cpu_step_def cpu_local_def cpu_check_def sb_def demo_cfg_def in_int_def Let_def)
  then show ?thesis using m1 s(2,3,8) by (intro exI [of _ sb] exI [of _ c1]) (simp add: sb_def sa_def)
qed

text \<open>It passes a slot and is about to execute the second instruction.\<close>

lemma run_reaches_write:
  "\<exists>s c. os_reach run_files demo_cfg s \<and> cpus s 0 = \<lparr>cpu_pc = CCheck, cpu_proc = Some 7, time_left = 1\<rparr> \<and>
     ld_pc (loader s) = LWait \<and> procs (mach s) 7 = Some c \<and> seg_text (code c) = demo_program \<and> seg_size (code c) = 2 \<and> pc c = 1 \<and>
     writable (mach s) 7 \<and> registered (mach s) 7 \<and> wf_dev (k_mram (mach s))"
proof -
  obtain s c where s: "os_reach run_files demo_cfg s" "cpus s 0 = \<lparr>cpu_pc = CNext, cpu_proc = Some 7, time_left = 1\<rparr>" "tm s = run_timer"
      "ld_pc (loader s) = LWait" "procs (mach s) 7 = Some c" "seg_text (code c) = demo_program" "seg_size (code c) = 2" "pc c = 1"
      "writable (mach s) 7" "wf_dev (k_mram (mach s))"
    using run_allocates by blast
  have n: "0 < n_cpus demo_cfg" "num_processes demo_cfg \<le> 50" by (simp_all add: n_cpus_def demo_cfg_def)
  define sc where "sc = s\<lparr>tm := next_slot_arrive run_timer 0, cpus := (cpus s)(0 := \<lparr>cpu_pc = CWait, cpu_proc = Some 7, time_left = 1\<rparr>)\<rparr>"
  have rc: "os_reach run_files demo_cfg sc"
    by (rule reach_cpu [OF s(1) n(1)]) (simp_all add: cpu_ready_def cpu_step_def sc_def s(2,3))
  obtain t where t: "timer_runs 7 (tm sc) = Some t" "next_slot_returns t 0" using run_round by (auto simp: sc_def)
  define sd where "sd = sc\<lparr>tm := t, cpus := (cpus sc)(0 := \<lparr>cpu_pc = CTop, cpu_proc = Some 7, time_left = 1\<rparr>)\<rparr>"
  have rd: "os_reach run_files demo_cfg sd"
    by (rule reach_cpu [OF reach_ticks [OF rc t(1)] n(1)]) (use t(2) in \<open>simp_all add: cpu_ready_def cpu_step_def sd_def sc_def\<close>)
  define se where "se = sd\<lparr>cpus := (cpus sd)(0 := \<lparr>cpu_pc = CCheck, cpu_proc = Some 7, time_left = 1\<rparr>)\<rparr>"
  have d: "cpus sd 0 = \<lparr>cpu_pc = CTop, cpu_proc = Some 7, time_left = 1\<rparr>" "mach sd = mach s" by (simp_all add: sd_def sc_def)
  have e: "mach se = mach s" "loader se = loader s" by (simp_all add: se_def sd_def sc_def)
  have re: "os_reach run_files demo_cfg se"
    by (rule reach_cpu [OF rd n(1)]) (use s(5-8) in \<open>simp_all add: cpu_ready_def cpu_step_def cpu_local_def cpu_top_def d, simp add: se_def d\<close>)
  have "cpu_holds (cpus se 0) = Some 7" "cpu_pc (cpus se 0) \<noteq> CFree" by (simp_all add: se_def cpu_holds_def)
  note reg = cpu_process_registered [OF re n(2,1) this]
  show ?thesis using s e re reg by (intro exI [of _ se] exI [of _ c]) (simp add: se_def)
qed

end
