(* ===== verification/Arrays.thy ===== *)
theory Arrays
  imports Conservation Example
begin

text \<open>
  The paged memory as the program of a process sees it: a private array of bytes. The definitions
  here are the abstract machine, an array and ten registers per process; the lemmas show that the
  library implements its loads and stores through page table, frames and system calls; and the
  properties that the simulator refines one such machine per process.
\<close>

section \<open>The abstract machine\<close>

type_synonym umem = "addr_t \<Rightarrow> byte option"

text \<open>
  The address a load or store really has: the page number is passed to \<^verbatim>\<open>pg_getpage\<close> as an \<^verbatim>\<open>int\<close>.
  Below \<open>2 ^ 39\<close> this is the address itself; addresses \<open>2 ^ 40\<close> apart are the same.
\<close>

definition c_addr :: "addr_t \<Rightarrow> addr_t" where
  "c_addr a = u64_of_int (int_of_u64 (a div 256)) * 256 + a mod 256"

definition array_store :: "umem \<Rightarrow> addr_t \<Rightarrow> byte \<Rightarrow> int \<times> umem" where
  "array_store v a b = (if v (c_addr a) = None then (-1, v) else (0, v(c_addr a \<mapsto> b)))"

definition array_load :: "umem \<Rightarrow> addr_t \<Rightarrow> int \<times> byte" where
  "array_load v a = (case v (c_addr a) of None \<Rightarrow> (-1, 0) | Some b \<Rightarrow> (0, b))"

text \<open>A copy into the array from a source that may fail.\<close>

fun array_fill :: "(addr_t \<Rightarrow> int \<times> byte) \<Rightarrow> nat \<Rightarrow> addr_t \<Rightarrow> addr_t \<Rightarrow> umem \<Rightarrow> int \<times> umem" where
  "array_fill source 0 s d v = (0, v)"
| "array_fill source (Suc n) s d v =
     (case source s of (r, b) \<Rightarrow>
        if r \<noteq> 0 then (-1, v)
        else (case array_store v d b of (w, v1) \<Rightarrow>
                if w \<noteq> 0 then (-1, v1) else array_fill source n (s + 1) (d + 1) v1))"

text \<open>
  Marking \<open>n\<close> pages from address \<open>a\<close> on: their addresses disappear, all of them when the result is 0.
\<close>

definition marked_page :: "addr_t \<Rightarrow> int \<Rightarrow> addr_t \<Rightarrow> bool" where
  "marked_page a n x \<longleftrightarrow> (\<exists>j. 0 \<le> j \<and> j < n \<and> x div 256 = a div 256 + u64_of_int j)"

definition array_unmap :: "addr_t \<Rightarrow> int \<Rightarrow> umem \<Rightarrow> int \<Rightarrow> umem \<Rightarrow> bool" where
  "array_unmap a n v r v' \<longleftrightarrow>
     (\<forall>x. v' x = v x \<or> marked_page a n x \<and> v' x = None) \<and> (r = 0 \<longrightarrow> (\<forall>x. marked_page a n x \<longrightarrow> v' x = None))"

text \<open>
  One instruction on array and registers: \<open>mm\<close> gives the regions, \<open>krnl\<close> the bytes of the kernel pool, \<open>r\<close>
  is the result of the instruction. An allocation may add addresses and changes no byte; marking pages by memory
  call 17 removes addresses.
\<close>

definition array_step :: "mm_struct \<Rightarrow> (addr_t \<Rightarrow> int \<times> byte) \<Rightarrow> inst_t \<Rightarrow> umem \<times> addr_t list \<Rightarrow> int \<Rightarrow> umem \<times> addr_t list \<Rightarrow> bool" where
  "array_step mm krnl ins s r s' \<longleftrightarrow>
     (case opcode ins of
        READ \<Rightarrow>
          (case resolve_rg_addr mm (int_of_u32 (ucast (arg_0 ins))) (arg_1 ins) of
             None \<Rightarrow> r = -1 \<and> s' = s
           | Some a \<Rightarrow> (case array_load (fst s) a of (w, b) \<Rightarrow> r = w \<and>
               s' = (fst s, if w = 0 then (snd s)[unat (arg_2 ins) := ucast (u32_of_byte b)] else snd s)))
      | WRITE \<Rightarrow>
          (case resolve_rg_addr mm (int_of_u32 (ucast (arg_1 ins))) (arg_2 ins) of
             None \<Rightarrow> r = -1 \<and> s' = s
           | Some a \<Rightarrow> (r, fst s') = array_store (fst s) a (byte_of_u64 (arg_0 ins)) \<and> snd s' = snd s)
      | COPY_TO_USER \<Rightarrow>
          (case copy_rgs mm (ucast (arg_0 ins)) (ucast (arg_1 ins)) of
             None \<Rightarrow> r = -1 \<and> s' = s
           | Some (src, dst) \<Rightarrow>
               if kmem_addr_is_kernel (rg_start src) \<and> mode_bit src = VMRG_KERNEL_MODE \<and> mode_bit dst = VMRG_USER_MODE
               then (r, fst s') = array_fill krnl (unat (ucast (arg_3 ins) :: u32))
                      (rg_start src + ucast (ucast (arg_2 ins) :: u32)) (rg_start dst + ucast (ucast (arg_2 ins) :: u32)) (fst s) \<and>
                    snd s' = snd s
               else r = -1 \<and> s' = s)
      | ALLOC \<Rightarrow> fst s \<subseteq>\<^sub>m fst s' \<and> snd s' = snd s
      | SYSCALL \<Rightarrow>
          (if (ucast (arg_0 ins) :: u32) = 17 \<and> int_of_u64 (arg_1 ins) = SYSMEM_INC_OP
           then fst s \<subseteq>\<^sub>m fst s' \<and> snd s' = snd s
           else if (ucast (arg_0 ins) :: u32) = 17 \<and> int_of_u64 (arg_1 ins) = SYSMEM_MAP_OP
           then array_unmap (arg_2 ins) (int_of_u64 (arg_3 ins)) (fst s) r (fst s') \<and> snd s' = snd s
           else s' = s)
      | _ \<Rightarrow> s' = s)"

section \<open>Addresses\<close>

lemma paste_word:
  fixes x a :: addr_t
  shows "uint ((x * 256 + a mod 256) div 256) = uint x mod 2 ^ 56" "(x * 256 + a mod 256) mod 256 = a mod 256"
proof -
  have o: "0 \<le> uint (a mod 256)" "uint (a mod 256) < 256" by (simp_all add: uint_mod)
  have u: "uint (x * 256 + a mod 256) = (uint x * 256 + uint (a mod 256)) mod 2 ^ 64" by (simp add: uint_word_ariths mod_simps)
  let ?A = "uint x * 256 + uint (a mod 256)"
  have A: "?A div 256 = uint x" "?A mod 256 = uint (a mod 256)" using o by simp_all
  have "?A mod (256 * 2 ^ 56) = 256 * (?A div 256 mod 2 ^ 56) + ?A mod 256" by (rule zmod_zmult2_eq) simp
  then have "?A mod 2 ^ 64 = 256 * (uint x mod 2 ^ 56) + uint (a mod 256)" unfolding A by simp
  then show "uint ((x * 256 + a mod 256) div 256) = uint x mod 2 ^ 56" using u o by (simp add: uint_div)
  have "uint ((x * 256 + a mod 256) mod 256) = (uint x * 256 + uint (a mod 256)) mod 2 ^ 64 mod 256" by (simp only: uint_mod u) simp
  also have "\<dots> = uint (a mod 256)" using o by (simp add: mod_mod_cancel)
  finally show "(x * 256 + a mod 256) mod 256 = a mod 256" by (simp add: word_uint_eq_iff)
qed

lemma c_addr_page: "int_of_u64 (c_addr a div 256) = int_of_u64 (a div 256)" "c_addr a mod 256 = a mod 256"
proof -
  let ?x = "u64_of_int (int_of_u64 (a div 256))"
  show "c_addr a mod 256 = a mod 256" unfolding c_addr_def by (rule paste_word)
  have "uint (ucast (c_addr a div 256) :: u32) = uint (c_addr a div 256) mod 2 ^ 32"
    by (simp add: unsigned_ucast_eq take_bit_eq_mod)
  also have "\<dots> = uint ?x mod 2 ^ 56 mod 2 ^ 32" unfolding c_addr_def paste_word(1) ..
  also have "\<dots> = uint ?x mod 2 ^ 32" by (simp add: mod_mod_cancel)
  also have "\<dots> = uint (ucast ?x :: u32)" by (simp add: unsigned_ucast_eq take_bit_eq_mod)
  also have "(ucast ?x :: u32) = ucast (a div 256)"
    by (rule bit_word_eqI) (simp add: u64_of_int_def int_of_u64_def bit_simps)
  finally have "(ucast (c_addr a div 256) :: u32) = ucast (a div 256)" by (simp only: word_uint_eq_iff)
  then show "int_of_u64 (c_addr a div 256) = int_of_u64 (a div 256)" by (simp only: int_of_u64_def)
qed

lemma c_addr_in:
  assumes "u64_of_int (int_of_u64 (a div 256)) < PAGING_MAX_PGN"
  shows "c_addr a div 256 = u64_of_int (int_of_u64 (a div 256))"
proof -
  have "uint (u64_of_int (int_of_u64 (a div 256))) < 2 ^ 56" using assms by (simp add: PAGING_MAX_PGN_eq word_less_def)
  then show ?thesis by (simp add: word_uint_eq_iff c_addr_def paste_word(1))
qed

lemma access_c_addr: "pg_getval m p (c_addr a) = pg_getval m p a" "pg_setval m p (c_addr a) b = pg_setval m p a b"
  by (simp_all only: pg_getval_def pg_setval_def PAGING_PAGESZ_def Let_def c_addr_page)

lemma c_addr_small: "uint a < 2 ^ 39 \<Longrightarrow> c_addr a = a"
proof -
  assume "uint a < 2 ^ 39"
  then have "uint (a div 256) < 2 ^ 31" by (simp add: uint_div)
  then have "u64_of_int (int_of_u64 (a div 256)) = a div 256" by (simp add: c_conv u64_of_int_def)
  then show ?thesis by (simp add: c_addr_def word_mod_div_equality)
qed


section \<open>Loads and stores\<close>

lemma present_resident:
  assumes "sep X m" "p \<notin> X" "the_mm m p = Some mm" "PAGING_PAGE_PRESENT (ucast (pte_at mm (a div 256)))"
  shows "resident m mm a"
proof -
  have "frame_map X m (p, a div 256) = Some (frame_of mm a)"
    using assms(2-4) by (simp add: frame_map_def frame_at_def frame_of_def)
  then have "uint (frame_of mm a) < num_frames (k_mram m)"
    using assms(1) unfolding sep_def' frames_sep_def by (blast intro: ranI)
  moreover have "a div 256 < PAGING_MAX_PGN" using assms(4) by (auto simp: pte_at_def present_bit split: if_splits option.splits)
  ultimately show ?thesis using assms(4) by (simp add: resident_def)
qed

lemma view_resident:
  assumes "sep X m" "p \<notin> X" "the_mm m p = Some mm"
  shows "resident m mm a \<longleftrightarrow> user_view m p a \<noteq> None"
    and "resident m mm a \<Longrightarrow> user_view m p a = load_byte (k_mram m) (phys mm a)"
proof -
  have wf: "wf_dev (k_mram m)" using assms(1) by (simp add: sep_def' ram_ok_def)
  have v: "user_view m p a = (if PAGING_PAGE_PRESENT (ucast (pte_at mm (a div 256))) then load_byte (k_mram m) (phys mm a) else None)"
    using assms(3) by (simp add: user_view_def frame_at_def phys_def frame_of_def)
  show "user_view m p a = load_byte (k_mram m) (phys mm a)" if "resident m mm a" using that v by (simp add: resident_def)
  show "resident m mm a \<longleftrightarrow> user_view m p a \<noteq> None"
    using v phys_in_ram(1) [OF wf, of mm a] load_byte_defined [OF wf] present_resident [OF assms, of a]
    by (auto simp: resident_def split: if_splits)
qed

text \<open>Different addresses of one process lie behind different addresses of RAM.\<close>

lemma phys_inj:
  assumes "sep X m" "p \<notin> X" "the_mm m p = Some mm" "resident m mm a" "resident m mm b" "phys mm a = phys mm b"
  shows "a = b"
proof -
  have dec: "phys mm x div 256 = frame_of mm x" "phys mm x mod 256 = x mod 256" if "resident m mm x" for x
  proof -
    have "uint (frame_of mm x) < 8192"
      using PAGING_FPN_small [of "ucast (pte_at mm (x div 256))"] by (auto simp: frame_of_def unsigned_ucast_eq take_bit_int_eq_self)
    moreover have o: "uint (x mod 256) < 256" by (simp add: uint_mod)
    ultimately have u: "uint (phys mm x) = uint (frame_of mm x) * 256 + uint (x mod 256)"
      by (simp add: phys_def uint_word_ariths)
    then show "phys mm x div 256 = frame_of mm x" using o by (simp add: word_uint_eq_iff uint_div)
    have "uint (phys mm x mod 256) = uint (x mod 256)" using u o by (simp add: uint_mod)
    then show "phys mm x mod 256 = x mod 256" by (simp add: word_uint_eq_iff)
  qed
  have fr: "frame_map X m (p, x div 256) = Some (frame_of mm x)" if "resident m mm x" for x
    using that assms(2,3) by (simp add: frame_map_def frame_at_def frame_of_def resident_def)
  have "frame_of mm a = frame_of mm b" using dec(1) [OF assms(4)] dec(1) [OF assms(5)] assms(6) by simp
  then have "(p, a div 256) = (p, b div 256)"
    using assms(1) fr [OF assms(4)] fr [OF assms(5)] unfolding sep_def' frames_sep_def inj_on_def by (metis domI)
  moreover have "a mod 256 = b mod 256" using dec(2) [OF assms(4)] dec(2) [OF assms(5)] assms(6) by simp
  ultimately show ?thesis using word_mod_div_equality [of a 256] word_mod_div_equality [of b 256] by (metis prod.inject)
qed

lemma same_space_view:
  assumes "same_space m m' p" "load_byte (k_mram m') = load_byte (k_mram m)"
  shows "user_view m' p = user_view m p"
  using assms by (auto simp: same_space_def user_view_def frame_at_def fun_eq_iff)

lemma not_resident:
  assumes "sep X m" "p \<notin> X" "the_mm m p = Some mm" "user_view m p (c_addr a) = None"
    and "pg_getpage m p (int_of_u64 (a div 256)) = Some (r, fpn, m1)"
  shows "r \<noteq> 0"
proof
  let ?pg = "u64_of_int (int_of_u64 (a div 256))"
  assume "r = 0"
  then have "frame_at mm ?pg \<noteq> None" using getpage_shape [OF assms(1,2,5)] assms(3) by auto
  then have pr: "PAGING_PAGE_PRESENT (ucast (pte_at mm ?pg))" by (simp add: frame_at_def split: if_splits)
  then have "?pg < PAGING_MAX_PGN" by (auto simp: pte_at_def present_bit split: if_splits option.splits)
  then have "resident m mm (c_addr a)" using pr by (intro present_resident [OF assms(1-3)]) (simp add: c_addr_in)
  then show False using view_resident(1) [OF assms(1-3)] assms(4) by simp
qed

text \<open>The two accesses implement load and store of the array.\<close>

lemma setval_array:
  assumes s: "sep X m" "p \<notin> X" and reg: "registered m p" and mm: "the_mm m p = Some mm" and w: "pg_setval m p a b = Some (r, m')"
  shows "(r, user_view m' p) = array_store (user_view m p) a b \<and> (r = 0 \<longrightarrow> same_space m m' p)"
proof (cases "user_view m p (c_addr a) = None")
  case True
  obtain r1 fpn m1 where g: "pg_getpage m p (int_of_u64 (a div 256)) = Some (r1, fpn, m1)"
    using w by (auto simp: pg_setval_def PAGING_PAGESZ_def Let_def bind_Some_iff)
  have "r = -1 \<and> m' = m1" using w g not_resident [OF s mm True g] by (simp add: pg_setval_def PAGING_PAGESZ_def)
  moreover obtain mm1 where "m1 = set_mm m p (Some mm1)" "like mm mm1" using getpage_shape [OF s g] mm by auto
  ultimately show ?thesis using True mm by (simp add: array_store_def user_view_def fun_eq_iff like_frames)
next
  case False
  have ok: "pt_ok mm" "wf_dev (k_mram m)" using s mm by (auto simp: sep_def' ram_ok_def space_ok_def)
  have res: "resident m mm (c_addr a)" using view_resident(1) [OF s mm] False by simp
  obtain m2 where m2: "pg_setval m p (c_addr a) b = Some (0, m2)" "load_byte (k_mram m2) = (load_byte (k_mram m))(phys mm (c_addr a) \<mapsto> b)"
      "same_space m m2 p" "maxsz (k_mram m2) = maxsz (k_mram m)"
    using pg_setval_present [OF mm ok(1) res reg ok(2)] by metis
  then have m': "r = 0" "m' = m2" using w by (simp_all add: access_c_addr)
  have "user_view m2 p x = ((user_view m p)(c_addr a \<mapsto> b)) x" for x
  proof (cases "resident m mm x")
    case True
    have t: "user_view m2 p x = load_byte (k_mram m2) (phys mm x)"
      using m2(3) mm True by (auto simp: same_space_def user_view_def frame_at_def phys_def frame_of_def resident_def)
    show ?thesis
    proof (cases "x = c_addr a")
      case False
      then have "phys mm x \<noteq> phys mm (c_addr a)" using phys_inj [OF s mm True res] by blast
      then show ?thesis using t m2(2) view_resident(2) [OF s mm True] False by simp
    qed (use t m2(2) in simp)
  next
    case False
    then have "\<not> PAGING_PAGE_PRESENT (ucast (pte_at mm (x div 256)))" using present_resident [OF s mm] by blast
    then have "user_view m2 p x = None" using m2(3) mm by (auto simp: same_space_def user_view_def frame_at_def)
    then show ?thesis using False res view_resident(1) [OF s mm, of x] by auto
  qed
  then show ?thesis using m' False m2(3) by (simp add: array_store_def fun_eq_iff)
qed

lemma getval_array:
  assumes s: "sep X m" "p \<notin> X" and reg: "registered m p" and mm: "the_mm m p = Some mm" and w: "pg_getval m p a = Some (r, b, m')"
  shows "(r, b) = array_load (user_view m p) a"
proof (cases "user_view m p (c_addr a) = None")
  case True
  obtain r1 fpn m1 where g: "pg_getpage m p (int_of_u64 (a div 256)) = Some (r1, fpn, m1)"
    using w by (auto simp: pg_getval_def PAGING_PAGESZ_def Let_def bind_Some_iff)
  then show ?thesis using w not_resident [OF s mm True g] True by (simp add: pg_getval_def PAGING_PAGESZ_def array_load_def)
next
  case False
  have ok: "pt_ok mm" "wf_dev (k_mram m)" using s mm by (auto simp: sep_def' ram_ok_def space_ok_def)
  have res: "resident m mm (c_addr a)" using view_resident(1) [OF s mm] False by simp
  obtain b2 m2 where "pg_getval m p (c_addr a) = Some (0, b2, m2)" "load_byte (k_mram m) (phys mm (c_addr a)) = Some b2"
    using pg_getval_present [OF mm ok(1) res reg ok(2)] by metis
  then show ?thesis using w view_resident(2) [OF s mm res] by (simp add: access_c_addr array_load_def)
qed

section \<open>What leaves the array alone, and what extends it\<close>

definition quiet :: "pref set \<Rightarrow> pref \<Rightarrow> machine \<Rightarrow> machine \<Rightarrow> bool" where
  "quiet X p m m' \<longleftrightarrow> (sep X m \<and> p \<notin> X \<longrightarrow> sep X m' \<and> user_view m' p = user_view m p)"

definition grows :: "pref set \<Rightarrow> pref \<Rightarrow> machine \<Rightarrow> machine \<Rightarrow> bool" where
  "grows X p m m' \<longleftrightarrow> (sep X m \<and> p \<notin> X \<longrightarrow> sep X m' \<and> user_view m p \<subseteq>\<^sub>m user_view m' p)"

lemma quiet_grows: "quiet X p m m' \<Longrightarrow> grows X p m m'"
  by (simp add: quiet_def grows_def)

lemma isolated_sep: "isolated X p m m' \<Longrightarrow> sep X m \<Longrightarrow> p \<notin> X \<Longrightarrow> sep X m'"
  by (simp add: isolated_def kept_def)

lemma quiet_set_mm:
  assumes "the_mm m p = Some mm" "pt_ok mm \<Longrightarrow> like mm mm'"
  shows "quiet X p m (set_mm m p (Some mm'))"
  unfolding quiet_def
proof (intro impI conjI)
  assume s: "sep X m \<and> p \<notin> X"
  show "sep X (set_mm m p (Some mm'))" using isolated_sep [OF isolated_set_mm [OF assms]] s by blast
  have "like mm mm'" using s assms by (auto simp: sep_def' space_ok_def)
  then show "user_view (set_mm m p (Some mm')) p = user_view m p"
    using assms(1) by (simp add: user_view_def fun_eq_iff like_frames)
qed

lemma set_mswp_view: "user_view (set_mswp m d) = user_view m"
proof
  fix q
  have "space_of (set_mswp m d) q = space_of m q" by (simp only: sep_fields)
  then show "user_view (set_mswp m d) q = user_view m q" by (simp only: space_of_eq)
qed

text \<open>The memory call, for whomever it is made, but for marking pages and for the raw write.\<close>

lemma memmap_own_view:
  assumes s: "sep X m" "p \<notin> X" and c: "sys_memmap m n scr = Some (r, m', scr')" and op: "int_of_u64 (a1 scr) \<notin> {1, 5}"
  shows "user_view m p \<subseteq>\<^sub>m user_view m' p" "int_of_u64 (a1 scr) \<noteq> 2 \<Longrightarrow> user_view m' p = user_view m p"
proof -
  have wf: "wf_dev (k_mram m)" and ram: "ram_ok (k_mram m)" using s(1) by (simp_all add: sep_def' ram_ok_def)
  have "user_view m p \<subseteq>\<^sub>m user_view m' p \<and> (int_of_u64 (a1 scr) \<noteq> 2 \<longrightarrow> user_view m' p = user_view m p)"
    using c wf
  proof (cases rule: sys_memmap_cases)
    case (growing q mmp r1 mmp1 ram1)
    show ?thesis
    proof (cases mmp)
      case None
      then have "mmp1 = None" "ram1 = k_mram m" using growing(4) by (simp_all add: inc_vma_limit_def)
      then show ?thesis using growing(3,5) None set_mm_null [of m q] by simp
    next
      case (Some mm)
      have q: "q \<notin> X" using growing(1) s(1) by (auto simp: sep_def')
      have t: "the_mm m q = Some mm" using growing(3) Some by (simp add: the_mm_Some)
      have sp: "space_ok mm" using s(1) q t by (simp add: sep_def')
      obtain mm' where k: "mmp1 = Some mm'" "may_become mm (k_mram m) mm' ram1"
        using inc_remap [OF sp ram] growing(4) Some by blast
      note b = k(2) [unfolded may_become_def]
      have lb: "load_byte ram1 = load_byte (k_mram m)" using b remapD(2) by blast
      show ?thesis
      proof (cases "q = p")
        case True
        then have t': "the_mm m' p = Some mm'" using growing(5) k(1) t by simp
        have "k_mram m' = ram1" using growing(5) by simp
        moreover have "frame_at mm \<subseteq>\<^sub>m frame_at mm'" using b by blast
        ultimately show ?thesis using t t' lb True growing(2)
          by (auto simp: map_le_def user_view_def dom_def bind_Some_iff)
      next
        case False
        then show ?thesis
          using sep_set_mm(2) [OF s(1) t q, of mm' ram1 p] b growing(5) k(1) by (simp add: space_of_eq)
      qed
    qed
  next
    case (device q ram1 m1)
    have "user_view m1 = user_view m" unfolding device(5) by (simp add: user_view_def fun_eq_iff device(4))
    then have "user_view m' = user_view m" using device(6) set_mswp_view by auto
    then show ?thesis by simp
  qed (use op in simp_all)
  then show "user_view m p \<subseteq>\<^sub>m user_view m' p" "int_of_u64 (a1 scr) \<noteq> 2 \<Longrightarrow> user_view m' p = user_view m p" by simp_all
qed

lemma quiet_getval:
  assumes g: "pg_getval m p a = Some (r, b, m')"
  shows "quiet X p m m'"
  unfolding quiet_def
proof (intro impI conjI)
  assume "sep X m \<and> p \<notin> X"
  then have s: "sep X m" "p \<notin> X" by simp_all
  show "sep X m'" using isolated_sep [OF isolated_getval [OF g]] s by blast
  obtain r1 fpn m1 where gp: "pg_getpage m p (int_of_u64 (a div 256)) = Some (r1, fpn, m1)"
    using g by (auto simp: pg_getval_def PAGING_PAGESZ_def Let_def bind_Some_iff)
  obtain mm mm1 where mm: "the_mm m p = Some mm" "m1 = set_mm m p (Some mm1)" "like mm mm1"
    using getpage_shape [OF s gp] by blast
  then have q: "sep X m1" "user_view m1 p = user_view m p" using quiet_set_mm s by (auto simp: quiet_def)
  have "m' = m1 \<or> (\<exists>n scr r2 scr2. sys_memmap m1 n scr = Some (r2, m', scr2) \<and> int_of_u64 (a1 scr) = 4)"
    using g gp by (fastforce simp: pg_getval_def PAGING_PAGESZ_def SYSMEM_IO_READ_def u64_of_int_def int_of_u64_def
        Let_def bind_Some_iff syscall_17 split: if_splits)
  then show "user_view m' p = user_view m p" using q memmap_own_view(2) [OF q(1) s(2)] by force
qed

interpretation still: quiet_relation "quiet X p" p for X p
proof unfold_locales
  show "the_mm m p = Some mm \<Longrightarrow> (pt_ok mm \<Longrightarrow> like mm mm') \<Longrightarrow> quiet X p m (set_mm m p (Some mm'))" for m mm mm'
    by (rule quiet_set_mm)
  show "pg_getval m p a = Some (r, byt, m') \<Longrightarrow> quiet X p m m'" for m a r byt m' by (rule quiet_getval)
qed (simp_all add: quiet_def user_view_def fun_eq_iff)

interpretation wider: growing_relation "grows X p" p for X p
proof unfold_locales
  show "grows X p m m1 \<Longrightarrow> grows X p m1 m2 \<Longrightarrow> grows X p m m2" for m m1 m2
    using map_le_trans by (auto simp: grows_def)
  show "the_mm m p = Some mm \<Longrightarrow> (pt_ok mm \<Longrightarrow> like mm mm') \<Longrightarrow> grows X p m (set_mm m p (Some mm'))" for m mm mm'
    by (rule quiet_grows, rule still.R_mm)
  show "pg_getval m p a = Some (r, byt, m') \<Longrightarrow> grows X p m m'" for m a r byt m' by (rule quiet_grows, rule still.R_getval)
  show "grows X p m m'" if "procs m p = Some c"
    "syscall m (pid c) 17 \<lparr>a1 = u64_of_int SYSMEM_INC_OP, a2 = x2, a3 = x3\<rparr> = Some (r, m', scr)" for m c x2 x3 r m' scr
    using that iso.R_grow [OF that] memmap_own_view(1) [of X m p "pid c"]
    by (auto simp: grows_def isolated_def kept_def syscall_17 SYSMEM_INC_OP_def u64_of_int_def int_of_u64_def)
qed (rule quiet_grows, simp_all add: still.R_storage still.R_brk still.R_pools)+

text \<open>The registers are not the business of the library.\<close>

interpretation desc: library_relation mm_only p for p
  by unfold_locales (auto intro: mm_only_trans elim: pg_getval_mm pg_setval_mm syscall_mm)

lemma mm_only_regs: "mm_only m m' \<Longrightarrow> map_option regs (procs m' q) = map_option regs (procs m q)"
  by (rule pcb_mm_field) (simp_all add: mm_only_def)

section \<open>Instructions\<close>

lemma still_view: "outcome x (\<lambda>(r, m'). quiet X p m m') \<Longrightarrow> x = Some (r, m') \<Longrightarrow> sep X m \<Longrightarrow> p \<notin> X \<Longrightarrow> user_view m' p = user_view m p"
  by (fastforce dest: outcomeD simp: quiet_def)

lemma dump_quiet:
  assumes "dump_pgtbl m p = Some m'" "sep X m" "p \<notin> X"
  shows "user_view m' p = user_view m p"
  using still.dump_chain [OF assms(1) still.R_refl, of X] assms(2,3) by (simp add: quiet_def)

text \<open>A write that succeeds also keeps regions and page table.\<close>

lemma libwrite_space:
  assumes s: "sep X m" "p \<notin> X" and reg: "registered m p" and mm: "the_mm m p = Some mm" and w: "libwrite m p b rg off = Some (0, m')"
  shows "same_space m m' p"
proof -
  obtain a m1 where m1: "pg_setval m p a b = Some (0, m1)" "dump_pgtbl m1 p = Some m'"
    using w mm by (auto simp: libwrite_def mm_write_def the_mm_Some bind_Some_iff split: if_splits option.splits)
  have k: "same_space m m1 p" using setval_array [OF s reg mm m1(1)] by simp
  then obtain mm1 where "the_mm m1 p = Some mm1" "pt_ok mm1" using same_space_mm mm by blast
  then have "same_space m1 m' p" using dump_pgtbl_same m1(2) by (metis option.inject)
  then show ?thesis using k same_space_trans by blast
qed

lemma libwrite_array:
  assumes s: "sep X m" "p \<notin> X" and reg: "registered m p" and mm: "the_mm m p = Some mm" and w: "libwrite m p b rg off = Some (r, m')"
  shows "case resolve_rg_addr mm (int_of_u32 rg) off of None \<Rightarrow> r = -1 \<and> user_view m' p = user_view m p
    | Some a \<Rightarrow> (r, user_view m' p) = array_store (user_view m p) a b"
proof (cases "resolve_rg_addr mm (int_of_u32 rg) off")
  case None
  then show ?thesis using w mm by (auto simp: libwrite_def mm_write_def the_mm_Some split: if_splits)
next
  case (Some a)
  then obtain m1 where m1: "pg_setval m p a b = Some (r, m1)" "m' = m1 \<or> dump_pgtbl m1 p = Some m'"
    using w mm by (auto simp: libwrite_def mm_write_def the_mm_Some bind_Some_iff split: if_splits)
  have "sep X m1" using isolated_sep [OF isolated_setval [OF m1(1)]] s by blast
  then have "user_view m' p = user_view m1 p" using m1(2) dump_quiet s(2) by blast
  then show ?thesis using Some setval_array [OF s reg mm m1(1)] by simp
qed

lemma libread_array:
  assumes s: "sep X m" "p \<notin> X" and reg: "registered m p" and mm: "the_mm m p = Some mm" and w: "libread m p rg off = Some (r, d, m')"
  shows "case resolve_rg_addr mm (int_of_u32 rg) off of None \<Rightarrow> r = -1
    | Some a \<Rightarrow> r = fst (array_load (user_view m p) a) \<and> (r = 0 \<longrightarrow> d = u32_of_byte (snd (array_load (user_view m p) a)))"
proof (cases "resolve_rg_addr mm (int_of_u32 rg) off")
  case None
  then show ?thesis using w mm by (auto simp: libread_def mm_read_def the_mm_Some split: if_splits)
next
  case (Some a)
  then obtain b m1 where m1: "pg_getval m p a = Some (r, b, m1)" "r = 0 \<longrightarrow> d = u32_of_byte b"
    using w mm by (auto simp: libread_def mm_read_def the_mm_Some bind_Some_iff split: if_splits)
  moreover have "array_load (user_view m p) a = (r, b)" using getval_array [OF s reg mm m1(1)] by simp
  ultimately show ?thesis using Some by simp
qed

lemma to_user_array:
  "sep X m \<Longrightarrow> p \<notin> X \<Longrightarrow> registered m p \<Longrightarrow> the_mm m p \<noteq> None \<Longrightarrow> to_user_loop n src d m p = Some (r, m') \<Longrightarrow>
   (r, user_view m' p) = array_fill (kmem_read_byte m) n src d (user_view m p)"
proof (induction n arbitrary: src d m)
  case (Suc n)
  obtain mm where mm: "the_mm m p = Some mm" using Suc.prems(4) by blast
  obtain k b where k: "kmem_read_byte m src = (k, b)" by (metis prod.exhaust)
  show ?case
  proof (cases "k = 0")
    case False then show ?thesis using Suc.prems(5) k by simp
  next
    case True
    then obtain w m1 where w: "pg_setval m p d b = Some (w, m1)" "if w \<noteq> 0 then r = -1 \<and> m' = m1 else to_user_loop n (src + 1) (d + 1) m1 p = Some (r, m')"
      using Suc.prems(5) k by (auto simp: bind_Some_iff split: if_splits)
    note st = setval_array [OF Suc.prems(1-3) mm w(1)]
    then have e: "array_store (user_view m p) d b = (w, user_view m1 p)" by simp
    show ?thesis
    proof (cases "w = 0")
      case False
      then show ?thesis using k True w(2) e by simp
    next
      case z: True
      have "sep X m1" using isolated_sep [OF isolated_setval [OF w(1)]] Suc.prems(1,2) by blast
      moreover have "registered m1 p" using steps_ok_registered [OF frame.R_setval [OF w(1)]] Suc.prems(3) by simp
      moreover have "kmem_read_byte m1 = kmem_read_byte m" "the_mm m1 p \<noteq> None"
        using st z by (auto simp: same_space_def kmem_read_byte_def fun_eq_iff)
      ultimately have "(r, user_view m' p) = array_fill (kmem_read_byte m) n (src + 1) (d + 1) (user_view m1 p)"
        using Suc.IH [of m1] Suc.prems(2) w(2) z by simp
      then show ?thesis using k True e z by simp
    qed
  qed
qed simp

lemma libsyscall_array:
  assumes s: "sep X m" "p \<notin> X" and l: "libsyscall m p nr x1 x2 x3 = Some (r, m')" and ok: "nr \<noteq> 17 \<or> int_of_u64 x1 \<notin> {1, 5}"
  shows "if nr = 17 \<and> int_of_u64 x1 = SYSMEM_INC_OP then user_view m p \<subseteq>\<^sub>m user_view m' p else user_view m' p = user_view m p"
proof -
  obtain c scr where "procs m p = Some c" "syscall m (pid c) nr \<lparr>a1 = x1, a2 = x2, a3 = x3\<rparr> = Some (r, m', scr)"
    using l by (auto simp: libsyscall_def bind_Some_iff)
  then show ?thesis
    using memmap_own_view [OF s, of "pid c" "\<lparr>a1 = x1, a2 = x2, a3 = x3\<rparr>" r m' scr] ok
    by (auto simp: syscall_cases SYSMEM_INC_OP_def split: if_splits)
qed

lemma execute_regs:
  assumes "execute m p ins = Some (r, m')" "opcode ins \<noteq> READ"
  shows "map_option regs (procs m' p) = map_option regs (procs m p)"
proof -
  have "mm_only m m'"
  proof (cases "opcode ins")
    case CALC then show ?thesis using assms by (simp add: execute_def)
  next
    case SYSCALL
    then show ?thesis using assms outcomeD [OF libsyscall_outcome] by (fastforce simp: execute_def)
  qed (use assms desc.library_related [THEN outcomeD] in \<open>fastforce simp: execute_def\<close>)+
  then show ?thesis by (rule mm_only_regs)
qed

text \<open>
  Paging implements a private array. Let the frames be separate and let the kernel find process
  \<open>p\<close> by its PID. Executed on the paged memory, every instruction but the raw write
  has the effect of the abstract machine on the bytes \<open>p\<close> sees and on its registers: a READ
  puts the byte of the array into the register, a WRITE changes that byte of the array and no other,
  both with result -1 and without effect outside a user region and where no page is mapped; a copy
  to the user stores the bytes of the kernel pool one by one; an allocation adds addresses, and
  changes no byte; marking pages removes their addresses; the rest changes nothing.
\<close>

lemma map_call_array:
  assumes s: "sep X m" "p \<notin> X" and reg: "registered m p" and mm: "the_mm m p = Some mm"
    and l: "libsyscall m p 17 x1 x2 x3 = Some (r, m')" and op: "int_of_u64 x1 = 1"
  shows "array_unmap x2 (int_of_u64 x3) (user_view m p) r (user_view m' p)"
proof -
  have sp: "space_ok mm" and ram: "ram_ok (k_mram m)" using s mm by (auto simp: sep_def')
  then have ok: "pt_ok mm" by (simp add: space_ok_def)
  obtain c scr where c: "procs m p = Some c" "syscall m (pid c) 17 \<lparr>a1 = x1, a2 = x2, a3 = x3\<rparr> = Some (r, m', scr)"
    using l by (auto simp: libsyscall_def bind_Some_iff)
  obtain r1 mm' where v: "vmap_pgd_memset mm x2 (int_of_u64 x3) = (r1, mm')" by (metis prod.exhaust)
  have m': "r1 = r" "m' = set_mm m p (Some mm')"
    using c v mm registered_find [OF reg c(1)] op by (auto simp: syscall_17 sys_memmap_def SYSMEM_MAP_OP_def memset_caller_def the_mm_Some)
  note w = vmap_pgd_memset_marks [OF ok v]
  have u: "ucast (ucast memset_pattern :: addr_t) = memset_pattern" by (rule bit_eqI) (simp add: bit_simps)
  have gone: "user_view m' p x = None" if "pte_at mm' (x div 256) = ucast memset_pattern" for x
    using that pattern_flags u mm m'(2) by (simp add: user_view_def frame_at_def)
  have "user_view m' p x = user_view m p x" if "pte_at mm' (x div 256) = pte_at mm (x div 256)" for x
    using that mm m'(2) by (simp add: user_view_def frame_at_def)
  then have "user_view m' p x = user_view m p x \<or> marked_page x2 (int_of_u64 x3) x \<and> user_view m' p x = None" for x
    using w gone unfolding marked_page_def by blast
  moreover have "user_view m' p x = None" if "r = 0" "marked_page x2 (int_of_u64 x3) x" for x
    using w gone that m'(1) unfolding marked_page_def by (metis leD not_less)
  ultimately show ?thesis unfolding array_unmap_def by blast
qed

lemma instruction_in_array:
  assumes "sep X m" "p \<notin> X" "registered m p" "the_mm m p = Some mm" "procs m p = Some c"
    and "execute m p ins = Some (r, m')" "procs m' p = Some c'" "\<not> raw_write ins"
  shows "array_step mm (kmem_read_byte m) ins (user_view m p, regs c) r (user_view m' p, regs c')"
proof -
  note s = assms(1,2) and e = assms(6)
  have g: "regs c' = regs c" if "opcode ins \<noteq> READ" using execute_regs [OF e that] assms(5,7) by simp
  show ?thesis
  proof (cases "opcode ins")
    case CALC then show ?thesis using e g by (simp add: array_step_def execute_def)
  next
    case ALLOC
    then have "liballoc m p (arg_0 ins) (ucast (arg_1 ins)) = Some (r, m')" using e by (simp add: execute_def)
    then have "grows X p m m'" using outcomeD [OF wider.liballoc_related] by fastforce
    then show ?thesis using ALLOC g s by (simp add: array_step_def grows_def)
  next
    case READ
    then obtain d m1 where l: "libread m p (ucast (arg_0 ins)) (arg_1 ins) = Some (r, d, m1)"
        "if r = 0 then set_reg m1 p (arg_2 ins) (ucast d) = Some m' else m' = m1"
      using e by (auto simp: execute_def bind_Some_iff split: if_splits)
    have "map_option regs (procs m1 p) = Some (regs c)"
      using outcomeD [OF desc.libread_related l(1)] mm_only_regs [of m m1 p] assms(5) by simp
    then have rg: "regs c' = (if r = 0 then (regs c)[unat (arg_2 ins) := ucast d] else regs c)"
      using l(2) assms(7) by (auto simp: set_reg_def bind_Some_iff split: if_splits)
    have "user_view m1 p = user_view m p" using outcomeD [OF still.libread_related l(1), of X] s by (simp add: quiet_def)
    then have "user_view m' p = user_view m p" using l(2) set_reg_keeps(2) [of m1 p _ _ m'] by (auto simp: space_of_def fun_eq_iff split: if_splits)
    then show ?thesis using libread_array [OF s assms(3,4) l(1)] rg READ
      by (auto simp: array_step_def split: option.splits prod.splits)
  next
    case WRITE
    then have "libwrite m p (byte_of_u64 (arg_0 ins)) (ucast (arg_1 ins)) (arg_2 ins) = Some (r, m')" using e by (simp add: execute_def)
    from libwrite_array [OF s assms(3,4) this] WRITE g show ?thesis by (auto simp: array_step_def split: option.splits)
  next
    case COPY_TO_USER
    then have "libkmem_copy_to_user m (Some p) (ucast (arg_0 ins)) (ucast (arg_1 ins)) (ucast (arg_2 ins)) (ucast (arg_3 ins)) = Some (r, m')"
      using e by (simp add: execute_def)
    then show ?thesis using COPY_TO_USER g assms(4) to_user_array [OF s assms(3)]
      by (auto simp: array_step_def libkmem_copy_to_user_def the_mm_Some split: option.splits if_splits)
  next
    case SYSCALL
    then have "libsyscall m p (ucast (arg_0 ins)) (arg_1 ins) (arg_2 ins) (arg_3 ins) = Some (r, m')" using e by (simp add: execute_def)
    then show ?thesis
      using libsyscall_array [OF s, of "ucast (arg_0 ins)"] map_call_array [OF s assms(3,4), of "arg_1 ins"] SYSCALL assms(8) g
      by (auto simp: array_step_def raw_write_def SYSMEM_INC_OP_def SYSMEM_MAP_OP_def split: if_splits)
  qed (use e g s still_view [OF still.libfree_related] still_view [OF still.libkmem_malloc_related]
      still_view [OF still.libkmem_cache_pool_create_related] still_view [OF still.libkmem_cache_alloc_related]
      still_view [OF still.libkmem_copy_from_user_related] in \<open>auto simp: array_step_def execute_def\<close>)
qed

lemma run_array:
  assumes "sep X m" "p \<notin> X" "registered m p" "the_mm m p = Some mm" "procs m p = Some c"
    and "next_inst m p = Some ins" "run m p = Some (r, m')" "\<not> raw_write ins" "procs m' p = Some c'"
  shows "array_step mm (kmem_read_byte m) ins (user_view m p, regs c) r (user_view m' p, regs c')"
proof -
  let ?c = "c\<lparr>pc := pc c + 1\<rparr>"
  let ?m = "m\<lparr>procs := (procs m)(p \<mapsto> ?c)\<rparr>"
  have ins: "pc c < seg_size (code c)" "ins = seg_text (code c) ! unat (pc c)"
    using assms(5,6) by (auto simp: next_inst_def split: if_splits)
  then have e: "execute ?m p ins = Some (r, m')" using assms(5,7) by (auto simp: run_def split: if_splits)
  have k: "sep X ?m = sep X m" "space_of ?m = space_of m" "registered ?m p = registered m p" by (rule sep_pcb [OF assms(5)]; simp)+
  then have "sep X ?m" "registered ?m p" "the_mm ?m p = Some mm" and v: "user_view ?m p = user_view m p"
    using assms(1,3,4) by (simp_all add: space_of_def fun_eq_iff)
  moreover have "kmem_read_byte ?m = kmem_read_byte m" by (simp add: kmem_read_byte_def fun_eq_iff)
  ultimately show ?thesis
    using instruction_in_array [of X ?m p mm ?c ins r m' c'] assms(2,8,9) e by simp
qed


section \<open>The simulator\<close>

text \<open>A step that does not execute an instruction of \<open>q\<close> leaves its registers alone.\<close>

lemma regs_local:
  assumes lp: "local_pc c" and ok: "cpu_ok c" and st: "cpu_local cfg don m c = Some (m1, c1)"
    and q: "procs m q = Some d" "procs m1 q = Some d1" "cpu_pc c \<noteq> CCheck \<or> cpu_proc c \<noteq> Some q"
  shows "regs d1 = regs d"
proof -
  have "map_option regs (procs m1 q) = map_option regs (procs m q)"
    using st lp ok
  proof (cases rule: cpu_local_cases)
    case (schedule sch) then show ?thesis by simp
  next
    case (release p k)
    then obtain m2 where m2: "mm_only m m2" "m1 = m2\<lparr>procs := (procs m2)(p := None)\<rparr>" using free_pcb_shape by blast
    then show ?thesis using q(2) mm_only_regs [OF m2(1), of q] by (auto split: if_splits)
  next
    case (put sch pcbs)
    then show ?thesis by (auto simp: put_proc_def put_mlq_proc_def Let_def bind_Some_iff split: if_splits option.splits)
  next
    case (execute p r)
    then have p: "p \<noteq> q" using q(3) by auto
    obtain e where e: "procs m p = Some e" using execute(3) by (auto simp: run_def bind_Some_iff)
    have "map_option (\<lambda>d. d\<lparr>pcb_mm := None\<rparr>) (procs m1 q) = map_option (\<lambda>d. d\<lparr>pcb_mm := None\<rparr>) (procs m q)"
      using outcomeD [OF run_outcome [OF e] execute(3)] p [symmetric] by (auto simp: steps_ok_def split: if_splits)
    then show ?thesis by (rule pcb_mm_field) simp
  qed
  then show ?thesis using q by simp
qed

lemma free_gone:
  "cpu_local cfg don m c = Some (m1, c1) \<Longrightarrow> cpu_pc c = CFree \<Longrightarrow> cpu_proc c = Some q \<Longrightarrow> procs m1 q = None"
  using free_pcb_effect by (auto simp: cpu_local_def bind_Some_iff)

lemma check_runs:
  "cpu_local cfg don m c = Some (m1, c1) \<Longrightarrow> cpu_pc c = CCheck \<Longrightarrow> cpu_proc c = Some q \<Longrightarrow>
   (\<exists>r. run m q = Some (r, m1)) \<and> cpu_pc c1 = CNext"
  by (auto simp: cpu_local_def cpu_check_def bind_Some_iff Let_def split: if_splits)

lemma regs_ld:
  assumes st: "ld_step files cfg j s = done_with s'" and fresh: "procs (mach s) (new_ref j) = None"
    and q: "procs (mach s) q = Some d" "procs (mach s') q = Some d'"
  shows "regs d' = regs d"
proof -
  have "map_option regs (procs (mach s') q) = map_option regs (procs (mach s) q)"
    using st
  proof (cases rule: ld_step_cases)
    case (load proc a)
    have "q \<noteq> new_ref j" using fresh q(1) by auto
    then show ?thesis using load(3) by simp
  next
    case (init r mm)
    then show ?thesis by (simp add: set_mm_procs option.map_comp comp_def)
  next
    case (add sch pcbs)
    then show ?thesis by (auto simp: add_proc_def add_mlq_proc_def Let_def bind_Some_iff split: if_splits option.splits)
  next
    case (move l') then show ?thesis by simp
  qed
  then show ?thesis using q by simp
qed

lemma ld_step_cpus:
  assumes "ld_step files cfg j s = done_with s'"
  shows "cpus s' = cpus s"
  using assms by (cases rule: ld_step_cases) auto

text \<open>The instruction of \<open>q\<close> that a CPU executes in the step from \<open>s\<close> to \<open>s'\<close>, if the step is one of a CPU that does.\<close>

definition executed :: "config \<Rightarrow> os_state \<Rightarrow> os_state \<Rightarrow> pref \<Rightarrow> inst_t option" where
  "executed cfg s s' q =
     (if \<exists>i < n_cpus cfg. cpus s' i \<noteq> cpus s i \<and> cpu_pc (cpus s i) = CCheck \<and> cpu_proc (cpus s i) = Some q
      then next_inst (mach s) q else None)"

lemma executed_None: "cpus s' = cpus s \<Longrightarrow> executed cfg s s' q = None"
  by (simp add: executed_def)

lemma executed_cpu:
  assumes "i < n_cpus cfg" "cpu_step cfg i s = Some s'"
  shows "executed cfg s s' q = (if cpu_pc (cpus s i) = CCheck \<and> cpu_proc (cpus s i) = Some q then next_inst (mach s) q else None)"
proof -
  have o: "cpus s' j = cpus s j" if "j \<noteq> i" for j
    using assms(2) that by (auto simp: cpu_step_def Let_def split: cpu_pc.splits)
  have "cpu_pc (cpus s' i) = CNext" if "cpu_pc (cpus s i) = CCheck" "cpu_proc (cpus s i) = Some q"
    using assms(2) that by (auto simp: cpu_step_def cpu_local_def cpu_check_def bind_Some_iff Let_def split: if_splits)
  then show ?thesis using o assms(1) unfolding executed_def by (metis cpu_pc.distinct)
qed

lemma own_instruction_array:
  assumes "sep X m" "q \<notin> X" "registered m q" "the_mm m q = Some mm" "procs m q = Some c" "run m q = Some (r, m1)"
    and "procs m1 q = Some c'" "\<And>ins. next_inst m q = Some ins \<Longrightarrow> \<not> raw_write ins"
  shows "case next_inst m q of None \<Rightarrow> (user_view m1 q, regs c') = (user_view m q, regs c)
    | Some ins \<Rightarrow> array_step mm (kmem_read_byte m) ins (user_view m q, regs c) r (user_view m1 q, regs c')"
proof (cases "next_inst m q")
  case None
  then have "m1 = m" using assms(5,6) by (auto simp: run_def next_inst_def not_less split: if_splits)
  then show ?thesis using assms(5,7) None by simp
next
  case (Some ins)
  then show ?thesis using run_array [OF assms(1-5) Some assms(6)] assms(7,8) by simp
qed

text \<open>
  Property C2: the simulator refines one private array and register file per process. Take any reachable
  state with at most 50 processes and between 256 bytes and 2 MB of RAM, any step of any thread, and a process
  \<open>q\<close> that is set up and survives the step. Let the step not execute a raw write by system call 17 (which can
  change any byte of RAM). If the step executes an instruction of \<open>q\<close>, then \<^verbatim>\<open>run\<close> has, with the result it
  returns, the effect of the abstract machine on the bytes \<open>q\<close> sees and on its registers. If not, neither
  changes: nothing the scheduler, the loader, the timer or the other processes do is seen.
\<close>

theorem simulator_refines_arrays:
  assumes "os_reach files cfg s" "num_processes cfg \<le> 50" "256 \<le> uint (memramsz cfg)" "uint (memramsz cfg) \<le> 2097152"
    and "os_step files cfg s s'" "procs (mach s) q = Some c" "procs (mach s') q = Some c'" "q \<notin> unready s" "the_mm (mach s) q = Some mm"
    and "\<forall>p ins. executed cfg s s' p \<noteq> Some ins \<or> \<not> raw_write ins"
  shows "case executed cfg s s' q of
      None \<Rightarrow> (user_view (mach s') q, regs c') = (user_view (mach s) q, regs c)
    | Some ins \<Rightarrow> \<exists>r. run (mach s) q = Some (r, mach s') \<and>
        array_step mm (kmem_read_byte (mach s)) ins (user_view (mach s) q, regs c) r (user_view (mach s') q, regs c')"
proof -
  note inv = os_reach_inv [OF assms(1)] os_reach_mem [OF assms(3,4,1)]
  from assms(5) show ?thesis
  proof (cases rule: os_step.cases)
    case (cpu i)
    note ex = executed_cpu [OF cpu(1,3)]
    show ?thesis
    proof (cases "local_pc (cpus s i)")
      case False
      then have "mach s' = mach s" "cpu_pc (cpus s i) \<noteq> CCheck"
        using cpu(3) by (cases "cpu_pc (cpus s i)"; auto simp: cpu_step_def)+
      then show ?thesis using assms(6,7) ex by simp
    next
      case True
      then obtain m1 c1 where m1: "cpu_local cfg (os_done s) (mach s) (cpus s i) = Some (m1, c1)" "mach s' = m1"
        using cpu(3) by (auto simp: cpu_step_def)
      have ok: "cpu_ok (cpus s i)" using inv(1) cpu(1) by (simp add: os_inv_def own_inv_def)
      have reg: "registered (mach s) p" if "cpu_pc (cpus s i) = CCheck" "cpu_proc (cpus s i) = Some p" for p
        using cpu_process_registered [OF assms(1,2) cpu(1)] that by (simp add: cpu_holds_def)
      have raw: "\<not> raw_write ins" if "cpu_pc (cpus s i) = CCheck" "cpu_proc (cpus s i) = Some p" "next_inst (mach s) p = Some ins" for p ins
        using assms(10) [rule_format, of p ins] ex [of p] that by simp
      show ?thesis
      proof (cases "cpu_pc (cpus s i) = CCheck \<and> cpu_proc (cpus s i) = Some q")
        case other: False
        have "cpu_pc (cpus s i) \<noteq> CFree \<or> cpu_proc (cpus s i) \<noteq> Some q"
          using free_gone [OF m1(1)] assms(7) m1(2) by auto
        then have "user_view m1 q = user_view (mach s) q"
          using cpu_local_view [OF inv cpu(1) True m1(1) assms(8)] other reg raw by blast
        then show ?thesis using regs_local [OF True ok m1(1) assms(6)] assms(7) m1(2) other ex by auto
      next
        case mine: True
        then obtain r where r: "run (mach s) q = Some (r, m1)" using check_runs [OF m1(1)] by blast
        have "procs m1 q = Some c'" using assms(7) m1(2) by simp
        note own_instruction_array [OF mem_inv_sep [OF inv] assms(8) reg assms(9,6) r this raw [of q]]
        then show ?thesis using ex [of q] mine r m1(2) by (simp split: option.splits)
      qed
    qed
  next
    case (ld j)
    have "user_view (mach s') q = user_view (mach s) q" using ld_step_view assms(6,8) ld by blast
    moreover have "regs c' = regs c" using regs_ld [OF _ _ assms(6,7)] ld by blast
    ultimately show ?thesis using executed_None [OF ld_step_cpus [OF ld(4)]] by simp
  next
    case (tick t) then show ?thesis using assms(6,7) executed_None [of s' s] by simp
  qed
qed

section \<open>Reading back\<close>

lemma steps_registered:
  "registered m p \<Longrightarrow> steps run_step m ps = Some m' \<Longrightarrow> registered m' p"
proof (induction ps arbitrary: m)
  case (Cons q ps)
  then obtain m1 where m: "run_step m q = Some m1" "steps run_step m1 ps = Some m'" by (auto simp: bind_Some_iff)
  then obtain r where r: "run m q = Some (r, m1)" by (auto simp: run_step_def)
  have "registered m1 p = registered m p" by (rule registered_cong) (use run_other_pcbs [OF r] in auto)
  then show ?case using Cons m(2) by blast
qed simp

text \<open>
  Property C20: a process reads back what it wrote, whatever runs in between. Let the frames be separate and a
  write of a byte to an offset of a region succeed. Then let other processes execute any instructions, in any
  order, each process known to the kernel and without a raw write in its program. If the first process then reads
  the same offset, it gets the byte it wrote (sign-extended, as \<^verbatim>\<open>BYTE\<close> is signed), with result 0.
\<close>

theorem read_returns_last_write:
  assumes "sep {} m" "registered m p" "the_mm m p = Some mm" "libwrite m p b rg off = Some (0, m1)"
    and "\<forall>q \<in> set ps. well_behaved m1 q" "p \<notin> set ps" "steps run_step m1 ps = Some m2" "libread m2 p rg off = Some (r, d, m3)"
  shows "r = 0 \<and> d = u32_of_byte b"
proof -
  have n: "p \<notin> {}" by simp
  note sp = libwrite_space [OF assms(1) n assms(2-4)]
  obtain mm1 where mm1: "the_mm m1 p = Some mm1" "symrgtbl mm1 = symrgtbl mm" using same_space_mm [OF sp assms(3)] by metis
  obtain a where a: "resolve_rg_addr mm (int_of_u32 rg) off = Some a" "(0, user_view m1 p) = array_store (user_view m p) a b"
    using libwrite_array [OF assms(1) n assms(2-4)] by (auto split: option.splits)
  have s1: "sep {} m1" using outcomeD [OF iso.libwrite_related assms(4), of "{}"] assms(1) isolated_sep by auto
  have k: "sep {} m2" "the_mm m2 p = Some mm1" "user_view m2 p = user_view m1 p"
    using cpu_sep.steps_view [OF s1 assms(5,7,6)] mm1(1) by (simp_all add: space_of_eq)
  have "registered m2 p" using steps_registered [OF same_space_registered [OF sp assms(2)] assms(7)] .
  from libread_array [OF k(1) n this k(2) assms(8)]
  have "r = fst (array_load (user_view m1 p) a)" "r = 0 \<longrightarrow> d = u32_of_byte (snd (array_load (user_view m1 p) a))"
    using a(1) resolve_cong [OF mm1(2)] k(3) by simp_all
  moreover have "user_view m1 p (c_addr a) = Some b" using a(2) by (simp add: array_store_def split: if_splits)
  ultimately show ?thesis by (simp add: array_load_def)
qed

section \<open>Sizes and addresses that wrap\<close>

definition far :: addr_t where
  "far = 2 ^ 40"

lemma page_wrap: "int_of_u64 ((x + far) div 256) = int_of_u64 (x div 256)" "(x + far) mod 256 = x mod 256" for x :: addr_t
  unfolding far_def
proof -
  let ?A = "uint x + 2 ^ 40"
  have u: "uint (x + 2 ^ 40) = ?A mod 2 ^ 64" by (simp add: uint_word_ariths mod_simps)
  have "?A mod (256 * 2 ^ 56) = 256 * (?A div 256 mod 2 ^ 56) + ?A mod 256" by (rule zmod_zmult2_eq) simp
  then have d: "uint ((x + 2 ^ 40) div 256) = ?A div 256 mod 2 ^ 56" using u by (simp add: uint_div)
  have "uint (ucast ((x + 2 ^ 40) div 256) :: u32) = uint (ucast (x div 256) :: u32)"
  proof -
    have "?A div 256 = uint x div 256 + 2 ^ 32" by simp
    then show ?thesis using d by (simp add: unsigned_ucast_eq take_bit_eq_mod mod_mod_cancel uint_div)
  qed
  then have "(ucast ((x + 2 ^ 40) div 256) :: u32) = ucast (x div 256)" by (simp only: word_uint_eq_iff)
  then show "int_of_u64 ((x + 2 ^ 40) div 256) = int_of_u64 (x div 256)" by (simp only: int_of_u64_def)
  have "uint ((x + 2 ^ 40) mod 256) = ?A mod 2 ^ 64 mod 256" by (simp only: uint_mod u) simp
  also have "\<dots> = (uint x + 256 * 2 ^ 32) mod 256" by (simp add: mod_mod_cancel)
  also have "\<dots> = uint (x mod 256)" by (simp only: mod_mult_self2 uint_mod) simp
  finally show "(x + 2 ^ 40) mod 256 = x mod 256" by (simp add: word_uint_eq_iff)
qed

lemma int_wrap: "int_of_u64 (x + far) = int_of_u64 x"
  unfolding far_def
proof -
  have "uint (ucast (x + 2 ^ 40) :: u32) = uint (ucast x :: u32)"
  proof -
    have "(uint x + 2 ^ 32 * 2 ^ 8) mod 2 ^ 32 = uint x mod 2 ^ 32" by (simp only: mod_mult_self2)
    then show ?thesis by (simp add: unsigned_ucast_eq take_bit_eq_mod mod_mod_cancel uint_word_ariths)
  qed
  then have "(ucast (x + 2 ^ 40) :: u32) = ucast x" by (simp only: word_uint_eq_iff)
  then show "int_of_u64 (x + 2 ^ 40) = int_of_u64 x" by (simp only: int_of_u64_def)
qed

lemma align_wrap: "PAGING_PAGE_ALIGNSZ (sz + far) = PAGING_PAGE_ALIGNSZ sz + far"
proof -
  have al: "PAGING_PAGE_ALIGNSZ x = (x + 255) - (x + 255) mod 256" for x
    using word_mod_div_equality [of "x + 255" 256]
    by (simp add: PAGING_PAGE_ALIGNSZ_def DIV_ROUND_UP_def PAGING_PAGESZ_def algebra_simps eq_diff_eq)
  have "(sz + far + 255) mod 256 = (sz + 255) mod 256" using page_wrap(2) [of "sz + 255"] by (simp add: algebra_simps)
  then show ?thesis unfolding al by simp
qed

lemma inc_wrap: "inc_vma_limit mmp ram v (sz + far) = inc_vma_limit mmp ram v sz"
proof -
  have "int_of_u64 ((sz + far + 256 - 1) div 256) = int_of_u64 ((sz + 256 - 1) div 256)"
    using page_wrap(1) [of "sz + 256 - 1"] by (simp add: algebra_simps)
  then show ?thesis by (simp only: inc_vma_limit_def PAGING_PAGESZ_def)
qed

lemma syscall_wrap:
  "map_option (\<lambda>(r, m', scr). (r, m')) (syscall m n 17 \<lparr>a1 = u64_of_int SYSMEM_INC_OP, a2 = v, a3 = sz + far\<rparr>) =
   map_option (\<lambda>(r, m', scr). (r, m')) (syscall m n 17 \<lparr>a1 = u64_of_int SYSMEM_INC_OP, a2 = v, a3 = sz\<rparr>)"
proof -
  have op: "int_of_u64 (u64_of_int SYSMEM_INC_OP) = 2" by (simp add: SYSMEM_INC_OP_def u64_of_int_def int_of_u64_def)
  show ?thesis
    unfolding syscall_17 sys_memmap_def Let_def sc_regs.select_convs op inc_wrap
    by (auto simp: SYSMEM_MAP_OP_def SYSMEM_INC_OP_def map_option_case split: option.split Option.bind_split)
qed

text \<open>What an allocation does to the memory: result, address, RAM and page table.\<close>

definition alloc_effect :: "pref \<Rightarrow> (int \<times> addr_t \<times> machine) option \<Rightarrow> (int \<times> addr_t \<times> memphy_struct \<times> (addr_t \<Rightarrow> addr_t) option) option" where
  "alloc_effect p x = map_option (\<lambda>(r, a, m'). (r, a, k_mram m', map_option pte_at (the_mm m' p))) x"

lemma symrg_pte: "pte_at (mm\<lparr>symrgtbl := t\<rparr>) = pte_at mm"
  by (rule pte_at_pgd) simp

lemma alloc_wrap: "alloc_effect p (mm_alloc m p v rgid (sz + far)) = alloc_effect p (mm_alloc m p v rgid sz)"
proof (cases "procs m p")
  case None then show ?thesis by (simp add: mm_alloc_def)
next
  case (Some c)
  show ?thesis
  proof (cases "get_vma_by_num (pcb_mm c) v")
    case None then show ?thesis using Some by (simp add: mm_alloc_def)
  next
    case k: (Some k)
    then obtain mm where mm: "pcb_mm c = Some mm" by (auto simp: get_vma_by_num_def split: option.splits)
    show ?thesis
    proof (cases "get_free_vmrg_area mm v (int_of_u64 sz)")
      case None then show ?thesis using Some k mm by (simp add: mm_alloc_def int_wrap)
    next
      case g: (Some x)
      obtain r rgn mm1 where x: "x = (r, rgn, mm1)" by (metis prod.exhaust)
      let ?sys = "\<lambda>z. syscall (set_mm m p (Some mm1)) (pid c) 17 \<lparr>a1 = u64_of_int SYSMEM_INC_OP, a2 = u64_of_int v, a3 = z\<rparr>"
      have w: "map_option (\<lambda>(r, m', scr). (r, m')) (?sys (PAGING_PAGE_ALIGNSZ sz + far)) =
          map_option (\<lambda>(r, m', scr). (r, m')) (?sys (PAGING_PAGE_ALIGNSZ sz))" by (rule syscall_wrap)
      show ?thesis
      proof (cases "?sys (PAGING_PAGE_ALIGNSZ sz)")
        case None
        then have "?sys (PAGING_PAGE_ALIGNSZ sz + far) = None" using w by simp
        then show ?thesis using Some k mm g x None by (simp add: mm_alloc_def int_wrap align_wrap Let_def)
      next
        case (Some y)
        obtain r2 m2 scr where y: "y = (r2, m2, scr)" by (metis prod.exhaust)
        then obtain scr2 where "?sys (PAGING_PAGE_ALIGNSZ sz + far) = Some (r2, m2, scr2)" using w Some by auto
        then show ?thesis using \<open>procs m p = Some c\<close> k mm g x Some y
          by (cases "the_mm m2 p") (auto simp: mm_alloc_def int_wrap align_wrap Let_def alloc_effect_def set_symrg_def symrg_pte split: option.split)
      qed
    qed
  qed
qed

text \<open>
  Property C37: sizes and addresses \<open>far\<close>, that is \<open>2 ^ 40\<close>, apart are the same. The number of pages of an allocation and the
  page number of an access pass through an \<^verbatim>\<open>int\<close>. So an allocation of \<open>sz + 2 ^ 40\<close> bytes has the result of one
  of \<open>sz\<close> bytes, takes the same frames and maps the same pages, although the region it enters may reach
  \<open>2 ^ 40\<close> bytes further; and a load or store at \<open>a + 2 ^ 40\<close> is one at \<open>a\<close>.
\<close>

theorem sizes_and_addresses_wrap:
  "alloc_effect p (mm_alloc m p v rgid (sz + far)) = alloc_effect p (mm_alloc m p v rgid sz) \<and>
   pg_getval m p (a + far) = pg_getval m p a \<and> pg_setval m p (a + far) b = pg_setval m p a b"
  by (simp only: alloc_wrap pg_getval_def pg_setval_def PAGING_PAGESZ_def Let_def page_wrap simp_thms)

text \<open>The second instruction of the program of \<open>Example\<close>, a WRITE, in a reachable state.\<close>

theorem simulator_refines_arrays_witness:
  "\<exists>s s' c c'. os_reach run_files demo_cfg s \<and> os_step run_files demo_cfg s s' \<and> procs (mach s) 7 = Some c \<and>
     procs (mach s') 7 = Some c' \<and> executed demo_cfg s s' 7 = Some (demo_program ! 1) \<and>
     user_view (mach s) 7 7 \<noteq> None \<and> user_view (mach s') 7 = (user_view (mach s) 7)(7 \<mapsto> 65) \<and> regs c' = regs c"
proof -
  obtain s c where s: "os_reach run_files demo_cfg s" "cpus s 0 = \<lparr>cpu_pc = CCheck, cpu_proc = Some 7, time_left = 1\<rparr>"
      "ld_pc (loader s) = LWait" and c: "procs (mach s) 7 = Some c" "seg_text (code c) = demo_program" "seg_size (code c) = 2" "pc c = 1"
      and w: "writable (mach s) 7" "registered (mach s) 7" "wf_dev (k_mram (mach s))"
    using run_reaches_write by blast
  obtain m2 c' where m2: "run (mach s) 7 = Some (0, m2)" "procs m2 7 = Some c'" using second_instruction [OF c w] by auto
  define s' where "s' = s\<lparr>mach := m2, cpus := (cpus s)(0 := \<lparr>cpu_pc = CNext, cpu_proc = Some 7, time_left = 0\<rparr>)\<rparr>"
  have i: "0 < n_cpus demo_cfg" by (simp add: n_cpus_def demo_cfg_def)
  have cs: "cpu_step demo_cfg 0 s = Some s'"
    using m2(1) by (simp add: cpu_step_def s(2) cpu_local_def cpu_check_def s'_def in_int_def)
  have st: "os_step run_files demo_cfg s s'" by (rule os_step.cpu [OF i _ cs]) (simp add: cpu_ready_def s(2))
  have nx: "next_inst (mach s) 7 = Some (demo_program ! 1)" using c by (simp add: next_inst_def word_less_def)
  note ex = executed_cpu [OF i cs]
  have raw: "\<forall>p ins. executed demo_cfg s s' p \<noteq> Some ins \<or> \<not> raw_write ins"
    using nx by (auto simp: ex s(2) demo_program_def raw_write_def)
  obtain mm where mm: "the_mm (mach s) 7 = Some mm" "resolve_rg_addr mm 0 7 = Some 7" "resident (mach s) mm 7"
    using w(1) by (auto simp: writable_def)
  have b: "num_processes demo_cfg \<le> 50" "256 \<le> uint (memramsz demo_cfg)" "uint (memramsz demo_cfg) \<le> 2097152" "7 \<notin> unready s"
    by (simp_all add: demo_cfg_def unready_def s(3))
  have p: "procs (mach s') 7 = Some c'" by (simp add: s'_def m2(2))
  have e: "executed demo_cfg s s' 7 = Some (demo_program ! 1)" by (simp add: ex s(2) nx)
  obtain r where "array_step mm (kmem_read_byte (mach s)) (demo_program ! 1) (user_view (mach s) 7, regs c) r (user_view (mach s') 7, regs c')"
    using simulator_refines_arrays [OF s(1) b(1-3) st c(1) p b(4) mm(1) raw] e by auto
  then have a: "(r, user_view (mach s') 7) = array_store (user_view (mach s) 7) 7 65" "regs c' = regs c"
    using mm(2) by (auto simp: array_step_def demo_program_def int_of_u32_def byte_of_u64_def)
  have v: "user_view (mach s) 7 7 \<noteq> None"
    using view_resident(1) [OF mem_inv_sep [OF os_reach_inv [OF s(1)] os_reach_mem [OF b(2,3) s(1)]] b(4) mm(1), of 7] mm(3) by simp
  have "c_addr 7 = 7" by (rule c_addr_small) simp
  then have "user_view (mach s') 7 = (user_view (mach s) 7)(7 \<mapsto> 65)" using a(1) v by (auto simp: array_store_def)
  then show ?thesis using s(1) st c(1) p e v a(2) by blast
qed

text \<open>Process 4 of \<open>demo_pair\<close> writes, process 5 writes to its own page, process 4 reads.\<close>

theorem read_returns_last_write_witness:
  "\<exists>m1 m2 m3. libwrite demo_pair 4 65 0 7 = Some (0, m1) \<and> steps run_step m1 [5] = Some m2 \<and> libread m2 4 0 7 = Some (0, 65, m3)"
proof -
  note ds = demo_space_ok [of 2, simplified]
  have mm: "the_mm demo_pair 4 = Some (demo_space 2)" and r4: "registered demo_pair 4" and nx: "4 \<notin> {}"
    by (simp_all add: demo_pair_simps demo_pair_registered)
  have rs: "resolve_rg_addr mm' (int_of_u32 0) 7 = Some 7" if "symrgtbl mm' = symrgtbl (demo_space 2)" for mm'
    using ds(5) that by (simp add: resolve_rg_addr_def get_symrg_byid_def PAGING_MAX_SYMTBL_SZ_def int_of_u32_def VMRG_USER_MODE_def)
  have "frame_at (demo_space 2) 0 = Some 2" using ds(4) by simp
  then have "PAGING_PAGE_PRESENT (ucast (pte_at (demo_space 2) (7 div 256)))" by (simp add: frame_at_def split: if_splits)
  then have res: "resident demo_pair (demo_space 2) 7" by (rule present_resident [OF demo_pair_sep nx mm])
  obtain m1 where w: "libwrite demo_pair 4 65 0 7 = Some (0, m1)" "same_space demo_pair m1 4" "wf_dev (k_mram m1)"
      "maxsz (k_mram m1) = maxsz (k_mram demo_pair)"
    using libwrite_present [OF mm ds(1) rs res r4 demo_pair_dev(1), OF refl, of 65] by metis
  obtain mm1 where mm1: "the_mm m1 4 = Some mm1" "symrgtbl mm1 = symrgtbl (demo_space 2)" using same_space_mm [OF w(2) mm] by metis
  have p5: "procs m1 5 = procs demo_pair 5" using w(2) by (simp add: same_space_def)
  have "steps_ok demo_pair 4 m1" using outcomeD [OF frame.libwrite_related w(1)] by simp
  then have r5: "registered m1 5" using steps_ok_registered demo_pair_registered(2) by blast
  have t5: "the_mm m1 5 = Some (demo_space 3)" using p5 demo_pair_simps(1) [of 5] by (simp add: the_mm_def caller_mm_def)
  have "num_frames (k_mram m1) = 4" using w(4) demo_pair_dev(2) by (simp add: num_frames_def)
  then obtain m2 where m2: "run m1 5 = Some (0, m2)"
    using demo_run [OF p5 [unfolded demo_pair_simps(3)] _ _ t5 _ w(3) _ r5] by (auto simp: demo_writer_def)
  then have st: "steps run_step m1 [5] = Some m2" by (simp add: run_step_def)
  have wb: "\<forall>q \<in> set [5]. well_behaved m1 q" using r5 p5 demo_writer_behaved by (simp add: well_behaved_def demo_pair_simps)
  have s1: "sep {} m1" using outcomeD [OF iso.libwrite_related w(1), of "{}"] demo_pair_sep isolated_sep by auto
  have k: "sep {} m2" "the_mm m2 4 = Some mm1" "user_view m2 4 = user_view m1 4"
    using cpu_sep.steps_view [OF s1 wb st, of 4] mm1(1) by (simp_all add: space_of_eq)
  have "user_view m1 4 7 \<noteq> None"
  proof -
    have "c_addr 7 = 7" by (rule c_addr_small) simp
    then show ?thesis using libwrite_array [OF demo_pair_sep nx r4 mm w(1)] rs [OF refl] by (simp add: array_store_def split: if_splits)
  qed
  then have "resident m2 mm1 7" using view_resident(1) [OF k(1) nx k(2)] k(3) by simp
  moreover have "pt_ok mm1" "wf_dev (k_mram m2)" using k(1,2) by (auto simp: sep_def' ram_ok_def space_ok_def)
  moreover have "registered m2 4" using steps_registered [OF same_space_registered [OF w(2) r4] st] .
  ultimately obtain m3 b where l: "libread m2 4 0 7 = Some (0, u32_of_byte b, m3)"
    using libread_present [OF k(2) _ rs [OF mm1(2)]] by metis
  have "u32_of_byte b = u32_of_byte 65" using read_returns_last_write [OF demo_pair_sep r4 mm w(1) wb _ st l] by simp
  then show ?thesis using w(1) st l by (auto simp: u32_of_byte_def)
qed

end
