(* ===== verification/AddrFields.thy ===== *)
theory AddrFields
  imports PageTable
begin

text \<open>
  The rest of the layout macros of include/mm.h and include/mm64.h: the fields of a 22-bit
  address, of a page table entry and of a 57-bit address. The program itself divides by the
  page size and shifts by hand; here the macros are shown to name the same fields, and the
  fields to partition the words they are cut from.
\<close>

section \<open>include/mm.h\<close>

definition PAGING_MEMRAMSZ :: u32 where
  "PAGING_MEMRAMSZ = BIT 21"

definition PAGING_MEMSWPSZ :: u32 where
  "PAGING_MEMSWPSZ = BIT 29"

definition PAGING_SWPFPN_OFFSET :: nat where
  "PAGING_SWPFPN_OFFSET = 5"

definition PAGING_SBRK_INIT_SZ :: addr_t where
  "PAGING_SBRK_INIT_SZ = PAGING_PAGESZ"

definition PAGING_PTE_EMPTY01_MASK :: u32 where
  "PAGING_PTE_EMPTY01_MASK = BIT 14"

definition PAGING_PTE_EMPTY02_MASK :: u32 where
  "PAGING_PTE_EMPTY02_MASK = BIT 13"

definition PAGING_PTE_SET_PRESENT :: "u32 \<Rightarrow> u32" where
  "PAGING_PTE_SET_PRESENT pte = pte OR PAGING_PTE_PRESENT_MASK"

definition PAGING_PTE_USRNUM_MASK :: u32 where
  "PAGING_PTE_USRNUM_MASK = GENMASK 27 15"

definition PAGING_ADDR_OFFST_HIBIT :: nat where
  "PAGING_ADDR_OFFST_HIBIT = NBITS (ucast PAGING_PAGESZ) - 1"

definition PAGING_ADDR_PGN_LOBIT :: nat where
  "PAGING_ADDR_PGN_LOBIT = NBITS (ucast PAGING_PAGESZ)"

definition PAGING_ADDR_PGN_HIBIT :: nat where
  "PAGING_ADDR_PGN_HIBIT = PAGING_CPU_BUS_WIDTH - 1"

definition PAGING_ADDR_FPN_LOBIT :: nat where
  "PAGING_ADDR_FPN_LOBIT = NBITS (ucast PAGING_PAGESZ)"

definition PAGING_ADDR_FPN_HIBIT :: nat where
  "PAGING_ADDR_FPN_HIBIT = NBITS PAGING_MEMRAMSZ - 1"

definition PAGING_SWP_LOBIT :: nat where
  "PAGING_SWP_LOBIT = NBITS (ucast PAGING_PAGESZ)"

definition PAGING_SWP_HIBIT :: nat where
  "PAGING_SWP_HIBIT = NBITS PAGING_MEMSWPSZ - 1"

definition PAGING_OFFST_MASK :: u32 where
  "PAGING_OFFST_MASK = GENMASK PAGING_ADDR_OFFST_HIBIT 0"

definition PAGING_PGN_MASK :: u32 where
  "PAGING_PGN_MASK = GENMASK PAGING_ADDR_PGN_HIBIT PAGING_ADDR_PGN_LOBIT"

definition PAGING_FPN_MASK :: u32 where
  "PAGING_FPN_MASK = GENMASK PAGING_ADDR_FPN_HIBIT PAGING_ADDR_FPN_LOBIT"

definition PAGING_SWP_MASK :: u32 where
  "PAGING_SWP_MASK = GENMASK PAGING_SWP_HIBIT PAGING_SWP_LOBIT"

definition PAGING_OFFST :: "u32 \<Rightarrow> u32" where
  "PAGING_OFFST x = GETVAL x PAGING_OFFST_MASK 0"

definition PAGING_PGN :: "u32 \<Rightarrow> u32" where
  "PAGING_PGN x = GETVAL x PAGING_PGN_MASK PAGING_ADDR_PGN_LOBIT"

definition PAGING_PTE_OFFST :: "u32 \<Rightarrow> u32" where
  "PAGING_PTE_OFFST pte = GETVAL pte PAGING_OFFST_MASK 0"

definition PAGING_PTE_PGN :: "u32 \<Rightarrow> u32" where
  "PAGING_PTE_PGN pte = GETVAL pte PAGING_PGN_MASK PAGING_ADDR_PGN_LOBIT"

definition PAGING_PTE_FPN :: "u32 \<Rightarrow> u32" where
  "PAGING_PTE_FPN pte = GETVAL pte PAGING_PTE_FPN_MASK 0"

definition PAGING_PTE_SWP :: "u32 \<Rightarrow> u32" where
  "PAGING_PTE_SWP pte = GETVAL pte PAGING_PTE_SWPOFF_MASK PAGING_SWPFPN_OFFSET"

section \<open>include/mm64.h\<close>

definition PAGING64_PAGESZ :: addr_t where
  "PAGING64_PAGESZ = 4096"

definition PAGING64_MAX_PGN :: addr_t where
  "PAGING64_MAX_PGN = DIV_ROUND_UP (BIT_ULL 21) PAGING64_PAGESZ"

definition PAGING64_PAGE_ALIGNSZ :: "addr_t \<Rightarrow> addr_t" where
  "PAGING64_PAGE_ALIGNSZ sz = DIV_ROUND_UP sz PAGING64_PAGESZ * PAGING64_PAGESZ"

definition PAGING64_ADDR_OFFST_MASK :: addr_t where
  "PAGING64_ADDR_OFFST_MASK = GENMASK64 PAGING_ADDR_OFFST_HIBIT 0"

definition PAGING64_ADDR_PT :: "addr_t \<Rightarrow> addr_t" where
  "PAGING64_ADDR_PT addr = drop_bit 12 (addr AND PAGING64_ADDR_PT_MASK)"

definition PAGING64_ADDR_PMD :: "addr_t \<Rightarrow> addr_t" where
  "PAGING64_ADDR_PMD addr = drop_bit 21 (addr AND PAGING64_ADDR_PMD_MASK)"

definition PAGING64_ADDR_PUD :: "addr_t \<Rightarrow> addr_t" where
  "PAGING64_ADDR_PUD addr = drop_bit 30 (addr AND PAGING64_ADDR_PUD_MASK)"

definition PAGING64_ADDR_P4D :: "addr_t \<Rightarrow> addr_t" where
  "PAGING64_ADDR_P4D addr = drop_bit 39 (addr AND PAGING64_ADDR_P4D_MASK)"

definition PAGING64_ADDR_PGD :: "addr_t \<Rightarrow> addr_t" where
  "PAGING64_ADDR_PGD addr = drop_bit 48 (addr AND PAGING64_ADDR_PGD_MASK)"

section \<open>The fields\<close>

lemma field_bits:
  "PAGING_ADDR_OFFST_HIBIT = 7" "PAGING_ADDR_PGN_LOBIT = 8" "PAGING_ADDR_PGN_HIBIT = 21"
  "PAGING_ADDR_FPN_LOBIT = 8" "PAGING_ADDR_FPN_HIBIT = 20" "PAGING_SWP_LOBIT = 8" "PAGING_SWP_HIBIT = 28"
  by code_simp+

text \<open>The offset and the page number of an address are what dividing by the page size gives.\<close>

lemma address_fields_22:
  "unat (PAGING_OFFST x) = unat x mod 256" "unat (PAGING_PGN x) = unat x div 256 mod 16384"
proof -
  have "PAGING_OFFST x = take_bit 8 x" "PAGING_PGN x = take_bit 14 (drop_bit 8 x)"
    by (rule bit_eqI; auto simp: PAGING_OFFST_def PAGING_PGN_def GETVAL_def PAGING_OFFST_MASK_def PAGING_PGN_MASK_def
        field_bits bit_GENMASK bit_simps)+
  then show "unat (PAGING_OFFST x) = unat x mod 256" "unat (PAGING_PGN x) = unat x div 256 mod 16384"
    by (simp_all only: unat_take_bit_mod unat_drop_bit_div) simp_all
qed

lemma address_22:
  assumes "unat x < 2 ^ PAGING_CPU_BUS_WIDTH"
  shows "unat (PAGING_PGN x) * 256 + unat (PAGING_OFFST x) = unat x" "unat (PAGING_PGN x) < unat PAGING_MAX_PGN"
  using assms by (simp_all add: address_fields_22 PAGING_CPU_BUS_WIDTH_def PAGING_MAX_PGN_eq)

text \<open>
  Both layouts of a page table entry are partitions: eight fields of a page in RAM, and the swap
  type and offset under the flag bits of a page in swap.
\<close>

definition pte_masks :: "u32 list" where
  "pte_masks = [PAGING_PTE_FPN_MASK, PAGING_PTE_EMPTY02_MASK, PAGING_PTE_EMPTY01_MASK, PAGING_PTE_USRNUM_MASK,
     PAGING_PTE_DIRTY_MASK, PAGING_PTE_RESERVE_MASK, PAGING_PTE_SWAPPED_MASK, PAGING_PTE_PRESENT_MASK]"

definition swap_masks :: "u32 list" where
  "swap_masks = [PAGING_PTE_SWPTYP_MASK, PAGING_PTE_SWPOFF_MASK, push_bit 26 3,
     PAGING_PTE_DIRTY_MASK, PAGING_PTE_RESERVE_MASK, PAGING_PTE_SWAPPED_MASK, PAGING_PTE_PRESENT_MASK]"

lemma pte_layouts:
  "sum_list (map uint pte_masks) = 2 ^ 32 - 1 \<and> foldr (OR) pte_masks 0 = NOT 0"
  "sum_list (map uint swap_masks) = 2 ^ 32 - 1 \<and> foldr (OR) swap_masks 0 = NOT 0"
  by code_simp+

lemma set_present: "PAGING_PAGE_PRESENT (PAGING_PTE_SET_PRESENT pte)" "PAGING_PTE_FPN (PAGING_PTE_SET_PRESENT pte) = PAGING_FPN pte"
proof -
  have b: "bit PAGING_PTE_PRESENT_MASK i \<longleftrightarrow> i = 31" for i
    unfolding PAGING_PTE_PRESENT_MASK_def BIT_def bit_push_bit_iff bit_1_iff by auto
  have "bit (PAGING_PTE_SET_PRESENT pte AND PAGING_PTE_PRESENT_MASK) 31" by (simp add: PAGING_PTE_SET_PRESENT_def b bit_simps)
  then show "PAGING_PAGE_PRESENT (PAGING_PTE_SET_PRESENT pte)" unfolding PAGING_PAGE_PRESENT_def by (metis bit_0_eq bot_apply bot_bool_def)
  show "PAGING_PTE_FPN (PAGING_PTE_SET_PRESENT pte) = PAGING_FPN pte"
    by (rule bit_eqI) (auto simp: PAGING_PTE_FPN_def PAGING_FPN_def GETVAL_def PAGING_PTE_SET_PRESENT_def b
        PAGING_PTE_FPN_MASK_def bit_GENMASK bit_simps)
qed

text \<open>The index macros of a 57-bit address are the indices \<^verbatim>\<open>get_pd_from_address\<close> computes.\<close>

lemma address_57:
  "get_pd_from_address a = (PAGING64_ADDR_PGD a, PAGING64_ADDR_P4D a, PAGING64_ADDR_PUD a, PAGING64_ADDR_PMD a, PAGING64_ADDR_PT a)"
  by (simp add: get_pd_from_address_def PAGING64_ADDR_PGD_def PAGING64_ADDR_P4D_def PAGING64_ADDR_PUD_def
      PAGING64_ADDR_PMD_def PAGING64_ADDR_PT_def)

end
