(* ===== verification/SchedSingle.thy ===== *)
theory SchedSingle
  imports Sched
begin

text \<open>
  The scheduler of src/sched.c in a build without \<^verbatim>\<open>MLQ_SCHED\<close>: one ready queue. The state is
  that of \<open>Sched\<close>, of which this build has only the three queues. A process that is put
  back goes to a queue nothing takes from.
\<close>

section \<open>Operations\<close>

definition single_queue_empty :: "sched_state \<Rightarrow> bool" where
  "single_queue_empty s \<longleftrightarrow> q_empty (Some (ready_queue s)) \<and> q_empty (Some (run_queue s))"

definition single_init_scheduler :: "sched_state \<Rightarrow> sched_state" where
  "single_init_scheduler s =
     s\<lparr>ready_queue := (ready_queue s)\<lparr>q_size := 0\<rparr>, run_queue := (run_queue s)\<lparr>q_size := 0\<rparr>,
       running_list := (running_list s)\<lparr>q_size := 0\<rparr>\<rparr>"

definition single_get_proc :: "sched_state \<Rightarrow> pref option \<times> sched_state" where
  "single_get_proc s =
     (if \<not> q_empty (Some (ready_queue s))
      then (case deq (ready_queue s) of (proc, q) \<Rightarrow> (proc, s\<lparr>ready_queue := q\<rparr>))
      else (None, s))"

text \<open>Both write through \<^verbatim>\<open>proc->krnl\<close>: undefined if the PCB is no longer live.\<close>

definition single_put_proc :: "pcb_store \<Rightarrow> sched_state \<Rightarrow> pref option \<Rightarrow> sched_state option" where
  "single_put_proc pcbs s proc =
     (case proc of None \<Rightarrow> Some s
      | Some r \<Rightarrow> do { _ \<leftarrow> pcbs r; Some (s\<lparr>krnl_linked := True, run_queue := enq r (run_queue s)\<rparr>) })"

definition single_add_proc :: "pcb_store \<Rightarrow> sched_state \<Rightarrow> pref option \<Rightarrow> sched_state option" where
  "single_add_proc pcbs s proc =
     (case proc of None \<Rightarrow> Some s
      | Some r \<Rightarrow> do {
          _ \<leftarrow> pcbs r;
          Some (s\<lparr>krnl_linked := True, ready_queue := enq r (ready_queue s), running_list := enq r (running_list s)\<rparr>)
        })"

text \<open>A sequence of calls, in the order the lock admits them, and the processes dispatched.\<close>

fun single_exec :: "sched_op list \<Rightarrow> pcb_store \<Rightarrow> sched_state \<Rightarrow> (pref list \<times> sched_state) option" where
  "single_exec [] pcbs s = Some ([], s)"
| "single_exec (OpGet # ops) pcbs s =
     do { (ds, s2) \<leftarrow> single_exec ops pcbs (snd (single_get_proc s));
          Some (case fst (single_get_proc s) of None \<Rightarrow> ds | Some x \<Rightarrow> x # ds, s2) }"
| "single_exec (OpPut r # ops) pcbs s = do { s1 \<leftarrow> single_put_proc pcbs s (Some r); single_exec ops pcbs s1 }"
| "single_exec (OpAdd r # ops) pcbs s = do { s1 \<leftarrow> single_add_proc pcbs s (Some r); single_exec ops pcbs s1 }"
| "single_exec (OpRemove r # ops) pcbs s = single_exec ops pcbs (remove_proc s (Some r))"

section \<open>Behaviour\<close>

definition single_wf :: "sched_state \<Rightarrow> bool" where
  "single_wf s \<longleftrightarrow> wf_queue (ready_queue s) \<and> wf_queue (run_queue s) \<and> wf_queue (running_list s)"

abbreviation single_ready :: "sched_state \<Rightarrow> pref list" where
  "single_ready s \<equiv> q_list (ready_queue s)"

abbreviation single_run :: "sched_state \<Rightarrow> pref list" where
  "single_run s \<equiv> q_list (run_queue s)"

lemma single_init_wf: "single_wf s \<Longrightarrow> single_wf (single_init_scheduler s) \<and> single_queue_empty (single_init_scheduler s)"
  by (auto simp: single_wf_def single_init_scheduler_def wf_queue_def single_queue_empty_def q_empty_def)

text \<open>\<^verbatim>\<open>get_proc\<close> is first in, first out on the ready queue, and touches nothing else.\<close>

lemma single_get_fifo:
  assumes "single_wf s"
  shows "single_ready s = [] \<Longrightarrow> single_get_proc s = (None, s)"
    and "single_ready s = x # xs \<Longrightarrow> fst (single_get_proc s) = Some x \<and> single_ready (snd (single_get_proc s)) = xs"
    and "run_queue (snd (single_get_proc s)) = run_queue s" "single_wf (snd (single_get_proc s))"
  using assms deq_nonempty [of "ready_queue s"] deq_wf [of "ready_queue s"]
  by (simp_all add: single_get_proc_def single_wf_def q_empty_iff case_prod_unfold)

lemma single_put:
  assumes "single_wf s" "single_put_proc pcbs s (Some r) = Some s1"
  shows "single_wf s1 \<and> single_ready s1 = single_ready s \<and>
    single_run s1 = (if length (single_run s) < MAX_QUEUE_SIZE then single_run s @ [r] else single_run s)"
  using assms by (auto simp: single_put_proc_def bind_Some_iff single_wf_def enq_wf enq_list)

lemma single_add:
  assumes "single_wf s" "single_add_proc pcbs s (Some r) = Some s1"
  shows "single_wf s1 \<and> set (single_ready s1) \<subseteq> insert r (set (single_ready s)) \<and> run_queue s1 = run_queue s"
  using assms by (auto simp: single_add_proc_def bind_Some_iff single_wf_def enq_wf enq_list split: if_splits)

lemma single_remove:
  "single_wf s \<Longrightarrow> single_wf (remove_proc s (Some r)) \<and> ready_queue (remove_proc s (Some r)) = ready_queue s \<and>
     run_queue (remove_proc s (Some r)) = run_queue s"
  by (simp add: remove_proc_def remove_from_running_list_def single_wf_def purge_wf)

lemma single_exec_stuck:
  assumes "single_wf s" "x \<notin> set (single_ready s)" "OpAdd x \<notin> set ops" "single_exec ops pcbs s = Some (ds, s')"
  shows "x \<notin> set ds \<and> (x \<in> set (single_run s) \<longrightarrow> x \<in> set (single_run s'))"
  using assms
proof (induction ops pcbs s arbitrary: ds rule: single_exec.induct)
  case (1 pcbs s) then show ?case by simp
next
  case (2 ops pcbs s)
  let ?s1 = "snd (single_get_proc s)"
  note g = single_get_fifo [OF 2(2)]
  obtain ds1 where ds: "single_exec ops pcbs ?s1 = Some (ds1, s')"
      "ds = (case fst (single_get_proc s) of None \<Rightarrow> ds1 | Some y \<Rightarrow> y # ds1)" using 2(5) by (auto simp: bind_Some_iff)
  have "x \<notin> set (single_ready ?s1) \<and> fst (single_get_proc s) \<noteq> Some x"
    using 2(3) g(1,2) by (cases "single_ready s") auto
  then show ?case using 2(1) [OF g(4) _ _ ds(1)] 2(4) g(3) ds(2) by (auto split: option.splits)
next
  case (3 r ops pcbs s)
  then obtain s1 where s1: "single_put_proc pcbs s (Some r) = Some s1" "single_exec ops pcbs s1 = Some (ds, s')"
    by (auto simp: bind_Some_iff)
  note p = single_put [OF 3(2) s1(1)]
  have "set (single_run s) \<subseteq> set (single_run s1)" using p by auto
  then show ?case using 3(1) [OF s1(1) _ _ _ s1(2)] p 3(3,4) by auto
next
  case (4 r ops pcbs s)
  then obtain s1 where s1: "single_add_proc pcbs s (Some r) = Some s1" "single_exec ops pcbs s1 = Some (ds, s')"
    by (auto simp: bind_Some_iff)
  note a = single_add [OF 4(2) s1(1)]
  then show ?case using 4(1) [OF s1(1) _ _ _ s1(2)] 4(3,4) by auto
next
  case (5 r ops pcbs s)
  then show ?case using single_remove [OF 5(2), of r] by simp
qed

text \<open>
  Property C15: without \<^verbatim>\<open>MLQ_SCHED\<close> a process runs for one time slice only. Once a CPU has put
  it back with \<^verbatim>\<open>put_proc\<close>, no call of \<^verbatim>\<open>get_proc\<close> dispatches it again, whatever
  operations follow, unless the loader adds it anew; it stays in \<^verbatim>\<open>run_queue\<close>, which is never
  empty again.
\<close>

theorem single_queue_loses_preempted:
  assumes "single_wf s" "x \<notin> set (single_ready s)" "length (single_run s) < MAX_QUEUE_SIZE"
    and "single_put_proc pcbs s (Some x) = Some s1"
    and "single_exec ops pcbs s1 = Some (ds, s2)" "OpAdd x \<notin> set ops"
  shows "x \<notin> set ds \<and> x \<in> set (single_run s2) \<and> \<not> single_queue_empty s2"
proof -
  note p = single_put [OF assms(1,4)]
  have "x \<notin> set ds \<and> x \<in> set (single_run s2)"
    using single_exec_stuck [OF _ _ assms(6,5)] p assms(2,3) by auto
  moreover have "q_size (run_queue s2) \<noteq> 0" if "x \<in> set (single_run s2)" using that by (metis q_list_def take_0 list.map(1) empty_iff list.set(1))
  ultimately show ?thesis by (simp add: single_queue_empty_def q_empty_def)
qed

text \<open>One process, dispatched, put back, and never dispatched again.\<close>

theorem single_queue_loses_preempted_witness:
  "\<exists>s1 s2. single_put_proc [4 \<mapsto> demo_pcb] static_sched (Some 4) = Some s1 \<and>
     single_exec [OpGet, OpGet, OpRemove 7, OpGet] [4 \<mapsto> demo_pcb] s1 = Some ([], s2) \<and> \<not> single_queue_empty s2"
proof -
  have w: "single_wf static_sched" "single_ready static_sched = []" "single_run static_sched = []"
    by (simp_all add: single_wf_def static_sched_def)
  obtain s1 where s1: "single_put_proc [4 \<mapsto> demo_pcb] static_sched (Some 4) = Some s1"
    by (simp add: single_put_proc_def)
  have p: "single_wf s1" "single_ready s1 = []" using single_put [OF w(1) s1] w by simp_all
  have g: "single_get_proc s = (None, s)" if "single_wf s" "single_ready s = []" for s
    using single_get_fifo(1) that by blast
  let ?s2 = "remove_proc s1 (Some 7)"
  have e: "single_exec [OpGet, OpGet, OpRemove 7, OpGet] [4 \<mapsto> demo_pcb] s1 = Some ([], ?s2)"
    using g [OF p] g [of ?s2] single_remove [OF p(1), of 7] p by simp
  show ?thesis using single_queue_loses_preempted [OF w(1) _ _ s1 e] w s1 e by (auto simp: MAX_QUEUE_SIZE_def)
qed

end
