(* ===== verification/Mm32.thy ===== *)
theory Mm32
  imports Mm64
begin

text \<open>
  The 32-bit page table of src/mm.c, the code for a build without \<^verbatim>\<open>MM64\<close>: a flat array of entries.
  Most functions of the file are stubs; the setters of entries are not, and the theorem says that the
  five-level table of the 64-bit build agrees with the flat one, but for the present bit of swapped
  pages.
\<close>

section \<open>Operations\<close>

text \<open>The macros of include/mm.h on a 32-bit entry.\<close>

definition SETBIT32 :: "u32 \<Rightarrow> u32 \<Rightarrow> u32" where
  "SETBIT32 v msk = v OR msk"

definition CLRBIT32 :: "u32 \<Rightarrow> u32 \<Rightarrow> u32" where
  "CLRBIT32 v msk = v AND NOT msk"

definition SETVAL32 :: "u32 \<Rightarrow> u32 \<Rightarrow> u32 \<Rightarrow> nat \<Rightarrow> u32" where
  "SETVAL32 v value msk offst = (v AND NOT msk) OR (push_bit offst value AND msk)"

definition init_pte :: "u32 \<Rightarrow> int \<Rightarrow> u32 \<Rightarrow> int \<Rightarrow> int \<Rightarrow> int \<Rightarrow> u32 \<Rightarrow> int \<times> u32" where
  "init_pte pte pre fpn drt swp swptyp swpoff =
     (if pre \<noteq> 0 then
        (if swp = 0 then
           (if fpn = 0 then (-1, pte)
            else (let p1 = SETBIT32 pte PAGING_PTE_PRESENT_MASK;
                      p2 = CLRBIT32 p1 PAGING_PTE_SWAPPED_MASK;
                      p3 = CLRBIT32 p2 PAGING_PTE_DIRTY_MASK
                  in (0, SETVAL32 p3 fpn PAGING_PTE_FPN_MASK 0)))
         else (let p1 = SETBIT32 pte PAGING_PTE_PRESENT_MASK;
                   p2 = SETBIT32 p1 PAGING_PTE_SWAPPED_MASK;
                   p3 = CLRBIT32 p2 PAGING_PTE_DIRTY_MASK;
                   p4 = SETVAL32 p3 (u32_of_int swptyp) PAGING_PTE_SWPTYP_MASK 0
               in (0, SETVAL32 p4 swpoff PAGING_PTE_SWPOFF_MASK 5)))
      else (0, pte))"

text \<open>An access to \<^verbatim>\<open>pgd[pgn]\<close> is undefined outside the array.\<close>

definition pgd_slot :: "u32 list \<Rightarrow> u32 \<Rightarrow> u32 option" where
  "pgd_slot tbl pgn = (if unat pgn < length tbl then Some (tbl ! unat pgn) else None)"

definition swap_pte32 :: "u32 \<Rightarrow> int \<Rightarrow> u32 \<Rightarrow> u32" where
  "swap_pte32 pte swptyp swpoff =
     (let p1 = SETBIT32 pte PAGING_PTE_PRESENT_MASK;
          p2 = SETBIT32 p1 PAGING_PTE_SWAPPED_MASK;
          p3 = SETVAL32 p2 (u32_of_int swptyp) PAGING_PTE_SWPTYP_MASK 0
      in SETVAL32 p3 swpoff PAGING_PTE_SWPOFF_MASK 5)"

definition pte_set_swap32 :: "u32 list \<Rightarrow> u32 \<Rightarrow> int \<Rightarrow> u32 \<Rightarrow> (int \<times> u32 list) option" where
  "pte_set_swap32 tbl pgn swptyp swpoff =
     do { pte \<leftarrow> pgd_slot tbl pgn; Some (0, tbl[unat pgn := swap_pte32 pte swptyp swpoff]) }"

definition fpn_pte32 :: "u32 \<Rightarrow> u32 \<Rightarrow> u32" where
  "fpn_pte32 pte fpn =
     (let p1 = SETBIT32 pte PAGING_PTE_PRESENT_MASK;
          p2 = CLRBIT32 p1 PAGING_PTE_SWAPPED_MASK
      in SETVAL32 p2 fpn PAGING_PTE_FPN_MASK 0)"

definition pte_set_fpn32 :: "u32 list \<Rightarrow> u32 \<Rightarrow> u32 \<Rightarrow> (int \<times> u32 list) option" where
  "pte_set_fpn32 tbl pgn fpn =
     do { pte \<leftarrow> pgd_slot tbl pgn; Some (0, tbl[unat pgn := fpn_pte32 pte fpn]) }"

definition pte_set_entry32 :: "u32 list \<Rightarrow> u32 \<Rightarrow> u32 \<Rightarrow> (int \<times> u32 list) option" where
  "pte_set_entry32 tbl pgn pte_val =
     do { _ \<leftarrow> pgd_slot tbl pgn; Some (0, tbl[unat pgn := pte_val]) }"

text \<open>The functions of src/mm.c that only print a message and return 0 or NULL.\<close>

definition deprecated32 :: "string list" where
  "deprecated32 = [''get_pd_from_address'', ''get_pd_from_pagenum'', ''pte_get_entry'', ''vmap_pgd_memset'',
     ''vmap_page_range'', ''alloc_pages_range'', ''vm_map_ram'', ''__swap_cp_page'', ''init_mm'', ''init_vm_rg'',
     ''enlist_vm_rg_node'', ''enlist_pgn_node'', ''print_list_fp'', ''print_list_rg'', ''print_list_vma'',
     ''print_list_pgn'', ''print_pgtbl'']"

definition pte_get_entry32 :: "addr_t \<Rightarrow> u32" where
  "pte_get_entry32 pgn = 0"

definition stub32 :: "string \<Rightarrow> (int \<times> string) option" where
  "stub32 func =
     (if func \<in> set deprecated32
      then Some (0, ''[ERROR] '' @ func @ '': This feature 32 bit mode is deprecated'') else None)"

section \<open>Entries, bit by bit\<close>

lemma bit_fpn_pte32:
  "bit (fpn_pte32 p f) i \<longleftrightarrow> i < 32 \<and> (i = 31 \<or> (if i \<le> 12 then bit f i else i \<noteq> 30 \<and> bit p i))"
  by (auto simp: fpn_pte32_def SETBIT32_def CLRBIT32_def SETVAL32_def pte_masks bit_or_iff bit_and_iff
      bit_not_mask bit_BIT bit_GENMASK dest: bit_imp_le_length)

lemma bit_swap_pte32:
  "bit (swap_pte32 p t off) i \<longleftrightarrow> i < 32 \<and>
     (i = 31 \<or> i = 30 \<or> (if i < 5 then bit (u32_of_int t) i
                else if i \<le> 25 then bit off (i - 5) else bit p i))"
  by (auto simp: swap_pte32_def SETBIT32_def CLRBIT32_def SETVAL32_def pte_masks bit_or_iff bit_and_iff
      bit_not_mask bit_BIT bit_GENMASK bit_push_bit_iff dest: bit_imp_le_length)

lemma bit_init_pte:
  "pre \<noteq> 0 \<Longrightarrow> swp = 0 \<Longrightarrow> fpn \<noteq> 0 \<Longrightarrow>
   bit (snd (init_pte pte pre fpn drt swp typ off)) i \<longleftrightarrow> i \<noteq> 28 \<and> bit (fpn_pte32 pte fpn) i"
  "pre \<noteq> 0 \<Longrightarrow> swp \<noteq> 0 \<Longrightarrow>
   bit (snd (init_pte pte pre fpn drt swp typ off)) i \<longleftrightarrow> i \<noteq> 28 \<and> bit (swap_pte32 pte typ off) i"
  unfolding bit_fpn_pte32 bit_swap_pte32
  by (auto simp: init_pte_def SETBIT32_def CLRBIT32_def SETVAL32_def pte_masks bit_or_iff bit_and_iff
      bit_not_mask bit_BIT bit_GENMASK bit_push_bit_iff dest: bit_imp_le_length)

section \<open>The flat table as reference\<close>

text \<open>
  The same sequence of operations on the flat table; addresses and frame numbers are reduced to 32
  bits, as an \<^verbatim>\<open>addr_t\<close> of that build has.
\<close>

fun flat_run :: "pt_op list \<Rightarrow> u32 list \<Rightarrow> u32 list option" where
  "flat_run [] tbl = Some tbl"
| "flat_run (SetFpn pgn fpn # ops) tbl = do { (_, d) \<leftarrow> pte_set_fpn32 tbl (ucast pgn) (ucast fpn); flat_run ops d }"
| "flat_run (SetSwap pgn t off # ops) tbl = do { (_, d) \<leftarrow> pte_set_swap32 tbl (ucast pgn) t (ucast off); flat_run ops d }"
| "flat_run (SetEntry pgn u # ops) tbl = do { (_, d) \<leftarrow> pte_set_entry32 tbl (ucast pgn) u; flat_run ops d }"
| "flat_run (GetEntry pgn # ops) tbl = flat_run ops tbl"

fun op_page :: "pt_op \<Rightarrow> addr_t" where
  "op_page (SetFpn pgn fpn) = pgn"
| "op_page (SetSwap pgn t off) = pgn"
| "op_page (SetEntry pgn u) = pgn"
| "op_page (GetEntry pgn) = pgn"

text \<open>An entry of the five-level table against one of the flat table.\<close>

definition same_entry :: "u32 \<Rightarrow> u32 \<Rightarrow> bool" where
  "same_entry e64 e32 \<longleftrightarrow> e64 = e32 \<or> (PAGING_PAGE_SWAPPED e32 \<and> e64 = CLRBIT32 e32 PAGING_PTE_PRESENT_MASK)"

definition same_tables :: "mm_struct \<Rightarrow> u32 list \<Rightarrow> bool" where
  "same_tables mm tbl \<longleftrightarrow> length tbl = 16384 \<and> (\<forall>p < PAGING_MAX_PGN. same_entry (ucast (pte_at mm p)) (tbl ! unat p))"

lemma bit_clr_present: "bit (CLRBIT32 e PAGING_PTE_PRESENT_MASK) i \<longleftrightarrow> i \<noteq> 31 \<and> bit e i"
  by (auto simp: CLRBIT32_def pte_masks bit_and_iff bit_not_mask bit_BIT dest: bit_imp_le_length)

lemma same_entry_bits: "same_entry a b \<Longrightarrow> i \<noteq> 31 \<Longrightarrow> bit a i \<longleftrightarrow> bit b i"
  by (auto simp: same_entry_def bit_clr_present)

lemma same_fpn: "same_entry (ucast p) e \<Longrightarrow> same_entry (ucast (fpn_pte p f)) (fpn_pte32 e (ucast f))"
proof -
  assume s: "same_entry (ucast p) e"
  have "ucast (fpn_pte p f) = fpn_pte32 e (ucast f)"
  proof (rule bit_eqI)
    fix i show "bit (ucast (fpn_pte p f) :: u32) i \<longleftrightarrow> bit (fpn_pte32 e (ucast f)) i"
      using same_entry_bits [OF s, of i] by (auto simp: bit_ucast_pte bit_fpn_pte bit_fpn_pte32)
  qed
  then show ?thesis by (simp add: same_entry_def)
qed

lemma bit_u64_u32: "i < 5 \<Longrightarrow> bit (u64_of_int t) i \<longleftrightarrow> bit (u32_of_int t) i"
  by (simp add: u64_of_int_def u32_of_int_def bit_word_of_int_iff)

lemma same_swap: "same_entry (ucast p) e \<Longrightarrow> same_entry (ucast (swap_pte p t off)) (swap_pte32 e t (ucast off))"
proof -
  assume s: "same_entry (ucast p) e"
  have "ucast (swap_pte p t off) = CLRBIT32 (swap_pte32 e t (ucast off)) PAGING_PTE_PRESENT_MASK"
  proof (rule bit_eqI)
    fix i show "bit (ucast (swap_pte p t off) :: u32) i \<longleftrightarrow> bit (CLRBIT32 (swap_pte32 e t (ucast off)) PAGING_PTE_PRESENT_MASK) i"
      using same_entry_bits [OF s, of i] by (auto simp: bit_ucast_pte bit_clr_present bit_swap_pte bit_swap_pte32 bit_u64_u32)
  qed
  then show ?thesis by (simp add: same_entry_def swapped_bit bit_swap_pte32)
qed

lemma same_set: "same_entry (ucast (ucast u :: addr_t)) u"
  by (simp add: same_entry_def bit_eq_iff bit_ucast_pte bit_ucast_mask)

lemma unat_page: "p < PAGING_MAX_PGN \<Longrightarrow> unat (ucast p :: u32) = unat p \<and> unat p < 16384"
proof -
  assume "p < PAGING_MAX_PGN"
  then have "unat p < 16384" by (simp add: PAGING_MAX_PGN_eq word_less_nat_alt)
  then show ?thesis by (simp add: unsigned_ucast_eq take_bit_nat_eq_self)
qed

lemma same_tables_update:
  assumes "same_tables mm tbl" "pgn < PAGING_MAX_PGN" "pte_at mm' = (pte_at mm)(pgn := v)" "same_entry (ucast v) w"
  shows "same_tables mm' (tbl[unat pgn := w])"
  using assms unat_page [OF assms(2)] by (auto simp: same_tables_def nth_list_update word_unat_eq_iff)

text \<open>One operation on both tables: the setters succeed, and the tables stay the same.\<close>

definition usable :: "mm_struct \<Rightarrow> bool" where
  "usable mm \<longleftrightarrow> pt_ok mm \<and> pgd mm \<noteq> None \<and> (\<forall>k. calloc_ok mm k)"

lemma usable_rest: "usable mm \<Longrightarrow> pt_ok mm' \<Longrightarrow> rest mm' = rest mm \<Longrightarrow> usable mm'"
  using rest_eqD [of mm' mm] by (simp add: usable_def)

lemma same_after_set:
  assumes "page_table set_pte enc" "usable mm" "same_tables mm tbl" "pgn < PAGING_MAX_PGN"
    and "\<And>p e. same_entry (ucast p) e \<Longrightarrow> same_entry (ucast (enc p v)) (enc32 e)"
  shows "usable (snd (set_pte mm pgn v)) \<and> pgd_slot tbl (ucast pgn) = Some (tbl ! unat pgn) \<and>
    same_tables (snd (set_pte mm pgn v)) (tbl[unat (ucast pgn :: u32) := enc32 (tbl ! unat pgn)])"
proof -
  have u: "pt_ok mm" "pgd mm \<noteq> None" "\<forall>k. calloc_ok mm k" using assms(2) by (simp_all add: usable_def)
  have e: "set_pte mm pgn v = (0, snd (set_pte mm pgn v))"
    using page_table.set_total [OF assms(1) u(1,2) assms(4) u(3), of v] by (simp add: prod_eq_iff)
  note d = page_table.set_done [OF assms(1) u(1) e]
  have t: "same_entry (ucast (pte_at mm pgn)) (tbl ! unat pgn)" "length tbl = 16384"
    using assms(3,4) by (simp_all add: same_tables_def)
  show ?thesis
    using usable_rest [OF assms(2)] d same_tables_update [OF assms(3,4), of _ "enc (pte_at mm pgn) v" "enc32 (tbl ! unat pgn)"]
      assms(5) [OF t(1)] t(2) unat_page [OF assms(4)]
    by (simp add: pgd_slot_def)
qed

lemma flat_run_same:
  assumes "usable mm" "same_tables mm tbl" "\<forall>op \<in> set ops. op_page op < PAGING_MAX_PGN"
  shows "\<exists>tbl'. flat_run ops tbl = Some tbl' \<and> usable (pt_run ops mm) \<and> same_tables (pt_run ops mm) tbl'"
  using assms
proof (induction ops mm arbitrary: tbl rule: pt_run.induct)
  case (1 mm) then show ?case by simp
next
  case (2 pgn fpn ops mm)
  have "pgn < PAGING_MAX_PGN" using 2 by simp
  from same_after_set [OF set_fpn.page_table_axioms 2(2,3) this, of fpn "\<lambda>e. fpn_pte32 e (ucast fpn)"] same_fpn
  show ?case using 2(1,4) by (simp add: pte_set_fpn32_def)
next
  case (3 pgn t off ops mm)
  have "pgn < PAGING_MAX_PGN" using 3 by simp
  from same_after_set [OF set_swap.page_table_axioms 3(2,3) this, of "(t, off)" "\<lambda>e. swap_pte32 e t (ucast off)"] same_swap
  show ?case using 3(1,4) by (simp add: pte_set_swap32_def)
next
  case (4 pgn u ops mm)
  have "pgn < PAGING_MAX_PGN" using 4 by simp
  from same_after_set [OF set_entry.page_table_axioms 4(2,3) this, of u "\<lambda>e. u"] same_set
  show ?case using 4(1,4) by (simp add: pte_set_entry32_def)
next
  case (5 pgn ops mm)
  let ?m = "snd (pte_get_entry mm pgn)"
  have ok: "pt_ok mm" using 5(2) by (simp add: usable_def)
  note g = pte_get_entry_at [OF ok, of pgn "fst (pte_get_entry mm pgn)" ?m]
  have "usable ?m" "same_tables ?m tbl" using g usable_rest [OF 5(2)] 5(3) by (simp_all add: same_tables_def)
  then show ?case using 5(1,4) by simp
qed

text \<open>
  Property C22: the five-level page table is the flat one. Run any sequence of entry operations on
  pages below the limit on the sparse five-level table of the 64-bit build and on the flat array of
  src/mm.c, from tables with the same entries and with every \<^verbatim>\<open>calloc\<close> granted. Then every entry
  that \<^verbatim>\<open>pte_get_entry\<close> reads is the one of the array, except that the 32-bit code leaves the present
  bit of a swapped page set.
\<close>

theorem page_table_equals_flat:
  assumes "pt_ok mm" "pgd mm \<noteq> None" "\<forall>k. calloc_ok mm k" "same_tables mm tbl"
    and "\<forall>op \<in> set ops. op_page op < PAGING_MAX_PGN"
  shows "\<exists>tbl'. flat_run ops tbl = Some tbl' \<and>
    (\<forall>p < PAGING_MAX_PGN. let e64 = fst (pte_get_entry (pt_run ops mm) p); e32 = tbl' ! unat p in
       e64 = e32 \<or> (PAGING_PAGE_SWAPPED e32 \<and> e64 = CLRBIT32 e32 PAGING_PTE_PRESENT_MASK))"
proof -
  have "usable mm" using assms by (simp add: usable_def)
  then obtain tbl' where t: "flat_run ops tbl = Some tbl'" "usable (pt_run ops mm)" "same_tables (pt_run ops mm) tbl'"
    using flat_run_same assms(4,5) by blast
  have "fst (pte_get_entry (pt_run ops mm) p) = ucast (pte_at (pt_run ops mm) p)" for p
    using pte_get_entry_at [of "pt_run ops mm" p "fst (pte_get_entry (pt_run ops mm) p)" "snd (pte_get_entry (pt_run ops mm) p)"] t(2)
    by (simp add: usable_def)
  then show ?thesis using t(1,3) by (simp add: same_tables_def same_entry_def Let_def)
qed

lemma demo_mm_zero: "pte_at demo_mm p = 0"
  using init_mm_ok(2) [of "[]" 0 demo_mm p] by (simp add: pte_at_def init_mm_def demo_mm_def Let_def)

theorem page_table_equals_flat_witness:
  "\<exists>tbl'. flat_run [SetFpn 3 5, SetSwap 3 0 9] (replicate 16384 0) = Some tbl' \<and>
     (let e64 = fst (pte_get_entry (pt_run [SetFpn 3 5, SetSwap 3 0 9] demo_mm) 3); e32 = tbl' ! 3 in
       e64 = e32 \<or> (PAGING_PAGE_SWAPPED e32 \<and> e64 = CLRBIT32 e32 PAGING_PTE_PRESENT_MASK))"
proof -
  have z: "same_tables demo_mm (replicate 16384 0)"
    by (auto simp: same_tables_def demo_mm_zero same_entry_def PAGING_MAX_PGN_eq word_less_nat_alt)
  obtain tbl' where t: "flat_run [SetFpn 3 5, SetSwap 3 0 9] (replicate 16384 0) = Some tbl'"
      "\<forall>p < PAGING_MAX_PGN. let e64 = fst (pte_get_entry (pt_run [SetFpn 3 5, SetSwap 3 0 9] demo_mm) p); e32 = tbl' ! unat p in
       e64 = e32 \<or> (PAGING_PAGE_SWAPPED e32 \<and> e64 = CLRBIT32 e32 PAGING_PTE_PRESENT_MASK)"
    using page_table_equals_flat [OF demo_mm_ok z, of "[SetFpn 3 5, SetSwap 3 0 9]"] demo_pgn by auto
  have "unat (3 :: addr_t) = 3" by simp
  then show ?thesis using t(1) t(2) [rule_format, OF demo_pgn] by (intro exI [of _ tbl']) simp
qed

end
