(* ===== verification/Legacy.thy ===== *)
theory Legacy
  imports Common
begin

text \<open>
  The obsolete segmented memory of src/mem.c and the four instructions of src/cpu.c that use it, the
  code for a build without \<^verbatim>\<open>MM_PAGING\<close>. The bodies were emptied: no segment is ever found, so every
  access is refused. What is left is the splitting of an address and the dump.
\<close>

section \<open>State\<close>

definition ADDRESS_SIZE :: nat where
  "ADDRESS_SIZE = 20"

definition OFFSET_LEN :: nat where
  "OFFSET_LEN = 10"

definition PAGE_LEN :: nat where
  "PAGE_LEN = 5"

definition NUM_PAGES :: nat where
  "NUM_PAGES = 2 ^ (ADDRESS_SIZE - OFFSET_LEN)"

definition RAM_SIZE :: nat where
  "RAM_SIZE = 2 ^ ADDRESS_SIZE"

record mem_stat =
  ms_proc :: u32
  ms_index :: int
  ms_next :: int

record seg_memory =
  ram :: "byte list"
  mem_stats :: "mem_stat list"

text \<open>The two-level tables of include/common.h: rows of a virtual index and what it maps to.\<close>

record trans_table_t =
  tt_table :: "(addr_t \<times> addr_t) list"
  tt_size :: int

record page_table_t =
  pt_table :: "(addr_t \<times> trans_table_t option) list"
  pt_size :: int

section \<open>src/mem.c\<close>

definition init_mem :: "seg_memory \<Rightarrow> seg_memory" where
  "init_mem m = \<lparr>ram = replicate RAM_SIZE 0,
     mem_stats = replicate NUM_PAGES \<lparr>ms_proc = 0, ms_index = 0, ms_next = 0\<rparr>\<rparr>"

definition get_offset :: "addr_t \<Rightarrow> addr_t" where
  "get_offset addr = addr AND ucast (NOT (push_bit OFFSET_LEN (NOT (0 :: u32))))"

definition get_first_lv :: "addr_t \<Rightarrow> addr_t" where
  "get_first_lv addr = drop_bit (OFFSET_LEN + PAGE_LEN) addr"

definition get_second_lv :: "addr_t \<Rightarrow> addr_t" where
  "get_second_lv addr = drop_bit OFFSET_LEN addr - push_bit PAGE_LEN (get_first_lv addr)"

text \<open>The loop over the rows has no body.\<close>

definition get_trans_table :: "addr_t \<Rightarrow> page_table_t \<Rightarrow> trans_table_t option" where
  "get_trans_table index page_table = None"

text \<open>
  \<^verbatim>\<open>translate\<close> never writes \<^verbatim>\<open>*physical_addr\<close>, so a caller that went on with it would read an
  uninitialised variable. A row outside the array is undefined.
\<close>

definition TT_ROWS :: nat where
  "TT_ROWS = 2 ^ PAGE_LEN"

fun find_row :: "nat \<Rightarrow> nat \<Rightarrow> addr_t \<Rightarrow> (addr_t \<times> addr_t) list \<Rightarrow> int option" where
  "find_row 0 i v rows = Some 0"
| "find_row (Suc n) i v rows =
     (if TT_ROWS \<le> i then None else if fst (rows ! i) = v then Some 1 else find_row n (Suc i) v rows)"

definition translate :: "addr_t \<Rightarrow> page_table_t \<Rightarrow> int option" where
  "translate virtual_addr page_table =
     (let first_lv = get_first_lv virtual_addr; second_lv = get_second_lv virtual_addr
      in case get_trans_table first_lv page_table of
           None \<Rightarrow> Some 0
         | Some tt \<Rightarrow> find_row (nat (tt_size tt)) 0 second_lv (tt_table tt))"

text \<open>\<^verbatim>\<open>alloc_mem\<close>: the address returned and the new break pointer. \<^verbatim>\<open>mem_avail\<close> stays 0.\<close>

definition alloc_mem :: "u32 \<Rightarrow> u32 \<Rightarrow> addr_t \<times> u32" where
  "alloc_mem sz brk =
     (let num_pages = (if sz mod 1024 \<noteq> 0 then sz div 1024 else sz div 1024 + 1);
          mem_avail = (0 :: int)
      in if mem_avail \<noteq> 0 then (ucast brk, brk + num_pages * 1024) else (0, brk))"

definition free_mem :: "addr_t \<Rightarrow> int" where
  "free_mem address = 0"

definition read_mem :: "addr_t \<Rightarrow> page_table_t \<Rightarrow> (int \<times> byte option) option" where
  "read_mem address page_table =
     do { ok \<leftarrow> translate address page_table; if ok \<noteq> 0 then None else Some (1, None) }"

definition write_mem :: "addr_t \<Rightarrow> page_table_t \<Rightarrow> byte \<Rightarrow> seg_memory \<Rightarrow> (int \<times> seg_memory) option" where
  "write_mem address page_table data m =
     do { ok \<leftarrow> translate address page_table; if ok \<noteq> 0 then None else Some (1, m) }"

text \<open>
  \<^verbatim>\<open>dump\<close>: for each page in use, its number and the addresses and values it lists. The inner loop
  stops before the last address of the page.
\<close>

definition dump_page :: "seg_memory \<Rightarrow> nat \<Rightarrow> (nat \<times> byte) list" where
  "dump_page m i = map (\<lambda>j. (j, ram m ! j))
     (filter (\<lambda>j. ram m ! j \<noteq> 0) [i * 2 ^ OFFSET_LEN ..< (i + 1) * 2 ^ OFFSET_LEN - 1])"

definition dump :: "seg_memory \<Rightarrow> (nat \<times> (nat \<times> byte) list) list" where
  "dump m = map (\<lambda>i. (i, dump_page m i)) (filter (\<lambda>i. ms_proc (mem_stats m ! i) \<noteq> 0) [0..<NUM_PAGES])"

section \<open>src/cpu.c without paging\<close>

text \<open>A register index outside the array is undefined.\<close>

definition reg_of :: "pcb_t \<Rightarrow> u32 \<Rightarrow> addr_t option" where
  "reg_of c i = (if unat i < length (regs c) then Some (regs c ! unat i) else None)"

definition set_reg_of :: "pcb_t \<Rightarrow> u32 \<Rightarrow> addr_t \<Rightarrow> pcb_t option" where
  "set_reg_of c i v = (if unat i < length (regs c) then Some (c\<lparr>regs := (regs c)[unat i := v]\<rparr>) else None)"

definition seg_alloc :: "pcb_t \<Rightarrow> u32 \<Rightarrow> u32 \<Rightarrow> (int \<times> pcb_t) option" where
  "seg_alloc c sz reg_index =
     (case alloc_mem sz (bp c) of (addr, brk) \<Rightarrow>
        if addr = 0 then Some (1, c\<lparr>bp := brk\<rparr>)
        else do { c1 \<leftarrow> set_reg_of (c\<lparr>bp := brk\<rparr>) reg_index addr; Some (0, c1) })"

definition seg_free :: "pcb_t \<Rightarrow> u32 \<Rightarrow> int option" where
  "seg_free c reg_index = map_option free_mem (reg_of c reg_index)"

definition seg_read :: "page_table_t \<Rightarrow> pcb_t \<Rightarrow> u32 \<Rightarrow> u32 \<Rightarrow> u32 \<Rightarrow> (int \<times> pcb_t) option" where
  "seg_read page_table c source offset destination =
     do {
       a \<leftarrow> reg_of c source;
       (stat, data) \<leftarrow> read_mem (a + ucast offset) page_table;
       if stat = 0 then do { d \<leftarrow> data; c1 \<leftarrow> set_reg_of c destination (u64_of_byte d); Some (0, c1) }
       else Some (1, c)
     }"

definition seg_write :: "page_table_t \<Rightarrow> pcb_t \<Rightarrow> byte \<Rightarrow> u32 \<Rightarrow> u32 \<Rightarrow> seg_memory \<Rightarrow> (int \<times> seg_memory) option" where
  "seg_write page_table c data destination offset m =
     do { a \<leftarrow> reg_of c destination; write_mem (a + ucast offset) page_table data m }"

section \<open>Facts\<close>

lemma take_bit_bounds: "take_bit 5 (w :: addr_t) < 32" "take_bit 10 (w :: addr_t) < 1024"
  by (simp_all add: word_less_nat_alt unat_take_bit_mod)

text \<open>The three fields of an address determine it.\<close>

lemma address_fields:
  "push_bit 15 (get_first_lv a) + push_bit 10 (get_second_lv a) + get_offset a = a"
  "get_second_lv a < 32" "get_offset a < 1024"
proof -
  have o: "get_offset a = take_bit 10 a"
    by (rule bit_eqI) (auto simp: get_offset_def OFFSET_LEN_def bit_simps dest: bit_imp_le_length)
  have f: "get_first_lv a = drop_bit 5 (drop_bit 10 a)"
    by (simp add: get_first_lv_def OFFSET_LEN_def PAGE_LEN_def)
  have d: "drop_bit 10 a = push_bit 5 (get_first_lv a) + take_bit 5 (drop_bit 10 a)"
    unfolding f by (rule bits_ident [symmetric])
  have s: "get_second_lv a = take_bit 5 (drop_bit 10 a)"
    using d unfolding get_second_lv_def OFFSET_LEN_def PAGE_LEN_def by (simp add: algebra_simps)
  have "push_bit 15 (get_first_lv a) + push_bit 10 (get_second_lv a) = push_bit 10 (push_bit 5 (get_first_lv a) + get_second_lv a)"
    by (simp add: push_bit_add)
  also have "\<dots> = push_bit 10 (drop_bit 10 a)" using d s by simp
  finally show "push_bit 15 (get_first_lv a) + push_bit 10 (get_second_lv a) + get_offset a = a"
    using bits_ident [of 10 a] by (simp add: o)
  show "get_second_lv a < 32" unfolding s by (rule take_bit_bounds)
  show "get_offset a < 1024" unfolding o by (rule take_bit_bounds)
qed

text \<open>Every access is refused, and nothing changes.\<close>

lemma segments_refused:
  "translate a page_table = Some 0" "fst (alloc_mem sz brk) = 0" "snd (alloc_mem sz brk) = brk"
  "read_mem a page_table = Some (1, None)" "write_mem a page_table v m = Some (1, m)"
  "seg_alloc c sz i = Some (1, c)"
  by (simp_all add: translate_def get_trans_table_def alloc_mem_def read_mem_def write_mem_def seg_alloc_def Let_def)

text \<open>The last byte of a page is never listed.\<close>

lemma dump_skips_last: "(j, v) \<in> set (dump_page m i) \<Longrightarrow> i * 1024 \<le> j \<and> j + 1 < (i + 1) * 1024 \<and> ram m ! j = v \<and> v \<noteq> 0"
  by (auto simp: dump_page_def OFFSET_LEN_def)

end
