(* ===== verification/PagingDemo.thy ===== *)
theory PagingDemo
  imports Legacy Loader Cpu
begin

text \<open>
  The second main program of the repository, src/paging.c, for the obsolete memory: it loads the same
  program twice and runs the two processes in turns. The instructions are those of src/cpu.c
  in a build without \<^verbatim>\<open>MM_PAGING\<close>. The two processes are never connected to a kernel, so a system
  call is undefined; so is a register index out of range.
\<close>

section \<open>src/cpu.c without paging: run\<close>

definition seg_execute :: "page_table_t \<Rightarrow> pref \<Rightarrow> pcb_t \<Rightarrow> seg_memory \<Rightarrow> inst_t \<Rightarrow> (int \<times> pcb_t \<times> seg_memory) option" where
  "seg_execute tab p c m ins =
     (case opcode ins of
        CALC \<Rightarrow> Some (calc p, c, m)
      | ALLOC \<Rightarrow> do { (stat, c1) \<leftarrow> seg_alloc c (ucast (arg_0 ins)) (ucast (arg_1 ins)); Some (stat, c1, m) }
      | FREE \<Rightarrow> do { stat \<leftarrow> seg_free c (ucast (arg_0 ins)); Some (stat, c, m) }
      | READ \<Rightarrow> do {
          (stat, c1) \<leftarrow> seg_read tab c (ucast (arg_0 ins)) (ucast (arg_1 ins)) (ucast (arg_2 ins));
          Some (stat, c1, m) }
      | WRITE \<Rightarrow> do {
          (stat, m1) \<leftarrow> seg_write tab c (byte_of_u64 (arg_0 ins)) (ucast (arg_1 ins)) (ucast (arg_2 ins)) m;
          Some (stat, c, m1) }
      | SYSCALL \<Rightarrow> None
      | _ \<Rightarrow> Some (1, c, m))"

definition seg_run :: "page_table_t \<Rightarrow> pref \<Rightarrow> pcb_t \<Rightarrow> seg_memory \<Rightarrow> (int \<times> pcb_t \<times> seg_memory) option" where
  "seg_run tab p c m =
     (if pc c \<ge> seg_size (code c) then Some (1, c, m)
      else if length (seg_text (code c)) \<le> unat (pc c) then None
      else seg_execute tab p (c\<lparr>pc := pc c + 1\<rparr>) m (seg_text (code c) ! unat (pc c)))"

section \<open>src/paging.c\<close>

text \<open>
  The memory the two calls of \<^verbatim>\<open>load\<close> get from malloc: a PCB with its page table, and the
  instructions.
\<close>

record demo_memory_t =
  dm_ref :: pref
  dm_pcb :: pcb_t
  dm_page_table :: page_table_t
  dm_text :: "nat \<Rightarrow> inst_t"

text \<open>The loop: \<open>n\<close> iterations are left.\<close>

fun paging_loop :: "nat \<Rightarrow> demo_memory_t \<Rightarrow> demo_memory_t \<Rightarrow> pcb_t \<Rightarrow> pcb_t \<Rightarrow> seg_memory \<Rightarrow>
    (pcb_t \<times> pcb_t \<times> seg_memory) option" where
  "paging_loop 0 jp jl proc ld m = Some (proc, ld, m)"
| "paging_loop (Suc n) jp jl proc ld m =
     do {
       (_, proc1, m1) \<leftarrow> seg_run (dm_page_table jp) (dm_ref jp) proc m;
       (_, ld1, m2) \<leftarrow> seg_run (dm_page_table jl) (dm_ref jl) ld m1;
       paging_loop n jp jl proc1 ld1 m2
     }"

text \<open>The static arrays of src/mem.c are zero; the program does not call \<^verbatim>\<open>init_mem\<close>.\<close>

definition static_seg_memory :: seg_memory where
  "static_seg_memory = \<lparr>ram = replicate RAM_SIZE 0,
     mem_stats = replicate NUM_PAGES \<lparr>ms_proc = 0, ms_index = 0, ms_next = 0\<rparr>\<rparr>"

definition paging_main :: "(string \<Rightarrow> string option) \<Rightarrow> demo_memory_t \<Rightarrow> demo_memory_t \<Rightarrow>
    (nat \<times> (nat \<times> byte) list) list c_result" where
  "paging_main files jl jp =
     and_then (load files (dm_pcb jl) (dm_text jl) 1 ''input/p0'') (\<lambda>(ld, a).
       and_then (load files (dm_pcb jp) (dm_text jp) a ''input/p0'') (\<lambda>(proc, _).
         case paging_loop (unat (seg_size (code proc))) jp jl proc ld static_seg_memory of
           None \<Rightarrow> None
         | Some (_, _, m) \<Rightarrow> done_with (dump m)))"

section \<open>What the demo does\<close>

text \<open>The instructions that are defined in this program.\<close>

definition seg_safe :: "pcb_t \<Rightarrow> inst_t \<Rightarrow> bool" where
  "seg_safe c ins \<longleftrightarrow> opcode ins \<noteq> SYSCALL \<and>
     (opcode ins \<in> {FREE, READ} \<longrightarrow> unat (ucast (arg_0 ins) :: u32) < length (regs c)) \<and>
     (opcode ins = WRITE \<longrightarrow> unat (ucast (arg_1 ins) :: u32) < length (regs c))"

text \<open>An instruction changes neither the registers nor the memory.\<close>

lemma seg_execute_safe:
  assumes "seg_safe c ins"
  shows "\<exists>r. seg_execute tab p c m ins = Some (r, c, m)"
  using assms
  by (cases "opcode ins")
    (auto simp: seg_safe_def seg_execute_def segments_refused seg_free_def seg_read_def seg_write_def reg_of_def)

lemma seg_run_safe:
  assumes "unat (pc c) < unat (seg_size (code c))" "length (seg_text (code c)) = unat (seg_size (code c))"
    and "\<forall>ins \<in> set (seg_text (code c)). seg_safe c ins"
  shows "\<exists>r. seg_run tab p c m = Some (r, c\<lparr>pc := pc c + 1\<rparr>, m)"
proof -
  have "seg_safe (c\<lparr>pc := pc c + 1\<rparr>) (seg_text (code c) ! unat (pc c))" using assms by (simp add: seg_safe_def)
  then show ?thesis using seg_execute_safe assms(1,2) by (simp add: seg_run_def word_le_nat_alt)
qed

lemma paging_loop_runs:
  assumes "unat (pc proc) + n \<le> unat (seg_size (code proc))" "length (seg_text (code proc)) = unat (seg_size (code proc))"
    and "\<forall>ins \<in> set (seg_text (code proc)). seg_safe proc ins"
    and "unat (pc ld) + n \<le> unat (seg_size (code ld))" "length (seg_text (code ld)) = unat (seg_size (code ld))"
    and "\<forall>ins \<in> set (seg_text (code ld)). seg_safe ld ins"
  shows "paging_loop n jp jl proc ld m = Some (proc\<lparr>pc := pc proc + of_nat n\<rparr>, ld\<lparr>pc := pc ld + of_nat n\<rparr>, m)"
  using assms
proof (induction n arbitrary: proc ld)
  case 0 then show ?case by simp
next
  case (Suc n)
  let ?proc = "proc\<lparr>pc := pc proc + 1\<rparr>" and ?ld = "ld\<lparr>pc := pc ld + 1\<rparr>"
  note inc = unat_inc [of "pc proc" "seg_size (code proc)"] unat_inc [of "pc ld" "seg_size (code ld)"]
  obtain r1 where r1: "seg_run (dm_page_table jp) (dm_ref jp) proc m = Some (r1, ?proc, m)"
    using seg_run_safe [OF _ Suc.prems(2,3)] Suc.prems(1) by fastforce
  obtain r2 where r2: "seg_run (dm_page_table jl) (dm_ref jl) ld m = Some (r2, ?ld, m)"
    using seg_run_safe [OF _ Suc.prems(5,6)] Suc.prems(4) by fastforce
  have "paging_loop n jp jl ?proc ?ld m = Some (?proc\<lparr>pc := pc ?proc + of_nat n\<rparr>, ?ld\<lparr>pc := pc ?ld + of_nat n\<rparr>, m)"
    using Suc.prems inc
    by (intro Suc.IH) (simp_all add: seg_safe_def)
  then show ?case using r1 r2 by (simp add: add.assoc)
qed


text \<open>
  With a program of defined instructions both processes execute all of it, once, and the
  dump prints nothing: no access ever reaches the memory.
\<close>

lemma paging_main_prints_nothing:
  assumes "load files (dm_pcb jl) (dm_text jl) 1 ''input/p0'' = done_with (ld, a)"
    and "load files (dm_pcb jp) (dm_text jp) a ''input/p0'' = done_with (proc, a')"
    and "seg_size (code ld) = seg_size (code proc)" "pc ld = 0" "pc proc = 0"
    and "length (seg_text (code ld)) = unat (seg_size (code ld))" "length (seg_text (code proc)) = unat (seg_size (code proc))"
    and "\<forall>ins \<in> set (seg_text (code ld)). seg_safe ld ins" "\<forall>ins \<in> set (seg_text (code proc)). seg_safe proc ins"
  shows "paging_main files jl jp = done_with []"
proof -
  have "dump static_seg_memory = []"
    by (auto simp: dump_def static_seg_memory_def filter_empty_conv)
  then show ?thesis using paging_loop_runs [of proc "unat (seg_size (code proc))" ld] assms
    by (simp add: paging_main_def)
qed

end
