(* ===== verification/Spec2Isabelle.thy ===== *)
theory Spec2Isabelle
  imports Arrays AddrFields SchedSingle Mm32 PagingDemo
begin

text \<open>
  A verification library for the operating system simulator (C, 64-bit build: \<^verbatim>\<open>MLQ_SCHED\<close>,
  \<^verbatim>\<open>MM_PAGING\<close>, \<^verbatim>\<open>MM64\<close>, \<^verbatim>\<open>IODUMP\<close> and \<^verbatim>\<open>PAGETBL_DUMP\<close> defined, \<^verbatim>\<open>MM_FIXED_MEMSZ\<close> not).

  \<^bold>\<open>The program.\<close> A loader reads programs of eleven instructions, CPUs execute them in time
  slots. A multi-level queue scheduler (src/sched.c over src/queue.c) picks the process to run;
  \<^verbatim>\<open>run\<close> (src/cpu.c) executes one instruction; memory instructions go to the library
  (src/libmem.c), which manages regions in virtual memory areas, enters the kernel through the
  system call layer (src/libstd.c, src/syscall.c, src/sys_mem.c), which grows areas
  (src/mm-vm.c), maps pages in a five-level page table (src/mm64.c) and reads and writes the RAM
  and swap devices (src/mm-memphy.c). Kernel memory is a bump allocator with slabs in
  src/libmem.c.

  \<^bold>\<open>Theories\<close>, in the order of the calls:
  \<^item> \<^verbatim>\<open>Prelude\<close>: C integer conversions, lists, and \<open>outcome\<close>, a predicate on fallible results with
    its decomposition rules.
  \<^item> \<^verbatim>\<open>Bitops\<close>: include/bitops.h and the paging constants and PTE macros of include/mm.h and
    include/mm64.h on words of their C width.
  \<^item> \<^verbatim>\<open>OsQueue\<close>: src/queue.c, the array of 50 process pointers. Locale \<open>bounded_fifo\<close> states the
    contract of a bounded queue and is interpreted on the array.
  \<^item> \<^verbatim>\<open>Common\<close>: the structures of include/os-mm.h and include/common.h as records.
  \<^item> \<^verbatim>\<open>Sched\<close>: src/sched.c; invariant \<open>wf_sched\<close>, work conservation, dispatch policy, absence of
    starvation with an explicit bound, PID lookup.
  \<^item> \<^verbatim>\<open>Memphy\<close>: src/mm-memphy.c. Locale \<open>byte_device\<close> states what a byte-addressed device promises
    and is interpreted on \<^verbatim>\<open>MEMPHY_read\<close> and \<^verbatim>\<open>MEMPHY_write\<close>.
  \<^item> \<^verbatim>\<open>PageTable\<close>: the page table half of src/mm64.c. Locale \<open>page_table\<close> is the contract of a PTE
    setter (frame, totality, read-back) and is interpreted on all three setters of the code.
  \<^item> \<^verbatim>\<open>Mm64\<close>: the mapping half of src/mm64.c; conservation of frames, teardown.
  \<^item> \<^verbatim>\<open>MmVm\<close>: src/mm-vm.c; the areas of a process stay disjoint.
  \<^item> \<^verbatim>\<open>Kernel\<close>: the state \<open>machine\<close> of the whole system and the system calls.
  \<^item> \<^verbatim>\<open>Libmem\<close>: src/libmem.c, user memory: allocation, release, access checks, demand swapping,
    release of a process.
  \<^item> \<^verbatim>\<open>Kmem\<close>: src/libmem.c, kernel memory: pool, slabs, copies between the modes.
  \<^item> \<^verbatim>\<open>Library\<close>: the interfaces through which the memory library is reasoned about. Each of the locales
    \<open>quiet_relation\<close>, \<open>growing_relation\<close>, \<open>writing_relation\<close> and \<open>library_relation\<close> takes a relation of a state and a
    later one and the few laws about the primitive operations (a page table walk, a system call, a byte
    written) that make every function of src/libmem.c keep it; the proofs go once through the functions.
  \<^item> \<^verbatim>\<open>Cpu\<close>: src/cpu.c, one instruction: what it may change, and that programs end. \<open>instruction_relation\<close>
    extends the interface by the registers and is interpreted here on the frame of an instruction.
  \<^item> \<^verbatim>\<open>Scanf\<close>: what \<^verbatim>\<open>fscanf\<close>, \<^verbatim>\<open>sscanf\<close> and \<^verbatim>\<open>fgets\<close> read of a file, for the formats the program uses.
  \<^item> \<^verbatim>\<open>Loader\<close>: src/loader.c; a printed program loads as itself, a short file repeats the last line.
  \<^item> \<^verbatim>\<open>Timer\<close>: src/timer.c, the time slot barrier, as a step relation of its own.
  \<^item> \<^verbatim>\<open>Config\<close>: \<^verbatim>\<open>read_config\<close> and the first lines of \<^verbatim>\<open>main\<close> in src/os.c.
  \<^item> \<^verbatim>\<open>Threads\<close>: \<^verbatim>\<open>cpu_routine\<close>, \<^verbatim>\<open>ld_routine\<close> and \<^verbatim>\<open>main\<close> of src/os.c, as the step relation \<open>os_step\<close> of
    the whole simulator.
  \<^item> \<^verbatim>\<open>Ownership\<close>: the invariant \<open>os_inv\<close> of the reachable states: who holds which process.
  \<^item> \<^verbatim>\<open>Simulator\<close>: the threads refine the barrier of \<^verbatim>\<open>Timer\<close>; deadlock, quantum, termination.
  \<^item> \<^verbatim>\<open>Isolation\<close>: \<open>sep\<close>, every frame is free or behind one page of one process, and \<open>isolated\<close>: every
    instruction keeps \<open>sep\<close>, the memory of the other processes and, page marking apart, the pool of the frames
    that are free or in use; an interpretation of \<open>instruction_relation\<close>. Locale \<open>separation\<close> states what a step
    that acts for one process must keep and is interpreted on \<^verbatim>\<open>run\<close>.
  \<^item> \<^verbatim>\<open>Frames\<close>: the same in the reachable states of the simulator: creation and release of processes
    keep \<open>sep\<close>, a CPU's process is found by its PID, nothing is ever swapped.
  \<^item> \<^verbatim>\<open>Layout\<close>: every array of the state keeps the length of its C declaration.
  \<^item> \<^verbatim>\<open>Conservation\<close>: in the reachable states no frame of RAM is lost, unless a program marks pages by
    memory call 17, and then it never returns.
  \<^item> \<^verbatim>\<open>Example\<close>: one execution from \<^verbatim>\<open>main\<close> on, in which a loaded program allocates and writes memory.
  \<^item> \<^verbatim>\<open>Arrays\<close>: the abstract machine a program sees, a private array of bytes and ten registers. Three more
    interpretations of the interfaces of \<open>Library\<close> show that loads, stores and copies have their effect on the
    array and no other; the simulator refines one such machine per process.
  \<^item> \<^verbatim>\<open>AddrFields\<close>: the rest of the layout macros of include/mm.h and include/mm64.h.
  \<^item> \<^verbatim>\<open>SchedSingle\<close>: the half of src/sched.c for a build without \<^verbatim>\<open>MLQ_SCHED\<close>.
  \<^item> \<^verbatim>\<open>Mm32\<close>: src/mm.c and include/mm.h of the 32-bit build; its flat page table is what the five-level
    table implements.
  \<^item> \<^verbatim>\<open>Legacy\<close>: src/mem.c and the functions of src/cpu.c for the build without paging.
  \<^item> \<^verbatim>\<open>PagingDemo\<close>: \<^verbatim>\<open>run\<close> without paging and src/paging.c, a second \<^verbatim>\<open>main\<close> no build target compiles.

  \<^bold>\<open>Reading the definitions.\<close> A C function is a HOL function of the state it reads, returning its
  result and the new state. Where C behaviour would be undefined (access outside a buffer, a
  pointer that is NULL or freed, signed overflow, an index outside an array) the result is \<open>None\<close>
  of an option; a return code such as \<^verbatim>\<open>-1\<close> is a value. Unsigned integers are words of their
  width; an \<^verbatim>\<open>int\<close> is an \<open>int\<close> with the conversions of the prelude written where the code
  converts. \<^verbatim>\<open>BYTE\<close> is a signed char: an 8-bit word, sign-extended where C promotes it. A page
  directory is a tree: the code never shares a directory page. A pointer to a PCB is a number
  looked up in \<open>procs\<close>; a freed PCB is not in it. Each function that the code runs under one lock
  is one step. The output of \<^verbatim>\<open>printf\<close> is kept only for the dumps, whose content is the point.

  \<^bold>\<open>Bounds.\<close> The theorems on the memory of the reachable states (\<open>Isolation\<close> to \<open>Arrays\<close>) take RAM to have
  between 256 bytes and 2 MB: the frame field of a page table entry has 13 bits, so on a larger RAM, such as the
  256 MB of some configuration files, two frames share an entry and the theorems do not speak of it. Those that
  need a process to be found by its PID take at most 50 processes, the size of a queue. No definition uses fuel:
  loops are recursions on their bound or their list, with \<open>termination\<close> proved by the distance to the bound.

  \<^bold>\<open>Parameters.\<close> \<^verbatim>\<open>malloc\<close> and \<^verbatim>\<open>pthread\<close> calls are taken to succeed, except the \<^verbatim>\<open>calloc\<close> of a
  directory page, whose failure the code handles: \<open>calloc_ok\<close> in the memory descriptor says which
  requests are granted.

  \<^bold>\<open>Concurrency.\<close> \<open>os_step\<close> interleaves the threads: a step is what a thread does up to its next
  access to state it shares, that is one call of the scheduler (one section under \<^verbatim>\<open>queue_lock\<close>), one
  block of the timer's protocol (one section under an event's or the timer's lock), or one
  instruction. That an instruction is one step is coarser than the code where two CPUs run memory
  instructions at once: \<^verbatim>\<open>mmvm_lock\<close> covers some of the functions of src/libmem.c and not the system
  calls. Every order of the steps is allowed; what a thread waits for is a guard of its step.

  \<^bold>\<open>Not modelled.\<close> Macros nothing expands and whose types are not those of the build (\<^verbatim>\<open>BIT_MASK\<close>,
  \<^verbatim>\<open>BIT_ULL_MASK\<close>, \<^verbatim>\<open>BITS_TO_LONGS\<close> of include/bitops.h); the text printed to
  the terminal apart from the page table and memory dumps; the failure of \<^verbatim>\<open>malloc\<close> and of the
  \<^verbatim>\<open>pthread\<close> calls, which the code does not test; the initialisation and destruction of the locks.
\<close>

end
